(* ===== verification/Geode_Prelude.thy ===== *)
theory Geode_Prelude
  imports Main "HOL-Library.Word"
begin

unbundle bit_operations_syntax

text \<open>
  Shared vocabulary of the development: the machine integer types of the C++ sources,
  the exceptions and error codes they report, sequencing of fallible steps, big-endian
  byte splitting and joining, and association lists in the iteration order of an
  unordered map. Nothing in this theory is specific to one component.
\<close>

section \<open>Machine integers and failures\<close>

type_synonym byte = "8 word"
type_synonym u16 = "16 word"
type_synonym u32 = "32 word"
type_synonym u64 = "64 word"

text \<open>
  The exceptions the modelled code throws. \<open>MemoryFault\<close> is no exception of the
  program: it stands for an access outside an allocation, which C++ leaves undefined,
  so that a theorem excluding it shows the access is in range. \<open>DivisionByZero\<close> is
  the same for an integer division.
\<close>

datatype gf_exn =
    OutOfRangeException
  | IllegalStateException
  | IllegalArgumentException
  | OutOfMemoryException
  | NullPointerException
  | FatalInternalException
  | TransactionException
  | DiskFailureException
  | RegionDestroyedException
  | CacheClosedException
  | RegionExistsException
  | UnsupportedOperationException
  | StdLengthError
  | DivisionByZero
  | MemoryFault

datatype gf_err =
    GF_NOERR
  | GF_ENOENT
  | GF_NOTCON
  | GF_MSG
  | GF_DISKFULL
  | GF_CACHE_ILLEGAL_STATE_EXCEPTION
  | GF_CACHE_CONCURRENT_MODIFICATION_EXCEPTION
  | GF_CACHE_ENTRY_NOT_FOUND
  | GF_CACHE_ENTRY_EXISTS
  | GF_CACHE_ENTRY_UPDATED
  | GF_INVALID_DELTA
  | GF_COMMIT_CONFLICT_EXCEPTION
  | GF_CACHE_ILLEGAL_ARGUMENT_EXCEPTION
  | GF_CACHE_REGION_DESTROYED_EXCEPTION
  | GF_CACHEWRITER_ERROR
  | GF_CACHE_LISTENER_EXCEPTION
  | GF_CACHE_LOADER_EXCEPTION
  | GF_NOTSUP
  | GF_NOTOBJ
  | GF_CACHESERVER_EXCEPTION
  | GF_CACHE_ENTRY_DESTROYED_EXCEPTION
  | GF_NOT_AUTHORIZED_EXCEPTION
  | GF_CACHE_WRITER_EXCEPTION
  | GF_AUTHENTICATION_FAILED_EXCEPTION
  | GF_INTERNAL_FUNCTION_INVOCATION_TARGET_EXCEPTION
  | GF_FUNCTION_EXCEPTION
  | GF_TRANSACTION_DATA_NODE_HAS_DEPARTED_EXCEPTION
  | GF_TRANSACTION_DATA_REBALANCED_EXCEPTION
  | GF_AUTHENTICATION_REQUIRED_EXCEPTION
  | GF_LOW_MEMORY_EXCEPTION
  | GF_QUERY_EXECUTION_LOW_MEMORY_EXCEPTION

text \<open>Sequencing of fallible steps: the first exception ends the computation.\<close>

fun andThen :: "'e + 'a \<Rightarrow> ('a \<Rightarrow> 'e + 'b) \<Rightarrow> 'e + 'b" where
  "andThen (Inl e) f = Inl e"
| "andThen (Inr x) f = f x"

text \<open>
  Unsigned subtraction on the 64-bit \<open>size_t\<close>, which wraps around.
\<close>

definition size_t_diff :: "int \<Rightarrow> int \<Rightarrow> int" where
  "size_t_diff a b = (a - b) mod 2 ^ 64"

section \<open>Big-endian bytes\<close>

definition bytes16 :: "u16 \<Rightarrow> byte list" where
  "bytes16 w = [ucast (drop_bit 8 w), ucast w]"

definition bytes32 :: "u32 \<Rightarrow> byte list" where
  "bytes32 w = [ucast (drop_bit 24 w), ucast (drop_bit 16 w), ucast (drop_bit 8 w), ucast w]"

definition bytes64 :: "u64 \<Rightarrow> byte list" where
  "bytes64 w =
     [ucast (drop_bit 56 w), ucast (drop_bit 48 w), ucast (drop_bit 40 w), ucast (drop_bit 32 w),
      ucast (drop_bit 24 w), ucast (drop_bit 16 w), ucast (drop_bit 8 w), ucast w]"

definition shift_in :: "'a::len word \<Rightarrow> byte \<Rightarrow> 'a word" where
  "shift_in acc b = push_bit 8 acc OR ucast b"

section \<open>Association lists\<close>

text \<open>
  An \<open>unordered_map\<close> is an association list: the list order is the (unspecified)
  iteration order, and keys are kept distinct by the operations below.
\<close>

definition al_find :: "('k \<times> 'v) list \<Rightarrow> 'k \<Rightarrow> 'v option" where
  "al_find m k = map_of m k"

definition al_erase :: "'k \<Rightarrow> ('k \<times> 'v) list \<Rightarrow> ('k \<times> 'v) list" where
  "al_erase k m = filter (\<lambda>p. fst p \<noteq> k) m"

text \<open>\<open>operator[]\<close> assignment: replace in place, or insert.\<close>

fun al_assign :: "'k \<Rightarrow> 'v \<Rightarrow> ('k \<times> 'v) list \<Rightarrow> ('k \<times> 'v) list" where
  "al_assign k v [] = [(k, v)]"
| "al_assign k v (p # m) = (if fst p = k then (k, v) # m else p # al_assign k v m)"

text \<open>\<open>emplace\<close>: insert only when the key is absent.\<close>

definition al_emplace :: "'k \<Rightarrow> 'v \<Rightarrow> ('k \<times> 'v) list \<Rightarrow> ('k \<times> 'v) list" where
  "al_emplace k v m = (case al_find m k of None \<Rightarrow> m @ [(k, v)] | Some _ \<Rightarrow> m)"

definition al_wf :: "('k \<times> 'v) list \<Rightarrow> bool" where
  "al_wf m = distinct (map fst m)"

named_theorems al_simps \<open>what the association list operations do to lookups and keys\<close>
named_theorems wire_defs \<open>the definitions that fix the wire format\<close>

section \<open>Facts about failures\<close>

lemma andThen_Inr_conv: "andThen r f = Inr y \<longleftrightarrow> (\<exists>x. r = Inr x \<and> f x = Inr y)"
  by (cases r) auto

lemma andThen_Inl_conv: "andThen r f = Inl e \<longleftrightarrow> r = Inl e \<or> (\<exists>x. r = Inr x \<and> f x = Inl e)"
  by (cases r) auto

lemma andThen_Inr_right [simp]: "andThen r Inr = r"
  by (cases r) auto

lemma andThen_assoc: "andThen (andThen r f) g = andThen r (\<lambda>x. andThen (f x) g)"
  by (cases r) auto

lemma size_t_diff_in_range: "b \<le> a \<Longrightarrow> a - b < 2 ^ 64 \<Longrightarrow> size_t_diff a b = a - b"
  by (simp add: size_t_diff_def)

lemma size_t_diff_wraps: "a < b \<Longrightarrow> b - a < 2 ^ 64 \<Longrightarrow> size_t_diff a b = 2 ^ 64 + a - b"
proof -
  assume "a < b" "b - a < 2 ^ 64"
  then have "(a - b + 2 ^ 64) mod 2 ^ 64 = a - b + 2 ^ 64"
    by (intro mod_pos_pos_trivial) auto
  then show ?thesis
    by (simp add: size_t_diff_def)
qed

section \<open>Facts about bytes\<close>

lemma bytes_length [simp]:
  "length (bytes16 a) = 2" "length (bytes32 b) = 4" "length (bytes64 c) = 8"
  by (simp_all add: bytes16_def bytes32_def bytes64_def)

lemma shift_in_drop_bit:
  "shift_in (drop_bit (n + 8) w) (ucast (drop_bit n w)) = drop_bit n (w :: 'a::len word)"
  by (rule bit_word_eqI) (auto simp: shift_in_def bit_simps)

lemma ucast_top_byte:
  "ucast (ucast (drop_bit 8 a) :: byte) = drop_bit 8 (a :: u16)"
  "ucast (ucast (drop_bit 24 b) :: byte) = drop_bit 24 (b :: u32)"
  "ucast (ucast (drop_bit 56 c) :: byte) = drop_bit 56 (c :: u64)"
  by (rule bit_word_eqI, auto simp: bit_simps dest: bit_imp_le_length)+

lemma shift_in_bytes16:
  "shift_in (ucast (ucast (drop_bit 8 w) :: byte)) (ucast w) = (w :: u16)"
  using shift_in_drop_bit[of 0 w] by (simp add: ucast_top_byte)

lemma shift_in_bytes32:
  "shift_in (shift_in (shift_in (ucast (ucast (drop_bit 24 w) :: byte)) (ucast (drop_bit 16 w)))
     (ucast (drop_bit 8 w))) (ucast w) = (w :: u32)"
  using shift_in_drop_bit[of 16 w] shift_in_drop_bit[of 8 w] shift_in_drop_bit[of 0 w]
  by (simp add: ucast_top_byte)

lemma shift_in_bytes64:
  "shift_in (shift_in (shift_in (shift_in (shift_in (shift_in (shift_in
     (ucast (ucast (drop_bit 56 w) :: byte)) (ucast (drop_bit 48 w))) (ucast (drop_bit 40 w)))
     (ucast (drop_bit 32 w))) (ucast (drop_bit 24 w))) (ucast (drop_bit 16 w)))
     (ucast (drop_bit 8 w))) (ucast w) = (w :: u64)"
  using shift_in_drop_bit[of 48 w] shift_in_drop_bit[of 40 w] shift_in_drop_bit[of 32 w]
    shift_in_drop_bit[of 24 w] shift_in_drop_bit[of 16 w] shift_in_drop_bit[of 8 w]
    shift_in_drop_bit[of 0 w]
  by (simp add: ucast_top_byte)

lemma sint_nonneg_u32:
  assumes "0 \<le> sint (w :: u32)"
  shows "uint w = sint w"
proof -
  have "take_bit 32 (sint w) = sint w"
    using assms sint_lt[of w] by (simp add: take_bit_int_eq_self_iff)
  then show ?thesis by (simp add: uint_sint)
qed

lemma sint_of_nat_u32: "n < 2 ^ 31 \<Longrightarrow> sint (of_nat n :: u32) = int n"
  by (simp add: signed_of_nat signed_take_bit_int_eq_self)

lemma unat_of_nat_u64: "n < 2 ^ 64 \<Longrightarrow> unat (of_nat n :: u64) = n"
  by (simp add: unat_of_nat take_bit_nat_eq_self)

lemma ucast_narrow:
  "uint (w :: u32) < 256 \<Longrightarrow> uint (ucast w :: byte) = uint w"
  "uint (w :: u32) < 256 \<Longrightarrow> ucast (ucast w :: byte) = w"
  "uint (w :: u32) < 65536 \<Longrightarrow> ucast (ucast w :: u16) = w"
  by (simp_all add: unsigned_ucast_eq take_bit_int_eq_self_iff word_uint_eq_iff unsigned_take_bit_eq)

section \<open>Facts about association lists\<close>

lemma al_find_Nil [simp, al_simps]: "al_find [] k = None"
  by (simp add: al_find_def)

lemma al_find_Cons [al_simps]: "al_find (p # m) k = (if fst p = k then Some (snd p) else al_find m k)"
  by (cases p) (auto simp: al_find_def)

lemma al_find_erase [simp, al_simps]:
  "al_find (al_erase k m) k' = (if k' = k then None else al_find m k')"
  by (induction m) (auto simp: al_erase_def al_find_def)

lemma al_find_assign [simp, al_simps]:
  "al_find (al_assign k v m) k' = (if k' = k then Some v else al_find m k')"
  by (induction m) (auto simp: al_find_def)

lemma al_find_append [al_simps]:
  "al_find (m @ n) k = (case al_find m k of None \<Rightarrow> al_find n k | Some v \<Rightarrow> Some v)"
  by (auto simp: al_find_def map_add_def split: option.splits)

lemma al_find_emplace [simp, al_simps]:
  "al_find (al_emplace k v m) k' =
     (if k' = k \<and> al_find m k = None then Some v else al_find m k')"
  by (auto simp: al_emplace_def al_find_append al_find_Cons split: option.splits)

lemma al_find_None_iff [al_simps]: "al_find m k = None \<longleftrightarrow> k \<notin> fst ` set m"
  by (simp add: al_find_def map_of_eq_None_iff)

lemma al_keys_erase [al_simps]: "fst ` set (al_erase k m) = fst ` set m - {k}"
  by (auto simp: al_erase_def)

lemma al_keys_assign [al_simps]: "fst ` set (al_assign k v m) = insert k (fst ` set m)"
  by (induction m) auto

lemma al_keys_emplace [al_simps]: "fst ` set (al_emplace k v m) = insert k (fst ` set m)"
  by (force simp: al_emplace_def al_find_None_iff split: option.splits
      dest: map_of_SomeD simp add: al_find_def)

lemma al_erase_absent: "k \<notin> fst ` set m \<Longrightarrow> al_erase k m = m"
  by (induction m) (auto simp: al_erase_def)

lemma al_wf_Nil [simp, intro]: "al_wf []"
  by (simp add: al_wf_def)

lemma al_wf_erase [simp, intro]: "al_wf m \<Longrightarrow> al_wf (al_erase k m)"
  by (induction m) (auto simp: al_wf_def al_erase_def)

lemma al_wf_assign [simp, intro]: "al_wf m \<Longrightarrow> al_wf (al_assign k v m)"
proof (induction m)
  case (Cons p m)
  have "fst ` set (al_assign k v m) = insert k (fst ` set m)"
    by (rule al_keys_assign)
  with Cons show ?case
    by (auto simp: al_wf_def)
qed (simp add: al_wf_def)

lemma al_wf_emplace [simp, intro]: "al_wf m \<Longrightarrow> al_wf (al_emplace k v m)"
  by (auto simp: al_wf_def al_emplace_def al_find_None_iff split: option.splits)

lemma al_find_in_set: "al_wf m \<Longrightarrow> (k, v) \<in> set m \<longleftrightarrow> al_find m k = Some v"
  by (auto simp: al_wf_def al_find_def map_of_eq_Some_iff)

lemma al_length_erase:
  "al_wf m \<Longrightarrow> length (al_erase k m) = length m - (if al_find m k = None then 0 else 1)"
proof (induction m)
  case (Cons p m)
  then have "al_wf m" and k: "fst p \<notin> fst ` set m"
    by (auto simp: al_wf_def)
  show ?case
  proof (cases "fst p = k")
    case True
    with k have "al_erase k m = m"
      by (simp add: al_erase_absent)
    with True show ?thesis
      by (simp add: al_erase_def al_find_Cons)
  next
    case False
    have "al_find m k \<noteq> None \<Longrightarrow> length m > 0"
      by (cases m) auto
    with False Cons.IH[OF \<open>al_wf m\<close>] show ?thesis
      by (auto simp: al_erase_def al_find_Cons)
  qed
qed (simp add: al_erase_def)

section \<open>Lists of lists\<close>

lemma distinct_map_filter: "distinct (map f xs) \<Longrightarrow> distinct (map f (filter P xs))"
  by (induction xs) auto

text \<open>Lists with no element in common concatenate without repetition.\<close>

lemma distinct_concat_nth:
  assumes "\<And>i. i < length xs \<Longrightarrow> distinct (f (xs ! i))"
    and "\<And>i j. \<lbrakk>i < length xs; j < length xs; i \<noteq> j\<rbrakk> \<Longrightarrow> set (f (xs ! i)) \<inter> set (f (xs ! j)) = {}"
  shows "distinct (concat (map f xs))"
  using assms
proof (induction xs)
  case (Cons x xs)
  have "distinct (concat (map f xs))"
  proof (rule Cons.IH)
    show "distinct (f (xs ! i))" if "i < length xs" for i
      using Cons.prems(1)[of "Suc i"] that by simp
    show "set (f (xs ! i)) \<inter> set (f (xs ! j)) = {}" if "i < length xs" "j < length xs" "i \<noteq> j" for i j
      using Cons.prems(2)[of "Suc i" "Suc j"] that by simp
  qed
  moreover have "set (f x) \<inter> set (f y) = {}" if "y \<in> set xs" for y
    using that Cons.prems(2)[of 0] by (fastforce simp: in_set_conv_nth)
  ultimately show ?case using Cons.prems(1)[of 0] by auto
qed simp

end
