(* ===== verification/Java_Modified_Utf8.thy ===== *)
theory Java_Modified_Utf8
  imports Geode_Prelude
begin

unbundle bit_operations_syntax

text \<open>
  The Java modified UTF-8 codec of \<open>util/JavaModifiedUtf8.cpp\<close> over UTF-16 code units:
  the encoder, the length computation, and the decoder with its unchecked reads made
  explicit. The decoder works on the memory from its start address on, so a multi-byte
  sequence cut off by the length argument reads the bytes that follow it.
\<close>

section \<open>Definitions\<close>

definition jm_encode :: "u16 \<Rightarrow> byte list" where
  "jm_encode c =
     (if c = 0 then [0xC0, 0x80]
      else if c < 0x80 then [ucast c]
      else if c < 0x800 then
        [ucast (0xC0 OR drop_bit 6 c), ucast (0x80 OR (c AND 0x3F))]
      else
        [ucast (0xE0 OR drop_bit 12 c), ucast (0x80 OR (drop_bit 6 c AND 0x3F)),
         ucast (0x80 OR (c AND 0x3F))])"

fun jm_encodedLength :: "u16 list \<Rightarrow> nat" where
  "jm_encodedLength [] = 0"
| "jm_encodedLength (c # cs) =
     (if c = 0 then 2
      else if c < 0x80 then 1
      else if c < 0x800 then 2
      else 3) + jm_encodedLength cs"

fun jm_fromString :: "u16 list \<Rightarrow> byte list" where
  "jm_fromString [] = []"
| "jm_fromString (c # cs) = jm_encode c @ jm_fromString cs"

definition fetch :: "byte list \<Rightarrow> nat \<Rightarrow> gf_exn + byte" where
  "fetch mem i = (if i < length mem then Inr (mem ! i) else Inl MemoryFault)"

definition decodeJavaModifiedUtf8Char :: "byte list \<Rightarrow> nat \<Rightarrow> gf_exn + (u16 \<times> nat)" where
  "decodeJavaModifiedUtf8Char mem i =
     andThen (fetch mem i) (\<lambda>b.
       let k = drop_bit 5 b in
       if k = 6 then
         andThen (fetch mem (i + 1)) (\<lambda>x.
           Inr (push_bit 6 (ucast (b AND 0x1F)) OR ucast (x AND 0x3F), i + 2))
       else if k = 7 then
         andThen (fetch mem (i + 1)) (\<lambda>y.
         andThen (fetch mem (i + 2)) (\<lambda>x.
           Inr (push_bit 12 (ucast (b AND 0x0F)) OR push_bit 6 (ucast (y AND 0x3F))
                  OR ucast (x AND 0x3F), i + 3)))
       else Inr (ucast (b AND 0x7F), i + 1))"

lemma decodeChar_advances:
  "decodeJavaModifiedUtf8Char mem i = Inr (c, j) \<Longrightarrow> i < j \<and> j \<le> i + 3"
  by (auto simp: decodeJavaModifiedUtf8Char_def andThen_Inr_conv Let_def split: if_splits)

function jm_decode :: "byte list \<Rightarrow> nat \<Rightarrow> nat \<Rightarrow> gf_exn + u16 list" where
  "jm_decode mem len i =
     (if i < len then
        (case decodeJavaModifiedUtf8Char mem i of
           Inl e \<Rightarrow> Inl e
         | Inr (c, j) \<Rightarrow>
             (case jm_decode mem len j of
                Inl e \<Rightarrow> Inl e
              | Inr cs \<Rightarrow> Inr (c # cs)))
      else Inr [])"
  by pat_completeness auto
termination
  by (relation "measure (\<lambda>(mem, len, i). len - i)") (auto dest: decodeChar_advances)

declare jm_decode.simps [simp del]

section \<open>Bits of small code units\<close>

lemma unset_above: "unat (c :: 'a::len word) < 2 ^ n \<Longrightarrow> n \<le> m \<Longrightarrow> \<not> bit c m"
proof -
  assume "unat c < 2 ^ n" "n \<le> m"
  then have "unat c < 2 ^ m"
    by (meson order_less_le_trans one_le_numeral power_increasing)
  then have "take_bit m (unat c) = unat c"
    by (simp add: take_bit_nat_eq_self)
  moreover have "\<not> bit (take_bit m (unat c)) m"
    by (simp add: bit_take_bit_iff)
  ultimately show "\<not> bit c m"
    by (simp add: bit_unsigned_iff)
qed

lemma u16_bits:
  "c < 0x80 \<Longrightarrow> 7 \<le> m \<Longrightarrow> \<not> bit (c :: u16) m"
  "c < 0x800 \<Longrightarrow> 11 \<le> m \<Longrightarrow> \<not> bit (c :: u16) m"
  using unset_above[of c 7 m] unset_above[of c 11 m] by (auto simp: word_less_nat_alt)

lemma upto8 [consumes 1]:
  "(n::nat) < 8 \<Longrightarrow> P 0 \<Longrightarrow> P 1 \<Longrightarrow> P 2 \<Longrightarrow> P 3 \<Longrightarrow> P 4 \<Longrightarrow> P 5 \<Longrightarrow> P 6 \<Longrightarrow> P 7 \<Longrightarrow> P n"
  by (simp add: numeral_eq_Suc less_Suc_eq) (elim disjE; simp)

lemma upto16 [consumes 1]:
  "(n::nat) < 16 \<Longrightarrow> P 0 \<Longrightarrow> P 1 \<Longrightarrow> P 2 \<Longrightarrow> P 3 \<Longrightarrow> P 4 \<Longrightarrow> P 5 \<Longrightarrow> P 6 \<Longrightarrow> P 7 \<Longrightarrow> P 8 \<Longrightarrow> P 9 \<Longrightarrow>
   P 10 \<Longrightarrow> P 11 \<Longrightarrow> P 12 \<Longrightarrow> P 13 \<Longrightarrow> P 14 \<Longrightarrow> P 15 \<Longrightarrow> P n"
  by (simp add: numeral_eq_Suc less_Suc_eq) (elim disjE; simp)

lemma eq8I: "(\<And>n. n < 8 \<Longrightarrow> bit (a :: byte) n = bit b n) \<Longrightarrow> a = b"
  by (rule bit_word_eqI) simp

lemma eq16I: "(\<And>n. n < 16 \<Longrightarrow> bit (a :: u16) n = bit b n) \<Longrightarrow> a = b"
  by (rule bit_word_eqI) simp

lemma one_byte_form:
  assumes "c < 0x80"
  shows "\<not> bit (ucast c :: byte) 7" "ucast ((ucast c :: byte) AND 0x7F) = (c :: u16)"
proof -
  show "\<not> bit (ucast c :: byte) 7"
    using u16_bits(1)[OF assms] by (simp add: bit_simps)
  show "ucast ((ucast c :: byte) AND 0x7F) = c"
  proof (rule eq16I)
    fix n :: nat assume "n < 16"
    then show "bit (ucast ((ucast c :: byte) AND 0x7F) :: u16) n = bit c n"
      using u16_bits(1)[OF assms] by (cases n rule: upto16) (simp_all add: bit_simps)
  qed
qed

lemma two_byte_form:
  assumes "c < 0x800"
  shows "drop_bit 5 (ucast (0xC0 OR drop_bit 6 c) :: byte) = 6"
    and "push_bit 6 (ucast ((ucast (0xC0 OR drop_bit 6 c) :: byte) AND 0x1F))
           OR ucast ((ucast (0x80 OR (c AND 0x3F)) :: byte) AND 0x3F) = (c :: u16)"
proof -
  show "drop_bit 5 (ucast (0xC0 OR drop_bit 6 c) :: byte) = 6"
  proof (rule eq8I)
    fix n :: nat assume "n < 8"
    then show "bit (drop_bit 5 (ucast (0xC0 OR drop_bit 6 c) :: byte)) n = bit (6 :: byte) n"
      using u16_bits(2)[OF assms] by (cases n rule: upto8) (simp_all add: bit_simps)
  qed
  show "push_bit 6 (ucast ((ucast (0xC0 OR drop_bit 6 c) :: byte) AND 0x1F))
           OR ucast ((ucast (0x80 OR (c AND 0x3F)) :: byte) AND 0x3F) = (c :: u16)"
  proof (rule eq16I)
    fix n :: nat assume "n < 16"
    then show "bit (push_bit 6 (ucast ((ucast (0xC0 OR drop_bit 6 c) :: byte) AND 0x1F))
           OR ucast ((ucast (0x80 OR (c AND 0x3F)) :: byte) AND 0x3F) :: u16) n = bit c n"
      using u16_bits(2)[OF assms] by (cases n rule: upto16) (simp_all add: bit_simps)
  qed
qed

lemma three_byte_form:
  "drop_bit 5 (ucast (0xE0 OR drop_bit 12 c) :: byte) = 7"
  "push_bit 12 (ucast ((ucast (0xE0 OR drop_bit 12 c) :: byte) AND 0x0F))
     OR push_bit 6 (ucast ((ucast (0x80 OR (drop_bit 6 c AND 0x3F)) :: byte) AND 0x3F))
     OR ucast ((ucast (0x80 OR (c AND 0x3F)) :: byte) AND 0x3F) = (c :: u16)"
proof -
  have above: "\<not> bit c m" if "16 \<le> m" for m
    using that by (auto dest: bit_imp_le_length)
  show "drop_bit 5 (ucast (0xE0 OR drop_bit 12 c) :: byte) = 7"
  proof (rule eq8I)
    fix n :: nat assume "n < 8"
    then show "bit (drop_bit 5 (ucast (0xE0 OR drop_bit 12 c) :: byte)) n = bit (7 :: byte) n"
      using above by (cases n rule: upto8) (simp_all add: bit_simps)
  qed
  show "push_bit 12 (ucast ((ucast (0xE0 OR drop_bit 12 c) :: byte) AND 0x0F))
     OR push_bit 6 (ucast ((ucast (0x80 OR (drop_bit 6 c AND 0x3F)) :: byte) AND 0x3F))
     OR ucast ((ucast (0x80 OR (c AND 0x3F)) :: byte) AND 0x3F) = (c :: u16)"
  proof (rule eq16I)
    fix n :: nat assume "n < 16"
    then show "bit (push_bit 12 (ucast ((ucast (0xE0 OR drop_bit 12 c) :: byte) AND 0x0F))
       OR push_bit 6 (ucast ((ucast (0x80 OR (drop_bit 6 c AND 0x3F)) :: byte) AND 0x3F))
       OR ucast ((ucast (0x80 OR (c AND 0x3F)) :: byte) AND 0x3F) :: u16) n = bit c n"
      by (cases n rule: upto16) (simp_all add: bit_simps)
  qed
qed

section \<open>Encoding\<close>

lemma length_jm_encode:
  "length (jm_encode c) = (if c = 0 then 2 else if c < 0x80 then 1 else if c < 0x800 then 2 else 3)"
  by (simp add: jm_encode_def)

lemma length_jm_encode_bounds [simp]: "0 < length (jm_encode c)" "length (jm_encode c) \<le> 3"
  by (simp_all add: length_jm_encode)

lemma length_jm_fromString: "length (jm_fromString cs) = jm_encodedLength cs"
  by (induction cs) (auto simp: length_jm_encode)

lemma jm_encode_not_NUL: "0 \<notin> set (jm_encode c)"
proof -
  have nz: "(ucast (m OR x) :: byte) \<noteq> 0" if "bit m 7" for m x :: u16
  proof
    assume "(ucast (m OR x) :: byte) = 0"
    then have "\<not> bit (ucast (m OR x) :: byte) 7" by simp
    with that show False by (simp add: bit_simps)
  qed
  have one: "(ucast c :: byte) \<noteq> 0" if "c < 0x80" "c \<noteq> 0"
  proof
    assume "(ucast c :: byte) = 0"
    with one_byte_form(2)[OF that(1)] that(2) show False by simp
  qed
  show ?thesis
    using one by (auto simp: jm_encode_def dest: nz[THEN notE, rotated] simp: bit_simps)
qed

section \<open>Decoding what was encoded\<close>

lemma fetch_prefix [simp]:
  "fetch (pre @ x # suf) (length pre) = Inr x"
  "fetch (pre @ x # y # suf) (Suc (length pre)) = Inr y"
  "fetch (pre @ x # y # z # suf) (Suc (Suc (length pre))) = Inr z"
  by (simp_all add: fetch_def nth_append)

lemma decodeChar_encode:
  "decodeJavaModifiedUtf8Char (pre @ jm_encode c @ suf) (length pre) =
     Inr (c, length pre + length (jm_encode c))"
proof -
  consider "c = 0" | "c \<noteq> 0" "c < 0x80" | "\<not> c < 0x80" "c < 0x800" | "c \<noteq> 0" "\<not> c < 0x80" "\<not> c < 0x800"
    by blast
  then show ?thesis
  proof cases
    case 1
    then show ?thesis
      by (simp add: decodeJavaModifiedUtf8Char_def jm_encode_def Let_def)
  next
    case 2
    have "drop_bit 5 (ucast c :: byte) \<noteq> k" if "bit k 2" for k :: byte
    proof
      assume "drop_bit 5 (ucast c :: byte) = k"
      with that have "bit (drop_bit 5 (ucast c :: byte)) 2" by simp
      with one_byte_form(1)[OF 2(2)] show False by (simp add: bit_simps)
    qed
    then have "drop_bit 5 (ucast c :: byte) \<noteq> 6" "drop_bit 5 (ucast c :: byte) \<noteq> 7"
      by (simp_all add: bit_simps)
    with 2 one_byte_form(2)[OF 2(2)] show ?thesis
      by (simp add: decodeJavaModifiedUtf8Char_def jm_encode_def Let_def)
  next
    case 3
    moreover from 3 have "c \<noteq> 0" by auto
    ultimately show ?thesis
      using two_byte_form[OF 3(2)]
      by (simp add: decodeJavaModifiedUtf8Char_def jm_encode_def Let_def)
  next
    case 4
    then show ?thesis
      using three_byte_form[of c]
      by (simp add: decodeJavaModifiedUtf8Char_def jm_encode_def Let_def eval_nat_numeral)
  qed
qed

lemma jm_decode_fromString_at:
  "jm_decode (pre @ jm_fromString cs @ suf) (length pre + jm_encodedLength cs) (length pre) = Inr cs"
proof (induction cs arbitrary: pre)
  case Nil
  show ?case by (simp add: jm_decode.simps)
next
  case (Cons c cs)
  have "jm_decode (pre @ jm_encode c @ jm_fromString cs @ suf)
          (length pre + length (jm_encode c) + jm_encodedLength cs)
          (length pre + length (jm_encode c)) = Inr cs"
    using Cons.IH[of "pre @ jm_encode c"] by simp
  then show ?case
    using decodeChar_encode[of pre c "jm_fromString cs @ suf"]
    by (subst jm_decode.simps) (simp add: length_jm_encode add.assoc)
qed

text \<open>
  The decoder never reads more than two bytes beyond the length it was given, so it
  cannot fault when two more bytes are mapped.
\<close>

lemma decodeChar_no_fault:
  "i + 2 < length mem \<Longrightarrow> \<exists>c j. decodeJavaModifiedUtf8Char mem i = Inr (c, j)"
  by (auto simp: decodeJavaModifiedUtf8Char_def fetch_def Let_def)

lemma jm_decode_no_fault:
  "len + 2 \<le> length mem \<Longrightarrow> \<exists>cs. jm_decode mem len i = Inr cs"
proof (induction mem len i rule: jm_decode.induct)
  case (1 mem len i)
  show ?case
  proof (cases "i < len")
    case True
    with 1 obtain c j where cj: "decodeJavaModifiedUtf8Char mem i = Inr (c, j)"
      using decodeChar_no_fault[of i mem] by auto
    with 1 True obtain cs where "jm_decode mem len j = Inr cs" by blast
    with True cj show ?thesis by (subst jm_decode.simps) simp
  qed (simp add: jm_decode.simps)
qed

section \<open>Properties\<close>

text \<open>
  Modified UTF-8 round trip: decoding the encoded form of any UTF-16 string returns
  the string, wherever the encoding stands in memory and whatever follows it, surrogates
  and NUL included.
\<close>

lemma jm_roundtrip:
  "jm_decode (pre @ jm_fromString cs @ suf) (length pre + length (jm_fromString cs)) (length pre) = Inr cs"
  using jm_decode_fromString_at[of pre cs suf] by (simp add: length_jm_fromString)

text \<open>
  The encoded form never contains a zero byte, and its length is the one
  \<open>encodedLength\<close> announces, between one and three bytes per code unit.
\<close>

lemma jm_encoding_shape:
  "0 \<notin> set (jm_fromString cs) \<and> length (jm_fromString cs) = jm_encodedLength cs \<and>
   length cs \<le> jm_encodedLength cs \<and> jm_encodedLength cs \<le> 3 * length cs"
proof (intro conjI)
  show "0 \<notin> set (jm_fromString cs)"
    by (induction cs) (simp_all add: jm_encode_not_NUL)
  show "length cs \<le> jm_encodedLength cs" "jm_encodedLength cs \<le> 3 * length cs"
    by (induction cs) auto
qed (rule length_jm_fromString)

end
