(* ===== verification/Data_Output.thy ===== *)
theory Data_Output
  imports Java_Modified_Utf8
begin

unbundle bit_operations_syntax

text \<open>
  The serialisation buffer \<open>DataOutput\<close> (\<open>include/geode/DataOutput.hpp\<close>,
  \<open>src/DataOutput.cpp\<close>): a growing allocation with a cursor, the global lock that
  guards big buffers, the primitive writers, the array length code, and the string
  writers at the instance for UTF-16 strings. A store outside the allocation is the
  value \<open>MemoryFault\<close>; the lemmas show that it never happens below the invariant.
\<close>

section \<open>State\<close>

text \<open>
  \<open>m_bytes\<close> is the whole allocation, \<open>m_buf\<close> the offset of the cursor in it.
  \<open>bigBufferLocks\<close> counts how often this object holds \<open>globalBigBufferMutex\<close>.
  \<open>fresh_byte\<close> is what the allocator leaves in new memory, \<open>can_alloc\<close> which
  requests it can serve: both belong to the environment and are never changed.
\<close>

record data_output =
  m_bytes :: "byte list"
  m_buf :: nat
  m_size :: nat
  m_haveBigBuffer :: bool
  bigBufferLocks :: nat
  fresh_byte :: byte
  can_alloc :: "nat \<Rightarrow> bool"

type_synonym writer = "data_output \<Rightarrow> gf_exn + data_output"

definition m_lowWaterMark :: nat where
  "m_lowWaterMark = 8192"

definition m_highWaterMark :: nat where
  "m_highWaterMark = 50 * 1024 * 1024"

section \<open>Capacity and raw stores\<close>

text \<open>Sizes and offsets are \<open>size_t\<close>: differences, products and sums are taken modulo \<open>2 ^ 64\<close>.\<close>

definition realloc :: "byte \<Rightarrow> byte list \<Rightarrow> nat \<Rightarrow> byte list" where
  "realloc junk bytes n = take n bytes @ replicate (n - length bytes) junk"

definition ensureCapacity :: "nat \<Rightarrow> writer" where
  "ensureCapacity sz out =
     (let offset = m_buf out in
      if (m_size out + 2 ^ 64 - offset) mod 2 ^ 64 < sz then
        let newSize = (m_size out * 2 + 8192 * (sz div 8192)) mod 2 ^ 64;
            out1 = (if m_highWaterMark \<le> newSize \<and> \<not> m_haveBigBuffer out
                    then out\<lparr>bigBufferLocks := bigBufferLocks out + 1, m_haveBigBuffer := True\<rparr>
                    else out)
        in if can_alloc out newSize
           then Inr (out1\<lparr>m_size := newSize,
                         m_bytes := realloc (fresh_byte out) (m_bytes out) newSize,
                         m_buf := offset\<rparr>)
           else Inl OutOfMemoryException
      else Inr out)"

definition writeNoCheck :: "byte \<Rightarrow> writer" where
  "writeNoCheck b out =
     (if m_buf out < length (m_bytes out)
      then Inr (out\<lparr>m_bytes := (m_bytes out)[m_buf out := b], m_buf := m_buf out + 1\<rparr>)
      else Inl MemoryFault)"

text \<open>\<open>memcpy\<close> to the cursor, followed by advancing it.\<close>

fun copy_in :: "byte list \<Rightarrow> writer" where
  "copy_in [] out = Inr out"
| "copy_in (b # bs) out = andThen (writeNoCheck b out) (copy_in bs)"

definition reset_output :: writer where
  "reset_output out =
     (if m_haveBigBuffer out then
        (if can_alloc out m_lowWaterMark
         then Inr (out\<lparr>m_bytes := replicate m_lowWaterMark (fresh_byte out),
                      m_size := m_lowWaterMark, m_haveBigBuffer := False,
                      bigBufferLocks := bigBufferLocks out - 1, m_buf := 0\<rparr>)
         else Inl OutOfMemoryException)
      else Inr (out\<lparr>m_buf := 0\<rparr>))"

definition advanceCursor_output :: "nat \<Rightarrow> writer" where
  "advanceCursor_output offset out =
     andThen (ensureCapacity offset out) (\<lambda>o1. Inr (o1\<lparr>m_buf := m_buf o1 + offset\<rparr>))"

definition rewindCursor_output :: "nat \<Rightarrow> writer" where
  "rewindCursor_output offset out =
     (if offset \<le> m_buf out then Inr (out\<lparr>m_buf := m_buf out - offset\<rparr>) else Inl MemoryFault)"

definition updateValueAtPos :: "nat \<Rightarrow> byte \<Rightarrow> writer" where
  "updateValueAtPos offset v out =
     (if offset < length (m_bytes out)
      then Inr (out\<lparr>m_bytes := (m_bytes out)[offset := v]\<rparr>)
      else Inl MemoryFault)"

definition getBufferLength :: "data_output \<Rightarrow> nat" where
  "getBufferLength out = m_buf out"

text \<open>\<open>getBufferCopy\<close>: the bytes written so far.\<close>

definition getBufferCopy :: "data_output \<Rightarrow> byte list" where
  "getBufferCopy out = take (getBufferLength out) (m_bytes out)"

section \<open>The thread-local pool of buffers\<close>

text \<open>\<open>TSSDataOutput\<close>: a stack of allocations, each with its recorded size.\<close>

type_synonym buffer_pool = "(byte list \<times> nat) list"

definition getBuffer :: "byte \<Rightarrow> (nat \<Rightarrow> bool) \<Rightarrow> buffer_pool \<Rightarrow> gf_exn + ((byte list \<times> nat) \<times> buffer_pool)" where
  "getBuffer junk alloc pool =
     (case pool of
        d # ds \<Rightarrow> Inr (d, ds)
      | [] \<Rightarrow> (if alloc 8192 then Inr ((replicate 8192 junk, 8192), [])
               else Inl OutOfMemoryException))"

definition poolBuffer :: "byte list \<Rightarrow> nat \<Rightarrow> buffer_pool \<Rightarrow> buffer_pool" where
  "poolBuffer buf sz pool = (buf, sz) # pool"

definition new_DataOutput :: "byte \<Rightarrow> (nat \<Rightarrow> bool) \<Rightarrow> buffer_pool \<Rightarrow> gf_exn + (data_output \<times> buffer_pool)" where
  "new_DataOutput junk alloc pool =
     andThen (getBuffer junk alloc pool) (\<lambda>((bytes, sz), pool').
       Inr (\<lparr>m_bytes = bytes, m_buf = 0, m_size = sz, m_haveBigBuffer = False,
             bigBufferLocks = 0, fresh_byte = junk, can_alloc = alloc\<rparr>, pool'))"

definition delete_DataOutput :: "data_output \<Rightarrow> buffer_pool \<Rightarrow> gf_exn + buffer_pool" where
  "delete_DataOutput out pool =
     andThen (reset_output out) (\<lambda>o1. Inr (poolBuffer (m_bytes o1) (m_size o1) pool))"

section \<open>Primitive writers\<close>

definition write_byte :: "byte \<Rightarrow> writer" where
  "write_byte b out = andThen (ensureCapacity 1 out) (writeNoCheck b)"

definition writeBoolean :: "bool \<Rightarrow> writer" where
  "writeBoolean v = write_byte (if v then 1 else 0)"

definition writeInt16 :: "u16 \<Rightarrow> writer" where
  "writeInt16 v out =
     andThen (ensureCapacity 2 out) (copy_in [ucast (drop_bit 8 v), ucast v])"

definition writeInt32 :: "u32 \<Rightarrow> writer" where
  "writeInt32 v out =
     andThen (ensureCapacity 4 out)
       (copy_in [ucast (drop_bit 24 v), ucast (drop_bit 16 v), ucast (drop_bit 8 v), ucast v])"

definition writeInt64 :: "u64 \<Rightarrow> writer" where
  "writeInt64 v out =
     andThen (ensureCapacity 8 out)
       (copy_in [ucast (drop_bit 56 v), ucast (drop_bit 48 v), ucast (drop_bit 40 v),
                 ucast (drop_bit 32 v), ucast (drop_bit 24 v), ucast (drop_bit 16 v),
                 ucast (drop_bit 8 v), ucast v])"

text \<open>A \<open>float\<close> or \<open>double\<close> is its bit pattern, which the union reads out.\<close>

definition writeFloat :: "u32 \<Rightarrow> writer" where
  "writeFloat pattern = writeInt32 pattern"

definition writeDouble :: "u64 \<Rightarrow> writer" where
  "writeDouble pattern = writeInt64 pattern"

definition writeArrayLen :: "u32 \<Rightarrow> writer" where
  "writeArrayLen len out =
     (if sint len = -1 then write_byte 0xFF out
      else if sint len \<le> 252 then write_byte (ucast len) out
      else if sint len \<le> 0xFFFF then andThen (write_byte 0xFE out) (writeInt16 (ucast len))
      else andThen (write_byte 0xFD out) (writeInt32 len))"

text \<open>
  The bytes argument is \<open>None\<close> for a null pointer; otherwise it is the memory the
  pointer leads to, of which \<open>len\<close> bytes are copied.
\<close>

definition writeBytes :: "byte list option \<Rightarrow> u32 \<Rightarrow> writer" where
  "writeBytes bytes len out =
     (if 0 \<le> sint len then
        andThen (ensureCapacity (nat (sint (len + 5) mod 2 ^ 64)) out) (\<lambda>o1.
        andThen (writeArrayLen (if bytes = None then 0 else len) o1) (\<lambda>o2.
          (case bytes of
             None \<Rightarrow> Inr o2
           | Some bs \<Rightarrow>
               (if 0 < sint len then
                  (if nat (sint len) \<le> length bs then copy_in (take (nat (sint len)) bs) o2
                   else Inl MemoryFault)
                else Inr o2))))
      else write_byte 0xFF out)"

definition writeBytesOnly :: "byte list \<Rightarrow> nat \<Rightarrow> writer" where
  "writeBytesOnly bytes len out =
     andThen (ensureCapacity len out) (\<lambda>o1.
       if len \<le> length bytes then copy_in (take len bytes) o1 else Inl MemoryFault)"

section \<open>String writers, for UTF-16 strings\<close>

fun write_ascii_chars :: "u16 list \<Rightarrow> writer" where
  "write_ascii_chars [] out = Inr out"
| "write_ascii_chars (c # cs) out =
     andThen (write_byte (ucast (c AND 0x7F)) out) (write_ascii_chars cs)"

definition writeAscii :: "u16 list \<Rightarrow> writer" where
  "writeAscii value out =
     (let len = min (length value) 0xFFFF in
      andThen (writeInt16 (of_nat len) out) (write_ascii_chars (take len value)))"

definition writeAsciiHuge :: "u16 list \<Rightarrow> writer" where
  "writeAsciiHuge value out =
     (let len = min (length value) 0xFFFFFFFF in
      andThen (writeInt32 (of_nat len) out) (write_ascii_chars (take len value)))"

definition encodeJavaModifiedUtf8 :: "u16 \<Rightarrow> writer" where
  "encodeJavaModifiedUtf8 c =
     (if c = 0 then copy_in [0xC0, 0x80]
      else if c < 0x80 then copy_in [ucast c]
      else if c < 0x800 then
        copy_in [ucast (0xC0 OR drop_bit 6 c), ucast (0x80 OR (c AND 0x3F))]
      else
        copy_in [ucast (0xE0 OR drop_bit 12 c), ucast (0x80 OR (drop_bit 6 c AND 0x3F)),
                 ucast (0x80 OR (c AND 0x3F))])"

text \<open>
  The encoding loop runs until the cursor reaches \<open>end\<close>. Running out of characters
  first would read past the string.
\<close>

fun encode_until :: "nat \<Rightarrow> u16 list \<Rightarrow> writer" where
  "encode_until end [] out = (if m_buf out < end then Inl MemoryFault else Inr out)"
| "encode_until end (c # cs) out =
     (if m_buf out < end
      then andThen (encodeJavaModifiedUtf8 c out) (encode_until end cs)
      else Inr out)"

definition writeJavaModifiedUtf8 :: "u16 list \<Rightarrow> writer" where
  "writeJavaModifiedUtf8 data out =
     (if data = [] then writeInt16 0 out
      else
        let encodedLen = min (jm_encodedLength data) 0xFFFF in
        andThen (writeInt16 (of_nat encodedLen) out) (\<lambda>o1.
        andThen (ensureCapacity encodedLen o1) (\<lambda>o2.
        let end = m_buf o2 + encodedLen in
        andThen (encode_until end data o2) (\<lambda>o3.
          Inr (if end < m_buf o3 then o3\<lparr>m_buf := end\<rparr> else o3)))))"

fun store_utf16 :: "u16 list \<Rightarrow> writer" where
  "store_utf16 [] out = Inr out"
| "store_utf16 (c # cs) out =
     andThen (writeNoCheck (ucast (drop_bit 8 c)) out) (\<lambda>o1.
     andThen (writeNoCheck (ucast c) o1) (store_utf16 cs))"

definition writeUtf16 :: "u16 list \<Rightarrow> writer" where
  "writeUtf16 data out = andThen (ensureCapacity (length data * 2) out) (store_utf16 data)"

definition writeUtf16Huge :: "u16 list \<Rightarrow> writer" where
  "writeUtf16Huge data out =
     andThen (writeInt32 (of_nat (min (length data) 0xFFFFFFFF)) out) (writeUtf16 data)"

text \<open>The length loop of \<open>writeString\<close>, with its own classification of characters.\<close>

fun utfLen_loop :: "u16 list \<Rightarrow> nat \<Rightarrow> nat" where
  "utfLen_loop [] n = n"
| "utfLen_loop (c # cs) n =
     utfLen_loop cs
       (if c \<le> 0x7F \<and> 1 \<le> c then n else if 0x7FF < c then n + 2 else n + 1)"

definition writeString :: "u16 list option \<Rightarrow> writer" where
  "writeString value out =
     (case value of
        None \<Rightarrow> write_byte 69 out
      | Some str \<Rightarrow>
          let len = length str; utfLen = utfLen_loop str len in
          if len < utfLen then
            (if 0xFFFF < utfLen then andThen (write_byte 89 out) (writeUtf16Huge str)
             else andThen (write_byte 42 out) (writeJavaModifiedUtf8 str))
          else
            (if 0xFFFF < len then andThen (write_byte 88 out) (writeAsciiHuge str)
             else andThen (write_byte 87 out) (writeAscii str)))"

definition writeUTF :: "u16 list option \<Rightarrow> writer" where
  "writeUTF value out =
     (case value of None \<Rightarrow> Inl NullPointerException | Some str \<Rightarrow> writeJavaModifiedUtf8 str out)"

definition writeChars :: "u16 list \<Rightarrow> writer" where
  "writeChars value = writeUtf16 value"

section \<open>The invariant and the abstraction\<close>

text \<open>The allocation has the recorded size and holds the cursor, and the lock is held for a big buffer.\<close>

definition out_shape :: "data_output \<Rightarrow> bool" where
  "out_shape out \<longleftrightarrow>
     length (m_bytes out) = m_size out \<and> m_buf out \<le> m_size out \<and> 8192 \<le> m_size out \<and>
     bigBufferLocks out = (if m_haveBigBuffer out then 1 else 0) \<and>
     (m_haveBigBuffer out \<or> m_size out < m_highWaterMark)"

text \<open>
  The invariant below which no size computation wraps around: an allocation of at most two
  tebibytes, which is kept as long as at most \<open>max_output\<close> bytes are written.
\<close>

definition out_inv :: "data_output \<Rightarrow> bool" where
  "out_inv out \<longleftrightarrow> out_shape out \<and> m_size out \<le> 2 ^ 41"

definition max_output :: nat where
  "max_output = 2 ^ 38"

text \<open>There is room for \<open>n\<close> more bytes, and the allocator serves every request up to two tebibytes.\<close>

definition ample :: "nat \<Rightarrow> data_output \<Rightarrow> bool" where
  "ample n out \<longleftrightarrow> m_buf out + n \<le> max_output \<and> (\<forall>k \<le> 2 ^ 41. can_alloc out k)"

text \<open>
  The contract of every writer: it appends exactly \<open>bs\<close> to the bytes written so far and
  keeps the invariant, or it stops because the allocator refused a request.
\<close>

definition appends :: "writer \<Rightarrow> byte list \<Rightarrow> bool" where
  "appends f bs \<longleftrightarrow>
     (\<forall>out. out_inv out \<and> m_buf out + length bs \<le> max_output \<longrightarrow>
        (case f out of
           Inr o1 \<Rightarrow> out_inv o1 \<and> getBufferCopy o1 = getBufferCopy out @ bs \<and>
                     can_alloc o1 = can_alloc out \<and> m_size out \<le> m_size o1
         | Inl e \<Rightarrow> e = OutOfMemoryException \<and> (\<exists>n \<le> 2 ^ 41. \<not> can_alloc out n)))"

text \<open>The contract of the unchecked stores: they need the room to be there.\<close>

definition stores :: "writer \<Rightarrow> byte list \<Rightarrow> bool" where
  "stores f bs \<longleftrightarrow>
     (\<forall>out. out_inv out \<and> length bs \<le> m_size out - m_buf out \<longrightarrow>
        (\<exists>o1. f out = Inr o1 \<and> out_inv o1 \<and> getBufferCopy o1 = getBufferCopy out @ bs \<and>
              m_size o1 = m_size out \<and> can_alloc o1 = can_alloc out))"

text \<open>Every pooled allocation has its recorded size and is large enough to start with.\<close>

definition pool_inv :: "buffer_pool \<Rightarrow> bool" where
  "pool_inv pool \<longleftrightarrow> (\<forall>(bytes, sz)\<in>set pool. length bytes = sz \<and> 8192 \<le> sz \<and> sz < m_highWaterMark)"

section \<open>The wire format\<close>

text \<open>The bytes each writer is meant to produce.\<close>

definition arrayLen_bytes :: "u32 \<Rightarrow> byte list" where
  "arrayLen_bytes len =
     (if sint len = -1 then [0xFF]
      else if sint len \<le> 252 then [ucast len]
      else if sint len \<le> 0xFFFF then 0xFE # bytes16 (ucast len)
      else 0xFD # bytes32 len)"

definition byteArray_bytes :: "byte list \<Rightarrow> byte list" where
  "byteArray_bytes bs = arrayLen_bytes (of_nat (length bs)) @ bs"

definition ascii_bytes :: "u16 list \<Rightarrow> byte list" where
  "ascii_bytes cs = map (\<lambda>c. ucast (c AND 0x7F)) cs"

definition utf16_bytes :: "u16 list \<Rightarrow> byte list" where
  "utf16_bytes cs = concat (map bytes16 cs)"

definition utf_bytes :: "u16 list \<Rightarrow> byte list" where
  "utf_bytes cs = bytes16 (of_nat (jm_encodedLength cs)) @ jm_fromString cs"

definition string_bytes :: "u16 list option \<Rightarrow> byte list" where
  "string_bytes value =
     (case value of
        None \<Rightarrow> [69]
      | Some cs \<Rightarrow>
          if length cs < jm_encodedLength cs then
            (if 0xFFFF < jm_encodedLength cs
             then 89 # bytes32 (of_nat (length cs)) @ utf16_bytes cs
             else 42 # utf_bytes cs)
          else
            (if 0xFFFF < length cs
             then 88 # bytes32 (of_nat (length cs)) @ ascii_bytes cs
             else 87 # bytes16 (of_nat (length cs)) @ ascii_bytes cs))"

lemmas [wire_defs] = bytes16_def bytes32_def bytes64_def jm_encode_def arrayLen_bytes_def
  byteArray_bytes_def ascii_bytes_def utf16_bytes_def utf_bytes_def string_bytes_def

text \<open>A newly constructed output over an allocator that serves every request.\<close>

definition fresh_output :: data_output where
  "fresh_output = \<lparr>m_bytes = replicate 8192 0, m_buf = 0, m_size = 8192, m_haveBigBuffer = False,
     bigBufferLocks = 0, fresh_byte = 0, can_alloc = (\<lambda>_. True)\<rparr>"

lemma fresh_output_inv [simp]: "out_inv fresh_output" "ample n fresh_output \<longleftrightarrow> n \<le> 2 ^ 38"
  by (simp_all add: out_inv_def out_shape_def fresh_output_def m_highWaterMark_def ample_def max_output_def)

section \<open>Capacity and raw stores: correctness\<close>

lemma length_getBufferCopy: "out_inv out \<Longrightarrow> length (getBufferCopy out) = m_buf out"
  by (simp add: out_inv_def out_shape_def getBufferCopy_def getBufferLength_def)

lemma length_realloc: "length bytes \<le> n \<Longrightarrow> length (realloc junk bytes n) = n"
  by (simp add: realloc_def)

lemma take_realloc: "k \<le> length bytes \<Longrightarrow> length bytes \<le> n \<Longrightarrow> take k (realloc junk bytes n) = take k bytes"
  by (simp add: realloc_def)

lemma grown_size_suffices:
  assumes "offset \<le> sz" "8192 \<le> sz"
  shows "want \<le> sz * 2 + 8192 * (want div 8192) - (offset :: nat)"
proof -
  have "want = 8192 * (want div 8192) + want mod 8192"
    by simp
  moreover have "want mod 8192 < 8192"
    by simp
  ultimately show ?thesis
    using assms by linarith
qed

lemma size_diff:
  assumes "b \<le> a" "(a :: nat) < 2 ^ 63"
  shows "(a + 2 ^ 64 - b) mod 2 ^ 64 = a - b"
proof -
  have "(a + 2 ^ 64 - b) mod 2 ^ 64 = (a - b + 2 ^ 64) mod 2 ^ 64"
    using assms(1) by (simp only: add_diff_assoc2)
  also have "\<dots> = a - b" using assms(2) by (simp only: mod_add_self2) simp
  finally show ?thesis .
qed

text \<open>What a call does as long as no size wraps around.\<close>

lemma ensureCapacity_cases:
  assumes "ensureCapacity n out = Inr o1" "m_buf out \<le> m_size out" "m_size out < 2 ^ 63"
    and "m_size out * 2 + 8192 * (n div 8192) < 2 ^ 64"
  obtains "o1 = out" "n \<le> m_size out - m_buf out"
  | "m_size out - m_buf out < n"
    "m_size o1 = m_size out * 2 + 8192 * (n div 8192)" "m_buf o1 = m_buf out"
    "m_bytes o1 = realloc (fresh_byte out) (m_bytes out) (m_size o1)"
    "can_alloc o1 = can_alloc out"
    "bigBufferLocks out = (if m_haveBigBuffer out then 1 else 0) \<Longrightarrow>
     bigBufferLocks o1 = (if m_haveBigBuffer o1 then 1 else 0)"
    "m_haveBigBuffer o1 \<or> m_size o1 < m_highWaterMark"
proof -
  have diff: "(m_size out + 2 ^ 64 - m_buf out) mod 2 ^ 64 = m_size out - m_buf out"
    using assms(2,3) by (rule size_diff)
  show ?thesis
  proof (cases "m_size out - m_buf out < n")
    case True
    show ?thesis
      using assms(1,4) True unfolding ensureCapacity_def diff Let_def
      by (intro that(2)) (auto split: if_splits)
  next
    case False
    with assms(1) have "o1 = out" unfolding ensureCapacity_def diff Let_def by simp
    with False show ?thesis by (intro that(1)) simp_all
  qed
qed

lemma ensureCapacity_room:
  assumes shape: "out_shape out" and sz: "m_size out < 2 ^ 63" "m_size out * 2 + 8192 * (n div 8192) < 2 ^ 64"
    and res: "ensureCapacity n out = Inr o1"
  shows "out_shape o1" "getBufferCopy o1 = getBufferCopy out" "n \<le> m_size o1 - m_buf o1"
    "can_alloc o1 = can_alloc out" "m_size out \<le> m_size o1" "m_buf o1 = m_buf out"
    "m_size o1 \<le> max (m_size out) (2 * m_buf out + 3 * n)"
proof -
  have len: "length (m_bytes out) = m_size out" and le: "m_buf out \<le> m_size out" "8192 \<le> m_size out"
    and lk: "bigBufferLocks out = (if m_haveBigBuffer out then 1 else 0)"
    using shape by (simp_all add: out_shape_def)
  from res le(1) sz have "out_shape o1 \<and> getBufferCopy o1 = getBufferCopy out \<and> n \<le> m_size o1 - m_buf o1 \<and>
    can_alloc o1 = can_alloc out \<and> m_size out \<le> m_size o1 \<and> m_buf o1 = m_buf out \<and>
    m_size o1 \<le> max (m_size out) (2 * m_buf out + 3 * n)"
  proof (cases rule: ensureCapacity_cases)
    case 1
    with shape show ?thesis by simp
  next
    case 2
    from 2(2) have grow: "m_size out \<le> m_size o1" by simp
    have room: "n \<le> m_size o1 - m_buf o1"
      using grown_size_suffices[OF le, of n] 2(2,3) by simp
    have "8192 * (n div 8192) \<le> n" by simp
    with 2(1,2) have bound: "m_size o1 \<le> 2 * m_buf out + 3 * n" by linarith
    have "take (m_buf out) (m_bytes o1) = take (m_buf out) (m_bytes out)"
      unfolding 2(4) by (rule take_realloc) (use len le grow in simp_all)
    moreover have "length (m_bytes o1) = m_size o1"
      unfolding 2(4) by (rule length_realloc) (use len grow in simp)
    ultimately show ?thesis
      using 2(3,5,7) 2(6)[OF lk] le grow room bound
      by (simp add: out_shape_def getBufferCopy_def getBufferLength_def)
  qed
  then show "out_shape o1" "getBufferCopy o1 = getBufferCopy out" "n \<le> m_size o1 - m_buf o1"
    "can_alloc o1 = can_alloc out" "m_size out \<le> m_size o1" "m_buf o1 = m_buf out"
    "m_size o1 \<le> max (m_size out) (2 * m_buf out + 3 * n)"
    by blast+
qed

text \<open>Requests that keep the output below its limit never wrap around.\<close>

lemma request_fits:
  assumes "out_inv out" "m_buf out + n \<le> 2 ^ 39"
  shows "out_shape out" "m_size out < 2 ^ 63" "m_size out * 2 + 8192 * (n div 8192) < 2 ^ 64"
proof -
  have "8192 * (n div 8192) \<le> n" by simp
  with assms show "out_shape out" "m_size out < 2 ^ 63" "m_size out * 2 + 8192 * (n div 8192) < 2 ^ 64"
    by (auto simp: out_inv_def)
qed

lemma ensureCapacity_Inr:
  assumes inv: "out_inv out" and n: "m_buf out + n \<le> 2 ^ 39" and res: "ensureCapacity n out = Inr o1"
  shows "out_inv o1" "getBufferCopy o1 = getBufferCopy out" "n \<le> m_size o1 - m_buf o1"
    "can_alloc o1 = can_alloc out" "m_size out \<le> m_size o1" "m_buf o1 = m_buf out"
proof -
  note r = ensureCapacity_room[OF request_fits[OF inv n] res]
  have "max (m_size out) (2 * m_buf out + 3 * n) \<le> 2 ^ 41" using inv n by (simp add: out_inv_def)
  with r(7) have "m_size o1 \<le> 2 ^ 41" by (rule order_trans)
  with r(1) show "out_inv o1" by (simp add: out_inv_def)
qed (rule ensureCapacity_room[OF request_fits[OF inv n] res])+

lemma ensureCapacity_Inl:
  assumes inv: "out_inv out" and n: "m_buf out + n \<le> 2 ^ 39" and res: "ensureCapacity n out = Inl e"
  shows "e = OutOfMemoryException \<and> (\<exists>k \<le> 2 ^ 41. \<not> can_alloc out k)"
proof -
  let ?k = "m_size out * 2 + 8192 * (n div 8192)"
  note f = request_fits[OF inv n]
  have le: "m_buf out \<le> m_size out" using f(1) by (simp add: out_shape_def)
  then have diff: "(m_size out + 2 ^ 64 - m_buf out) mod 2 ^ 64 = m_size out - m_buf out"
    using f(2) by (rule size_diff)
  from res f(3) have e: "e = OutOfMemoryException" "m_size out - m_buf out < n" "\<not> can_alloc out ?k"
    unfolding ensureCapacity_def diff Let_def by (auto split: if_splits)
  have "8192 * (n div 8192) \<le> n" by simp
  with e(2) n have "?k \<le> 2 ^ 41" by simp
  with e show ?thesis by blast
qed

lemma storesI:
  assumes "\<And>out. out_inv out \<Longrightarrow> length bs \<le> m_size out - m_buf out \<Longrightarrow>
    \<exists>o1. f out = Inr o1 \<and> out_inv o1 \<and> getBufferCopy o1 = getBufferCopy out @ bs \<and>
         m_size o1 = m_size out \<and> can_alloc o1 = can_alloc out"
  shows "stores f bs"
  unfolding stores_def using assms by blast

lemma stores_Nil [intro, simp]: "stores Inr []"
  by (simp add: stores_def)

lemma stores_writeNoCheck [intro, simp]: "stores (writeNoCheck b) [b]"
proof (rule storesI)
  fix out assume a: "out_inv out" "length [b] \<le> m_size out - m_buf out"
  then show "\<exists>o1. writeNoCheck b out = Inr o1 \<and> out_inv o1 \<and> getBufferCopy o1 = getBufferCopy out @ [b] \<and>
         m_size o1 = m_size out \<and> can_alloc o1 = can_alloc out"
    by (auto simp: writeNoCheck_def out_inv_def out_shape_def getBufferCopy_def getBufferLength_def
        take_Suc_conv_app_nth)
qed

lemma stores_andThen:
  assumes "stores f bs" "stores g cs"
  shows "stores (\<lambda>out. andThen (f out) g) (bs @ cs)"
proof (rule storesI)
  fix out assume a: "out_inv out" "length (bs @ cs) \<le> m_size out - m_buf out"
  then obtain o1 where o1: "f out = Inr o1" "out_inv o1" "getBufferCopy o1 = getBufferCopy out @ bs"
      "m_size o1 = m_size out" "can_alloc o1 = can_alloc out"
    using assms(1) by (auto simp: stores_def)
  then have "m_buf o1 = m_buf out + length bs"
    using a(1) length_getBufferCopy[of o1] length_getBufferCopy[of out] by simp
  with a o1 have "length cs \<le> m_size o1 - m_buf o1"
    by simp
  with o1 assms(2) show "\<exists>o2. andThen (f out) g = Inr o2 \<and> out_inv o2 \<and>
      getBufferCopy o2 = getBufferCopy out @ bs @ cs \<and> m_size o2 = m_size out \<and> can_alloc o2 = can_alloc out"
    by (auto simp: stores_def)
qed

lemma copy_in_eta: "copy_in [] = Inr" "copy_in [b] = writeNoCheck b"
proof -
  show nil: "copy_in [] = Inr" by (rule ext) simp
  show "copy_in [b] = writeNoCheck b" by (rule ext) (simp add: nil)
qed

lemma stores_copy_in [intro, simp]: "stores (copy_in bs) bs"
proof (induction bs)
  case Nil
  show ?case by (simp add: copy_in_eta)
next
  case (Cons b bs)
  have "copy_in (b # bs) = (\<lambda>out. andThen (writeNoCheck b out) (copy_in bs))"
    by (rule ext) simp
  then show ?case
    using stores_andThen[OF stores_writeNoCheck[of b] Cons.IH] by simp
qed

section \<open>Writers append\<close>

lemma appendsI:
  assumes "\<And>out o1. out_inv out \<Longrightarrow> m_buf out + length bs \<le> max_output \<Longrightarrow> f out = Inr o1 \<Longrightarrow>
      out_inv o1 \<and> getBufferCopy o1 = getBufferCopy out @ bs \<and>
      can_alloc o1 = can_alloc out \<and> m_size out \<le> m_size o1"
    and "\<And>out e. out_inv out \<Longrightarrow> m_buf out + length bs \<le> max_output \<Longrightarrow> f out = Inl e \<Longrightarrow>
      e = OutOfMemoryException \<and> (\<exists>n \<le> 2 ^ 41. \<not> can_alloc out n)"
  shows "appends f bs"
  unfolding appends_def
proof (intro allI impI)
  fix out assume out: "out_inv out \<and> m_buf out + length bs \<le> max_output"
  show "case f out of
      Inr o1 \<Rightarrow> out_inv o1 \<and> getBufferCopy o1 = getBufferCopy out @ bs \<and>
                can_alloc o1 = can_alloc out \<and> m_size out \<le> m_size o1
    | Inl e \<Rightarrow> e = OutOfMemoryException \<and> (\<exists>n \<le> 2 ^ 41. \<not> can_alloc out n)"
  proof (cases "f out")
    case (Inl e)
    with assms(2)[OF conjunct1[OF out] conjunct2[OF out] Inl] show ?thesis by simp
  next
    case (Inr o1)
    with assms(1)[OF conjunct1[OF out] conjunct2[OF out] Inr] show ?thesis by simp
  qed
qed

lemma appendsD:
  assumes "appends f bs" "out_inv out" "m_buf out + length bs \<le> max_output"
  shows "f out = Inr o1 \<Longrightarrow> out_inv o1" "f out = Inr o1 \<Longrightarrow> getBufferCopy o1 = getBufferCopy out @ bs"
    "f out = Inr o1 \<Longrightarrow> can_alloc o1 = can_alloc out" "f out = Inr o1 \<Longrightarrow> m_size out \<le> m_size o1"
    "f out = Inl e \<Longrightarrow> e = OutOfMemoryException" "f out = Inl e \<Longrightarrow> \<exists>n \<le> 2 ^ 41. \<not> can_alloc out n"
proof -
  from assms have "case f out of
      Inr o1 \<Rightarrow> out_inv o1 \<and> getBufferCopy o1 = getBufferCopy out @ bs \<and>
                can_alloc o1 = can_alloc out \<and> m_size out \<le> m_size o1
    | Inl e \<Rightarrow> e = OutOfMemoryException \<and> (\<exists>n \<le> 2 ^ 41. \<not> can_alloc out n)"
    unfolding appends_def by blast
  then show "f out = Inr o1 \<Longrightarrow> out_inv o1" "f out = Inr o1 \<Longrightarrow> getBufferCopy o1 = getBufferCopy out @ bs"
    "f out = Inr o1 \<Longrightarrow> can_alloc o1 = can_alloc out" "f out = Inr o1 \<Longrightarrow> m_size out \<le> m_size o1"
    "f out = Inl e \<Longrightarrow> e = OutOfMemoryException" "f out = Inl e \<Longrightarrow> \<exists>n \<le> 2 ^ 41. \<not> can_alloc out n"
    by simp_all
qed

lemma appends_m_buf:
  assumes "appends f bs" "out_inv out" "m_buf out + length bs \<le> max_output" "f out = Inr o1"
  shows "m_buf o1 = m_buf out + length bs"
  using appendsD(1,2)[OF assms(1,2,3,4)] assms(2) length_getBufferCopy[of o1] length_getBufferCopy[of out]
  by simp

lemma appends_Nil [intro, simp]: "appends Inr []"
  by (simp add: appends_def)

lemma appends_andThen:
  assumes f: "appends f bs" and g: "appends g cs"
  shows "appends (\<lambda>out. andThen (f out) g) (bs @ cs)"
proof (rule appendsI)
  fix out o2
  assume out: "out_inv out" "m_buf out + length (bs @ cs) \<le> max_output" and res: "andThen (f out) g = Inr o2"
  then obtain o1 where o1: "f out = Inr o1" "g o1 = Inr o2"
    by (auto simp: andThen_Inr_conv)
  from out(2) have fit: "m_buf out + length bs \<le> max_output" by simp
  note s1 = appendsD(1-4)[OF f out(1) fit o1(1)]
  have fit1: "m_buf o1 + length cs \<le> max_output" using appends_m_buf[OF f out(1) fit o1(1)] out(2) by simp
  show "out_inv o2 \<and> getBufferCopy o2 = getBufferCopy out @ bs @ cs \<and>
      can_alloc o2 = can_alloc out \<and> m_size out \<le> m_size o2"
    using appendsD(1-4)[OF g s1(1) fit1 o1(2)] s1 by simp
next
  fix out e
  assume out: "out_inv out" "m_buf out + length (bs @ cs) \<le> max_output" and res: "andThen (f out) g = Inl e"
  from out(2) have fit: "m_buf out + length bs \<le> max_output" by simp
  show "e = OutOfMemoryException \<and> (\<exists>n \<le> 2 ^ 41. \<not> can_alloc out n)"
  proof (cases "f out")
    case (Inl e')
    with res appendsD(5,6)[OF f out(1) fit Inl] show ?thesis by simp
  next
    case (Inr o1)
    with res have "g o1 = Inl e" by simp
    moreover have "m_buf o1 + length cs \<le> max_output"
      using appends_m_buf[OF f out(1) fit Inr] out(2) by simp
    ultimately show ?thesis
      using appendsD(5,6)[OF g appendsD(1)[OF f out(1) fit Inr]] appendsD(3)[OF f out(1) fit Inr] by simp
  qed
qed

text \<open>
  Reserve room once, append something that fits in it, then store unchecked: the
  shape of \<open>writeBytes\<close>.
\<close>

lemma appends_reserved:
  assumes f: "appends f bs" and g: "stores g cs" and n: "length bs + length cs \<le> n" "n \<le> length bs + length cs + 8"
  shows "appends (\<lambda>out. andThen (ensureCapacity n out) (\<lambda>o1. andThen (f o1) g)) (bs @ cs)"
proof -
  have req: "m_buf out + n \<le> 2 ^ 39" "m_buf out + length bs \<le> max_output"
    if "m_buf out + length (bs @ cs) \<le> max_output" for out
    using that n(2) by (simp_all add: max_output_def)
  have step: "\<exists>o3. g o2 = Inr o3 \<and> out_inv o3 \<and> getBufferCopy o3 = getBufferCopy out @ bs @ cs \<and>
      can_alloc o3 = can_alloc out \<and> m_size out \<le> m_size o3"
    if out: "out_inv out" "m_buf out + length (bs @ cs) \<le> max_output" and e: "ensureCapacity n out = Inr o1"
      and o2: "f o1 = Inr o2" for out o1 o2
  proof -
    note c = ensureCapacity_Inr[OF out(1) req(1)[OF out(2)] e]
    have fit: "m_buf o1 + length bs \<le> max_output" using req(2)[OF out(2)] c(6) by simp
    note d = appendsD(1-4)[OF f c(1) fit o2] appends_m_buf[OF f c(1) fit o2]
    from c(3) d(4,5) n have "length cs \<le> m_size o2 - m_buf o2" by simp
    with g d(1) obtain o3 where "g o2 = Inr o3" "out_inv o3" "getBufferCopy o3 = getBufferCopy o2 @ cs"
      "m_size o3 = m_size o2" "can_alloc o3 = can_alloc o2"
      unfolding stores_def by blast
    with c d show ?thesis by simp
  qed
  show ?thesis
  proof (rule appendsI)
    fix out o3 assume out: "out_inv out" "m_buf out + length (bs @ cs) \<le> max_output"
      and res: "andThen (ensureCapacity n out) (\<lambda>o1. andThen (f o1) g) = Inr o3"
    then obtain o1 o2 where o: "ensureCapacity n out = Inr o1" "f o1 = Inr o2" "g o2 = Inr o3"
      by (auto simp: andThen_Inr_conv)
    with step[OF out o(1,2)] show "out_inv o3 \<and> getBufferCopy o3 = getBufferCopy out @ bs @ cs \<and>
      can_alloc o3 = can_alloc out \<and> m_size out \<le> m_size o3" by simp
  next
    fix out e assume out: "out_inv out" "m_buf out + length (bs @ cs) \<le> max_output"
      and res: "andThen (ensureCapacity n out) (\<lambda>o1. andThen (f o1) g) = Inl e"
    show "e = OutOfMemoryException \<and> (\<exists>n \<le> 2 ^ 41. \<not> can_alloc out n)"
    proof (cases "ensureCapacity n out")
      case (Inl e')
      with res ensureCapacity_Inl[OF out(1) req(1)[OF out(2)] Inl] show ?thesis by simp
    next
      case (Inr o1)
      note c = ensureCapacity_Inr[OF out(1) req(1)[OF out(2)] Inr]
      have fit: "m_buf o1 + length bs \<le> max_output" using req(2)[OF out(2)] c(6) by simp
      show ?thesis
      proof (cases "f o1")
        case (Inl e')
        with appendsD(5,6)[OF f c(1) fit Inl] c(4) res Inr show ?thesis by simp
      next
        case r: (Inr o2)
        with step[OF out Inr r] res Inr show ?thesis by auto
      qed
    qed
  qed
qed

lemma appends_ensureCapacity:
  assumes "stores g bs" "length bs \<le> n" "n \<le> length bs + 8"
  shows "appends (\<lambda>out. andThen (ensureCapacity n out) g) bs"
  using appends_reserved[OF appends_Nil assms(1), of n] assms(2,3) by simp

section \<open>What the writers append\<close>

lemma appends_copy:
  assumes "\<And>out. f out = andThen (ensureCapacity n out) (copy_in bs)" "length bs \<le> n" "n \<le> length bs + 8"
  shows "appends f bs"
  using appends_ensureCapacity[OF stores_copy_in assms(2,3)] assms(1) by (simp add: appends_def)

lemma appends_write_byte [intro]: "appends (write_byte b) [b]"
  by (rule appends_copy[where n = 1]) (simp_all add: write_byte_def copy_in_eta)

lemma appends_writeBoolean: "appends (writeBoolean v) [if v then 1 else 0]"
  unfolding writeBoolean_def by (rule appends_write_byte)

lemma appends_writeInt16: "appends (writeInt16 v) (bytes16 v)"
  by (rule appends_copy[where n = 2]) (simp_all add: writeInt16_def bytes16_def)

lemma appends_writeInt32: "appends (writeInt32 v) (bytes32 v)"
  by (rule appends_copy[where n = 4]) (simp_all add: writeInt32_def bytes32_def)

lemma appends_writeInt64: "appends (writeInt64 v) (bytes64 v)"
  by (rule appends_copy[where n = 8]) (simp_all add: writeInt64_def bytes64_def)

lemma appends_writeArrayLen: "appends (writeArrayLen len) (arrayLen_bytes len)"
proof -
  consider "sint len = -1" | "sint len \<noteq> -1" "sint len \<le> 252"
    | "252 < sint len" "sint len \<le> 0xFFFF" | "0xFFFF < sint len"
    by linarith
  then show ?thesis
  proof cases
    case 1
    then have "writeArrayLen len = write_byte 0xFF" by (simp add: writeArrayLen_def fun_eq_iff)
    with 1 show ?thesis by (simp add: arrayLen_bytes_def appends_write_byte)
  next
    case 2
    then have "writeArrayLen len = write_byte (ucast len)" by (simp add: writeArrayLen_def fun_eq_iff)
    with 2 show ?thesis by (simp add: arrayLen_bytes_def appends_write_byte)
  next
    case 3
    then have "writeArrayLen len = (\<lambda>out. andThen (write_byte 0xFE out) (writeInt16 (ucast len)))"
      by (simp add: writeArrayLen_def fun_eq_iff)
    with 3 show ?thesis
      using appends_andThen[OF appends_write_byte appends_writeInt16] by (simp add: arrayLen_bytes_def)
  next
    case 4
    then have "writeArrayLen len = (\<lambda>out. andThen (write_byte 0xFD out) (writeInt32 len))"
      by (simp add: writeArrayLen_def fun_eq_iff)
    with 4 show ?thesis
      using appends_andThen[OF appends_write_byte appends_writeInt32] by (simp add: arrayLen_bytes_def)
  qed
qed

lemma length_arrayLen_bytes: "length (arrayLen_bytes len) \<le> 5"
  by (simp add: arrayLen_bytes_def)

lemma appends_writeBytes:
  assumes "length bs < 2 ^ 31 - 5"
  shows "appends (writeBytes (Some bs) (of_nat (length bs))) (byteArray_bytes bs)"
proof -
  let ?n = "length bs"
  have len: "sint (of_nat ?n :: u32) = int ?n"
    using assms by (intro sint_of_nat_u32) simp
  have "sint ((of_nat ?n :: u32) + 5) = int (?n + 5)"
    using sint_of_nat_u32[of "?n + 5"] assms by simp
  then have size: "nat (sint ((of_nat ?n :: u32) + 5) mod 2 ^ 64) = ?n + 5"
    using assms by simp
  have "writeBytes (Some bs) (of_nat ?n) = (\<lambda>out. andThen (ensureCapacity (?n + 5) out) (\<lambda>o1.
      andThen (writeArrayLen (of_nat ?n) o1) (copy_in bs)))"
    unfolding writeBytes_def size len by (rule ext, cases "bs = []") (simp_all add: copy_in_eta)
  moreover have "length (arrayLen_bytes (of_nat ?n)) + length bs \<le> ?n + 5"
    using length_arrayLen_bytes[of "of_nat ?n"] by simp
  moreover have "?n + 5 \<le> length (arrayLen_bytes (of_nat ?n)) + length bs + 8"
    by simp
  ultimately show ?thesis
    using appends_reserved[OF appends_writeArrayLen stores_copy_in] by (simp add: byteArray_bytes_def)
qed

lemma appends_writeBytesOnly: "len \<le> length bs \<Longrightarrow> appends (writeBytesOnly bs len) (take len bs)"
  by (rule appends_copy[where n = len]) (auto simp: writeBytesOnly_def)

section \<open>What the string writers append\<close>

lemma appends_write_ascii_chars: "appends (write_ascii_chars cs) (ascii_bytes cs)"
proof (induction cs)
  case Nil
  have "write_ascii_chars [] = Inr" by (rule ext) simp
  then show ?case by (simp add: ascii_bytes_def)
next
  case (Cons c cs)
  have "write_ascii_chars (c # cs) =
      (\<lambda>out. andThen (write_byte (ucast (c AND 0x7F)) out) (write_ascii_chars cs))"
    by (rule ext) simp
  with appends_andThen[OF appends_write_byte Cons.IH] show ?case
    by (simp add: ascii_bytes_def)
qed

lemma appends_writeAscii:
  assumes "length cs \<le> 0xFFFF"
  shows "appends (writeAscii cs) (bytes16 (of_nat (length cs)) @ ascii_bytes cs)"
  using appends_andThen[OF appends_writeInt16 appends_write_ascii_chars] assms
  by (simp add: writeAscii_def[abs_def] min_def)

lemma appends_writeAsciiHuge:
  assumes "length cs \<le> 0xFFFFFFFF"
  shows "appends (writeAsciiHuge cs) (bytes32 (of_nat (length cs)) @ ascii_bytes cs)"
  using appends_andThen[OF appends_writeInt32 appends_write_ascii_chars] assms
  by (simp add: writeAsciiHuge_def[abs_def] min_def)

lemma store_utf16_eta: "store_utf16 [] = Inr"
  "store_utf16 (c # cs) = (\<lambda>out. andThen (copy_in (bytes16 c) out) (store_utf16 cs))"
  by (rule ext, simp add: bytes16_def copy_in_eta andThen_assoc)+

lemma stores_store_utf16: "stores (store_utf16 cs) (utf16_bytes cs)"
proof (induction cs)
  case (Cons c cs)
  with stores_andThen[OF stores_copy_in Cons.IH] show ?case
    by (simp add: store_utf16_eta utf16_bytes_def)
qed (simp add: store_utf16_eta utf16_bytes_def)

lemma length_utf16_bytes: "length (utf16_bytes cs) = 2 * length cs"
  by (induction cs) (simp_all add: utf16_bytes_def)

lemma appends_writeUtf16: "appends (writeUtf16 cs) (utf16_bytes cs)"
  using appends_ensureCapacity[OF stores_store_utf16, of cs "length cs * 2"]
  by (simp add: writeUtf16_def[abs_def] length_utf16_bytes)

lemma appends_writeUtf16Huge:
  assumes "length cs \<le> 0xFFFFFFFF"
  shows "appends (writeUtf16Huge cs) (bytes32 (of_nat (length cs)) @ utf16_bytes cs)"
  using appends_andThen[OF appends_writeInt32 appends_writeUtf16] assms
  by (simp add: writeUtf16Huge_def[abs_def] min_def)

lemma encodeJavaModifiedUtf8_copy: "encodeJavaModifiedUtf8 c = copy_in (jm_encode c)"
  by (simp add: encodeJavaModifiedUtf8_def jm_encode_def)

lemma jm_encodedLength_0_iff: "jm_encodedLength cs = 0 \<longleftrightarrow> cs = []"
  by (cases cs) auto

lemma jm_encodedLength_Cons: "jm_encodedLength (c # cs) = length (jm_encode c) + jm_encodedLength cs"
  by (simp add: length_jm_encode)

lemma encode_until_stores:
  assumes "out_inv out" "jm_encodedLength cs \<le> m_size out - m_buf out"
  shows "\<exists>o1. encode_until (m_buf out + jm_encodedLength cs) cs out = Inr o1 \<and> out_inv o1 \<and>
    getBufferCopy o1 = getBufferCopy out @ jm_fromString cs \<and>
    m_size o1 = m_size out \<and> can_alloc o1 = can_alloc out"
  using assms
proof (induction cs arbitrary: out)
  case (Cons c cs)
  let ?b = "jm_encode c"
  have "length ?b \<le> m_size out - m_buf out"
    using Cons.prems(2) by (simp only: jm_encodedLength_Cons)
  with stores_copy_in[of ?b] Cons.prems(1) obtain o1 where o1: "copy_in ?b out = Inr o1" "out_inv o1"
    "getBufferCopy o1 = getBufferCopy out @ ?b" "m_size o1 = m_size out" "can_alloc o1 = can_alloc out"
    unfolding stores_def by blast
  then have buf: "m_buf o1 = m_buf out + length ?b"
    using length_getBufferCopy[OF o1(2)] length_getBufferCopy[OF Cons.prems(1)] by simp
  with Cons.prems(2) o1(4) have "jm_encodedLength cs \<le> m_size o1 - m_buf o1"
    by (simp only: jm_encodedLength_Cons)
  from Cons.IH[OF o1(2) this] o1 buf
  have "\<exists>o2. encode_until (m_buf out + (length ?b + jm_encodedLength cs)) cs o1 = Inr o2 \<and> out_inv o2 \<and>
    getBufferCopy o2 = getBufferCopy out @ jm_fromString (c # cs) \<and>
    m_size o2 = m_size out \<and> can_alloc o2 = can_alloc out"
    by (simp add: add.assoc)
  with o1(1) show ?case
    unfolding jm_encodedLength_Cons
    using length_jm_encode_bounds(1)[of c] by (simp add: encodeJavaModifiedUtf8_copy)
qed simp

lemma appends_writeJavaModifiedUtf8:
  assumes "jm_encodedLength cs \<le> 0xFFFF"
  shows "appends (writeJavaModifiedUtf8 cs) (utf_bytes cs)"
proof (cases "cs = []")
  case True
  then have "writeJavaModifiedUtf8 cs = writeInt16 0" by (simp add: writeJavaModifiedUtf8_def fun_eq_iff)
  with True appends_writeInt16[of 0] show ?thesis by (simp add: utf_bytes_def)
next
  case False
  let ?n = "jm_encodedLength cs"
  define body where "body = (\<lambda>o2. andThen (encode_until (m_buf o2 + ?n) cs o2) (\<lambda>o3.
    Inr (if m_buf o2 + ?n < m_buf o3 then o3\<lparr>m_buf := m_buf o2 + ?n\<rparr> else o3)))"
  have "stores body (jm_fromString cs)"
  proof (rule storesI)
    fix out assume out: "out_inv out" and room: "length (jm_fromString cs) \<le> m_size out - m_buf out"
    from encode_until_stores[OF out room[unfolded length_jm_fromString]]
    obtain o1 where o1: "encode_until (m_buf out + ?n) cs out = Inr o1" "out_inv o1"
      "getBufferCopy o1 = getBufferCopy out @ jm_fromString cs" "m_size o1 = m_size out"
      "can_alloc o1 = can_alloc out"
      by blast
    then have "m_buf o1 = m_buf out + ?n"
      using length_getBufferCopy[OF o1(2)] length_getBufferCopy[OF out] by (simp add: length_jm_fromString)
    with o1 show "\<exists>o1. body out = Inr o1 \<and> out_inv o1 \<and> getBufferCopy o1 = getBufferCopy out @ jm_fromString cs \<and>
         m_size o1 = m_size out \<and> can_alloc o1 = can_alloc out"
      by (simp add: body_def)
  qed
  then have "appends (\<lambda>out. andThen (ensureCapacity ?n out) body) (jm_fromString cs)"
    by (rule appends_ensureCapacity) (simp_all add: length_jm_fromString)
  from appends_andThen[OF appends_writeInt16 this, of "of_nat ?n"] False assms show ?thesis
    by (simp add: writeJavaModifiedUtf8_def[abs_def] body_def Let_def min_def utf_bytes_def)
qed

lemma utfLen_loop_eq: "utfLen_loop cs n + length cs = n + jm_encodedLength cs"
proof (induction cs arbitrary: n)
  case (Cons c cs)
  have "c \<le> 0x7F \<longleftrightarrow> c < 0x80" "0x7FF < c \<longleftrightarrow> \<not> c < 0x800" "1 \<le> c \<longleftrightarrow> c \<noteq> 0" for c :: u16
    by (simp_all add: word_le_nat_alt word_less_nat_alt unat_eq_0 Suc_le_eq flip: unat_gt_0) linarith+
  with Cons.IH show ?case
    by (auto simp: word_less_nat_alt)
qed simp

lemma utfLen_loop_length: "utfLen_loop cs (length cs) = jm_encodedLength cs"
  using utfLen_loop_eq[of cs "length cs"] by simp

lemma length_le_encodedLength: "length cs \<le> jm_encodedLength cs"
  by (induction cs) auto

lemma appends_writeString:
  assumes "\<And>cs. value = Some cs \<Longrightarrow> length cs \<le> 0xFFFFFFFF"
  shows "appends (writeString value) (string_bytes value)"
proof (cases "value")
  case None
  then have "writeString value = write_byte 69" by (simp add: writeString_def fun_eq_iff)
  with None appends_write_byte show ?thesis by (simp add: string_bytes_def)
next
  case (Some cs)
  note len = assms[OF Some]
  note tag = appends_andThen[OF appends_write_byte]
  show ?thesis
    using tag[OF appends_writeUtf16Huge[OF len]] tag[OF appends_writeAsciiHuge[OF len]]
      tag[OF appends_writeJavaModifiedUtf8] tag[OF appends_writeAscii]
    by (simp add: Some writeString_def[abs_def] string_bytes_def utfLen_loop_length Let_def)
qed

section \<open>Properties\<close>



text \<open>
  The life of an output against the thread's buffer pool: construction gives an empty
  output that holds no lock, and destruction releases the lock of a big buffer and returns
  an allocation of the recorded size to the pool, or fails only for lack of memory.
\<close>

lemma DataOutput_lifecycle:
  assumes pool: "pool_inv pool" and out: "out_inv out"
  shows "(case new_DataOutput junk alloc pool of
        Inr (o1, pool1) \<Rightarrow> out_inv o1 \<and> getBufferCopy o1 = [] \<and> bigBufferLocks o1 = 0 \<and> pool_inv pool1
      | Inl e \<Rightarrow> e = OutOfMemoryException \<and> \<not> alloc 8192)
    \<and> (case reset_output out of
        Inr o1 \<Rightarrow> out_inv o1 \<and> getBufferCopy o1 = [] \<and> bigBufferLocks o1 = 0
      | Inl e \<Rightarrow> e = OutOfMemoryException \<and> \<not> can_alloc out 8192)
    \<and> (case delete_DataOutput out pool of
        Inr pool1 \<Rightarrow> pool_inv pool1 \<and> length pool1 = length pool + 1
      | Inl e \<Rightarrow> e = OutOfMemoryException \<and> \<not> can_alloc out 8192)"
proof (intro conjI)
  show "case new_DataOutput junk alloc pool of
        Inr (o1, pool1) \<Rightarrow> out_inv o1 \<and> getBufferCopy o1 = [] \<and> bigBufferLocks o1 = 0 \<and> pool_inv pool1
      | Inl e \<Rightarrow> e = OutOfMemoryException \<and> \<not> alloc 8192"
    using pool
    by (cases pool) (auto simp: new_DataOutput_def getBuffer_def pool_inv_def out_inv_def out_shape_def m_highWaterMark_def
        getBufferCopy_def getBufferLength_def)
  have reset: "case reset_output out of
        Inr o1 \<Rightarrow> out_inv o1 \<and> getBufferCopy o1 = [] \<and> bigBufferLocks o1 = 0
      | Inl e \<Rightarrow> e = OutOfMemoryException \<and> \<not> can_alloc out 8192"
    using out by (auto simp: reset_output_def out_inv_def out_shape_def m_highWaterMark_def getBufferCopy_def getBufferLength_def m_lowWaterMark_def)
  then show "case reset_output out of
        Inr o1 \<Rightarrow> out_inv o1 \<and> getBufferCopy o1 = [] \<and> bigBufferLocks o1 = 0
      | Inl e \<Rightarrow> e = OutOfMemoryException \<and> \<not> can_alloc out 8192" .
  show "case delete_DataOutput out pool of
        Inr pool1 \<Rightarrow> pool_inv pool1 \<and> length pool1 = length pool + 1
      | Inl e \<Rightarrow> e = OutOfMemoryException \<and> \<not> can_alloc out 8192"
    using reset pool
    by (cases "reset_output out") (auto simp: delete_DataOutput_def poolBuffer_def pool_inv_def out_inv_def out_shape_def m_highWaterMark_def)
qed

text \<open>
  The length loop that \<open>writeString\<close> carries itself computes the same length as
  \<open>JavaModifiedUtf8::encodedLength\<close>, and that is the number of bytes the encoder
  produces: the tag \<open>writeString\<close> picks always agrees with the length prefix written
  behind it.
\<close>

lemma writeString_length_agrees:
  "utfLen_loop cs (length cs) = jm_encodedLength cs \<and> jm_encodedLength cs = length (jm_fromString cs)"
  by (simp add: utfLen_loop_length length_jm_fromString)

end
