(* ===== verification/Data_Input.thy ===== *)
theory Data_Input
  imports Data_Output
begin

unbundle bit_operations_syntax

text \<open>
  The deserialisation cursor \<open>DataInput\<close> (\<open>include/geode/DataInput.hpp\<close>,
  \<open>src/DataInput.cpp\<close>): the bound check with its unsigned arithmetic, the primitive
  readers, the array length and variable length codes, arrays, and the string readers at
  the instance for UTF-16 strings. A load outside the memory behind \<open>bufferHead_\<close> is
  the value \<open>MemoryFault\<close>. The contract \<open>consumes\<close> says what a reader does on
  the bytes of its format, the contract \<open>safe_reader\<close> what it does on any bytes.
\<close>

section \<open>State\<close>

text \<open>
  \<open>bufferHead\<close> is the memory from \<open>bufferHead_\<close> on, \<open>buffer_pos\<close> the offset
  \<open>buffer_ - bufferHead_\<close>, which \<open>rewindCursor\<close> may make negative.
\<close>

record data_input =
  bufferHead :: "byte list"
  buffer_pos :: int
  bufferLength :: nat

type_synonym 'a reader = "data_input \<Rightarrow> gf_exn + ('a \<times> data_input)"

definition new_DataInput :: "byte list \<Rightarrow> nat \<Rightarrow> data_input" where
  "new_DataInput buffer len = \<lparr>bufferHead = buffer, buffer_pos = 0, bufferLength = len\<rparr>"

section \<open>Cursor\<close>

definition getBytesRead :: "data_input \<Rightarrow> int" where
  "getBytesRead inp = buffer_pos inp mod 2 ^ 64"

definition getBytesRemaining :: "data_input \<Rightarrow> int" where
  "getBytesRemaining inp = size_t_diff (int (bufferLength inp)) (getBytesRead inp)"

definition advanceCursor :: "nat \<Rightarrow> data_input \<Rightarrow> data_input" where
  "advanceCursor offset inp = inp\<lparr>buffer_pos := buffer_pos inp + int offset\<rparr>"

definition rewindCursor :: "nat \<Rightarrow> data_input \<Rightarrow> data_input" where
  "rewindCursor offset inp = inp\<lparr>buffer_pos := buffer_pos inp - int offset\<rparr>"

definition reset_input :: "nat \<Rightarrow> data_input \<Rightarrow> data_input" where
  "reset_input offset inp = inp\<lparr>buffer_pos := int offset\<rparr>"

text \<open>\<open>setBuffer\<close> shortens the length by the bytes read and leaves \<open>bufferHead_\<close>.\<close>

definition setBuffer :: "data_input \<Rightarrow> data_input" where
  "setBuffer inp = inp\<lparr>bufferLength := nat (getBytesRemaining inp)\<rparr>"

section \<open>Bound check and raw loads\<close>

definition checkBufferSize :: "nat \<Rightarrow> data_input \<Rightarrow> gf_exn + data_input" where
  "checkBufferSize sz inp =
     (if size_t_diff (int (bufferLength inp)) (buffer_pos inp) < int sz
      then Inl OutOfRangeException else Inr inp)"

definition readNoCheck :: "byte reader" where
  "readNoCheck inp =
     (if 0 \<le> buffer_pos inp \<and> nat (buffer_pos inp) < length (bufferHead inp)
      then Inr (bufferHead inp ! nat (buffer_pos inp), inp\<lparr>buffer_pos := buffer_pos inp + 1\<rparr>)
      else Inl MemoryFault)"

text \<open>\<open>memcpy\<close> from the cursor, followed by advancing it.\<close>

fun copy_out :: "nat \<Rightarrow> byte list reader" where
  "copy_out 0 inp = Inr ([], inp)"
| "copy_out (Suc n) inp =
     andThen (readNoCheck inp) (\<lambda>(b, i1).
     andThen (copy_out n i1) (\<lambda>(bs, i2). Inr (b # bs, i2)))"

text \<open>A load of \<open>n\<close> bytes shifted into an accumulator, most significant first.\<close>

fun shift_loads :: "nat \<Rightarrow> 'a::len word \<Rightarrow> 'a word reader" where
  "shift_loads 0 acc inp = Inr (acc, inp)"
| "shift_loads (Suc n) acc inp =
     andThen (readNoCheck inp) (\<lambda>(b, i1). shift_loads n (shift_in acc b) i1)"

section \<open>Primitive readers\<close>

definition read_byte :: "byte reader" where
  "read_byte inp = andThen (checkBufferSize 1 inp) readNoCheck"

definition readBoolean :: "bool reader" where
  "readBoolean inp =
     andThen (checkBufferSize 1 inp) (\<lambda>i1.
     andThen (readNoCheck i1) (\<lambda>(b, i2). Inr (b = 1, i2)))"

definition readBytesOnly :: "nat \<Rightarrow> byte list reader" where
  "readBytesOnly len inp =
     (if 0 < len then andThen (checkBufferSize len inp) (copy_out len) else Inr ([], inp))"

definition readInt16NoCheck :: "u16 reader" where
  "readInt16NoCheck inp =
     andThen (readNoCheck inp) (\<lambda>(b, i1). shift_loads 1 (ucast b) i1)"

definition readInt16 :: "u16 reader" where
  "readInt16 inp = andThen (checkBufferSize 2 inp) readInt16NoCheck"

definition readInt32 :: "u32 reader" where
  "readInt32 inp =
     andThen (checkBufferSize 4 inp) (\<lambda>i.
     andThen (readNoCheck i) (\<lambda>(b, i1). shift_loads 3 (ucast b) i1))"

definition readInt64 :: "u64 reader" where
  "readInt64 inp =
     andThen (checkBufferSize 8 inp) (\<lambda>i.
     andThen (readNoCheck i) (\<lambda>(b, i1). shift_loads 7 (ucast b) i1))"

definition readArrayLength :: "u32 reader" where
  "readArrayLength inp =
     andThen (read_byte inp) (\<lambda>(code, i1).
       if code = 0xFF then Inr (-1, i1)
       else if 252 < code then
         (if code = 0xFE then andThen (readInt16 i1) (\<lambda>(v, i2). Inr (ucast v, i2))
          else if code = 0xFD then readInt32 i1
          else Inl IllegalStateException)
       else Inr (ucast code, i1))"

definition readBytes :: "(byte list option \<times> u32) reader" where
  "readBytes inp =
     andThen (readArrayLength inp) (\<lambda>(len, i1).
       if 0 < sint len then
         andThen (checkBufferSize (nat (sint len)) i1) (\<lambda>i2.
         andThen (copy_out (nat (sint len)) i2) (\<lambda>(bs, i3). Inr ((Some bs, len), i3)))
       else Inr ((None, len), i1))"

function readUnsignedVL_loop :: "nat \<Rightarrow> u64 \<Rightarrow> u64 reader" where
  "readUnsignedVL_loop shift result inp =
     (if shift < 64 then
        andThen (read_byte inp) (\<lambda>(b, i1).
          let result' = result OR push_bit shift (ucast (b AND 0x7F)) in
          if b AND 0x80 = 0 then Inr (result', i1)
          else readUnsignedVL_loop (shift + 7) result' i1)
      else Inl IllegalStateException)"
  by pat_completeness auto
termination by (relation "measure (\<lambda>(shift, _, _). 64 - shift)") auto

declare readUnsignedVL_loop.simps [simp del]

definition readUnsignedVL :: "u64 reader" where
  "readUnsignedVL = readUnsignedVL_loop 0 0"

definition readFloat :: "u32 reader" where
  "readFloat inp = andThen (checkBufferSize 4 inp) readInt32"

definition readDouble :: "u64 reader" where
  "readDouble inp = andThen (checkBufferSize 8 inp) readInt64"

definition readNativeBool :: "bool reader" where
  "readNativeBool inp = andThen (read_byte inp) (\<lambda>(_, i1). readBoolean i1)"

definition readNativeInt32 :: "u32 reader" where
  "readNativeInt32 inp = andThen (read_byte inp) (\<lambda>(_, i1). readInt32 i1)"

section \<open>Arrays\<close>

fun read_n :: "nat \<Rightarrow> 'a reader \<Rightarrow> 'a list reader" where
  "read_n 0 rd inp = Inr ([], inp)"
| "read_n (Suc n) rd inp =
     andThen (rd inp) (\<lambda>(x, i1). andThen (read_n n rd i1) (\<lambda>(xs, i2). Inr (x # xs, i2)))"

definition readArray :: "'a reader \<Rightarrow> 'a list reader" where
  "readArray rd inp =
     andThen (readArrayLength inp) (\<lambda>(len, i1).
       if 0 \<le> sint len then read_n (nat (sint len)) rd i1 else Inr ([], i1))"

text \<open>
  A negative length other than \<open>-1\<close> makes the array allocation throw, which the
  allocation macro turns into \<open>OutOfMemoryException\<close>.
\<close>

definition readArrayOfByteArrays :: "(byte list option \<times> u32) list option reader" where
  "readArrayOfByteArrays inp =
     andThen (readArrayLength inp) (\<lambda>(len, i1).
       if len = -1 then Inr (None, i1)
       else if sint len < 0 then Inl OutOfMemoryException
       else andThen (read_n (nat (sint len)) readBytes i1) (\<lambda>(xs, i2). Inr (Some xs, i2)))"

section \<open>String readers, for UTF-16 strings\<close>

fun ascii_loop :: "nat \<Rightarrow> u16 list reader" where
  "ascii_loop 0 inp = Inr ([], inp)"
| "ascii_loop (Suc n) inp =
     andThen (readNoCheck inp) (\<lambda>(b, i1).
     andThen (ascii_loop n i1) (\<lambda>(cs, i2). Inr (ucast (b AND 0x7F) # cs, i2)))"

definition readAscii_len :: "nat \<Rightarrow> u16 list reader" where
  "readAscii_len len inp = andThen (checkBufferSize len inp) (ascii_loop len)"

definition readAscii :: "u16 list reader" where
  "readAscii inp = andThen (readInt16 inp) (\<lambda>(len, i1). readAscii_len (unat len) i1)"

definition readAsciiHuge :: "u16 list reader" where
  "readAsciiHuge inp = andThen (readInt32 inp) (\<lambda>(len, i1). readAscii_len (unat len) i1)"

definition readJavaModifiedUtf8 :: "u16 list reader" where
  "readJavaModifiedUtf8 inp =
     andThen (readInt16 inp) (\<lambda>(len, i1).
     andThen (checkBufferSize (unat len) i1) (\<lambda>i2.
     andThen (jm_decode (drop (nat (buffer_pos i2)) (bufferHead i2)) (unat len) 0) (\<lambda>cs.
       Inr (cs, advanceCursor (unat len) i2))))"

definition readUtf16Huge :: "u16 list reader" where
  "readUtf16Huge inp =
     andThen (readInt32 inp) (\<lambda>(len, i1).
     andThen (checkBufferSize (unat len) i1) (read_n (unat len) readInt16NoCheck))"

definition readString :: "u16 list reader" where
  "readString inp =
     andThen (read_byte inp) (\<lambda>(type, i1).
       if type = 42 then readJavaModifiedUtf8 i1
       else if type = 89 then readUtf16Huge i1
       else if type = 87 then readAscii i1
       else if type = 88 then readAsciiHuge i1
       else Inr ([], i1))"

definition readUTF :: "u16 list reader" where
  "readUTF = readJavaModifiedUtf8"

section \<open>The invariant and the contracts\<close>

text \<open>
  The cursor stands inside the buffer and the buffer inside the memory behind it, whose
  size is below the largest object size of a 64-bit platform.
\<close>

definition in_inv :: "data_input \<Rightarrow> bool" where
  "in_inv inp \<longleftrightarrow>
     0 \<le> buffer_pos inp \<and> buffer_pos inp \<le> int (bufferLength inp) \<and>
     bufferLength inp \<le> length (bufferHead inp) \<and> length (bufferHead inp) < 2 ^ 63"

definition unread :: "data_input \<Rightarrow> byte list" where
  "unread inp = drop (nat (buffer_pos inp)) (take (bufferLength inp) (bufferHead inp))"

text \<open>On input that starts with \<open>bs\<close> the reader returns \<open>x\<close> and stops right after.\<close>

definition consumes :: "'a reader \<Rightarrow> byte list \<Rightarrow> 'a \<Rightarrow> bool" where
  "consumes r bs x \<longleftrightarrow>
     (\<forall>inp. in_inv inp \<and> (\<exists>rest. unread inp = bs @ rest) \<longrightarrow>
        r inp = Inr (x, advanceCursor (length bs) inp))"

text \<open>On any input the reader stays inside the buffer and never moves backwards.\<close>

definition safe_reader :: "'a reader \<Rightarrow> bool" where
  "safe_reader r \<longleftrightarrow>
     (\<forall>inp. in_inv inp \<longrightarrow>
        (case r inp of
           Inr (x, i1) \<Rightarrow> (\<exists>n. i1 = advanceCursor n inp) \<and> in_inv i1
         | Inl e \<Rightarrow> e \<noteq> MemoryFault))"

text \<open>
  The base 128 code of an unsigned integer, least significant group first, the top bit
  of a byte saying that another one follows.
\<close>

function vl_bytes :: "u64 \<Rightarrow> byte list" where
  "vl_bytes w =
     (if unat w < 128 then [ucast w] else (0x80 OR (ucast w AND 0x7F)) # vl_bytes (drop_bit 7 w))"
  by pat_completeness auto
termination
  by (relation "measure unat") (simp, simp add: unat_drop_bit_eq, simp add: drop_bit_eq_div)

declare vl_bytes.simps [simp del]

text \<open>With \<open>n\<close> bytes left the unchecked loads succeed and take exactly \<open>n\<close>.\<close>

definition loads :: "nat \<Rightarrow> 'a reader \<Rightarrow> bool" where
  "loads n r \<longleftrightarrow>
     (\<forall>inp. in_inv inp \<and> n \<le> length (unread inp) \<longrightarrow> (\<exists>x. r inp = Inr (x, advanceCursor n inp)))"

section \<open>Cursor facts\<close>

lemma advanceCursor_0 [simp]: "advanceCursor 0 inp = inp"
  by (simp add: advanceCursor_def)

lemma advanceCursor_advanceCursor [simp]:
  "advanceCursor m (advanceCursor n inp) = advanceCursor (n + m) inp"
  by (simp add: advanceCursor_def)

lemma length_unread: "in_inv inp \<Longrightarrow> int (length (unread inp)) = int (bufferLength inp) - buffer_pos inp"
  by (auto simp: in_inv_def unread_def)

lemma in_inv_advanceCursor:
  "in_inv inp \<Longrightarrow> n \<le> length (unread inp) \<Longrightarrow> in_inv (advanceCursor n inp)"
  using length_unread[of inp] by (simp add: in_inv_def advanceCursor_def)

lemma unread_advanceCursor:
  "in_inv inp \<Longrightarrow> unread (advanceCursor n inp) = drop n (unread inp)"
  by (simp add: in_inv_def unread_def advanceCursor_def nat_add_distrib add.commute)

lemma checkBufferSize_in_inv:
  "in_inv inp \<Longrightarrow>
   checkBufferSize n inp = (if length (unread inp) < n then Inl OutOfRangeException else Inr inp)"
  using length_unread[of inp]
  by (auto simp: checkBufferSize_def in_inv_def size_t_diff_in_range)

lemma readNoCheck_in_inv:
  assumes "in_inv inp" "unread inp = b # rest"
  shows "readNoCheck inp = Inr (b, advanceCursor 1 inp)"
proof -
  from assms have "nat (buffer_pos inp) < bufferLength inp"
    using length_unread[OF assms(1)] by (auto simp: in_inv_def)
  with assms have "bufferHead inp ! nat (buffer_pos inp) = b"
    by (metis unread_def hd_drop_conv_nth in_inv_def length_take list.sel(1) min.absorb2 nth_take)
  with assms \<open>nat (buffer_pos inp) < bufferLength inp\<close> show ?thesis
    by (simp add: readNoCheck_def in_inv_def advanceCursor_def)
qed

section \<open>Combining readers\<close>

lemma consumesD:
  "consumes r bs x \<Longrightarrow> in_inv inp \<Longrightarrow> unread inp = bs @ rest \<Longrightarrow>
   r inp = Inr (x, advanceCursor (length bs) inp)"
  by (auto simp: consumes_def)

lemma consumes_after:
  assumes "in_inv inp" "unread inp = bs @ rest"
  shows "in_inv (advanceCursor (length bs) inp)" "unread (advanceCursor (length bs) inp) = rest"
  using assms by (simp_all add: in_inv_advanceCursor unread_advanceCursor)

lemma consumes_return: "consumes (\<lambda>inp. Inr (x, inp)) [] x"
  by (simp add: consumes_def)

lemma consumes_bind:
  assumes r: "consumes r bs x" and k: "consumes (k x) cs y"
  shows "consumes (\<lambda>inp. andThen (r inp) (\<lambda>(x, i). k x i)) (bs @ cs) y"
  unfolding consumes_def
proof (intro allI impI, elim conjE exE)
  fix inp rest assume i: "in_inv inp" "unread inp = (bs @ cs) @ rest"
  then have u: "unread inp = bs @ (cs @ rest)" by simp
  show "andThen (r inp) (\<lambda>(x, i). k x i) = Inr (y, advanceCursor (length (bs @ cs)) inp)"
    using consumesD[OF r i(1) u] consumesD[OF k consumes_after[OF i(1) u]] by simp
qed

lemma consumes_map:
  assumes "consumes r bs x"
  shows "consumes (\<lambda>inp. andThen (r inp) (\<lambda>(x, i). Inr (f x, i))) bs (f x)"
  using consumes_bind[OF assms, of "\<lambda>x i. Inr (f x, i)" "[]" "f x"] by (simp add: consumes_return)

lemma consumes_check:
  assumes "consumes r bs x" "n \<le> length bs"
  shows "consumes (\<lambda>inp. andThen (checkBufferSize n inp) r) bs x"
  using assms by (auto simp: consumes_def checkBufferSize_in_inv)

lemma consumes_readNoCheck: "consumes readNoCheck [b] b"
  by (auto simp: consumes_def readNoCheck_in_inv)

lemma loads_return: "loads 0 (\<lambda>inp. Inr (f inp, inp))"
  by (simp add: loads_def)

lemma loads_bind:
  assumes r: "loads m r" and k: "\<And>x. loads n (k x)"
  shows "loads (m + n) (\<lambda>inp. andThen (r inp) (\<lambda>(x, i). k x i))"
  unfolding loads_def
proof (intro allI impI, elim conjE)
  fix inp assume i: "in_inv inp" "m + n \<le> length (unread inp)"
  with r obtain x where x: "r inp = Inr (x, advanceCursor m inp)"
    unfolding loads_def by (meson add_leD1)
  have "in_inv (advanceCursor m inp)" "n \<le> length (unread (advanceCursor m inp))"
    using i by (simp_all add: in_inv_advanceCursor unread_advanceCursor)
  with k obtain y where "k x (advanceCursor m inp) = Inr (y, advanceCursor n (advanceCursor m inp))"
    unfolding loads_def by blast
  with x show "\<exists>y. andThen (r inp) (\<lambda>(x, i). k x i) = Inr (y, advanceCursor (m + n) inp)"
    by simp
qed

lemma loads_map: "loads n r \<Longrightarrow> loads n (\<lambda>inp. andThen (r inp) (\<lambda>(x, i). Inr (f x, i)))"
  by (fastforce simp: loads_def)

lemma loads_readNoCheck: "loads 1 readNoCheck"
proof -
  have "\<exists>x. readNoCheck inp = Inr (x, advanceCursor 1 inp)"
    if "in_inv inp" "1 \<le> length (unread inp)" for inp
    using that readNoCheck_in_inv[of inp] by (cases "unread inp") auto
  then show ?thesis by (auto simp: loads_def)
qed

lemma safe_return: "safe_reader (\<lambda>inp. Inr (x, inp))"
  by (auto simp: safe_reader_def intro: exI[of _ 0])

lemma safe_fail: "e \<noteq> MemoryFault \<Longrightarrow> safe_reader (\<lambda>inp. Inl e)"
  by (simp add: safe_reader_def)

lemma safe_bind:
  assumes r: "safe_reader r" and k: "\<And>x. safe_reader (k x)"
  shows "safe_reader (\<lambda>inp. andThen (r inp) (\<lambda>(x, i). k x i))"
  unfolding safe_reader_def
proof (intro allI impI)
  fix inp assume i: "in_inv inp"
  show "case andThen (r inp) (\<lambda>(x, i). k x i) of
      Inr (x, i1) \<Rightarrow> (\<exists>n. i1 = advanceCursor n inp) \<and> in_inv i1 | Inl e \<Rightarrow> e \<noteq> MemoryFault"
  proof (cases "r inp")
    case (Inl e)
    with r i show ?thesis by (auto simp: safe_reader_def split: sum.splits)
  next
    case (Inr p)
    with r i obtain x m where p: "p = (x, advanceCursor m inp)" and i1: "in_inv (advanceCursor m inp)"
      unfolding safe_reader_def by (cases p) (force split: sum.splits)
    from k[of x] i1 have "case k x (advanceCursor m inp) of
      Inr (y, i2) \<Rightarrow> (\<exists>n. i2 = advanceCursor n (advanceCursor m inp)) \<and> in_inv i2 | Inl e \<Rightarrow> e \<noteq> MemoryFault"
      unfolding safe_reader_def by blast
    with Inr p show ?thesis by (auto split: sum.splits)
  qed
qed

lemma safe_map: "safe_reader r \<Longrightarrow> safe_reader (\<lambda>inp. andThen (r inp) (\<lambda>(x, i). Inr (f x, i)))"
  by (rule safe_bind) (auto intro: safe_return)

lemma safe_check:
  assumes "loads n r"
  shows "safe_reader (\<lambda>inp. andThen (checkBufferSize n inp) r)"
proof -
  have "\<exists>x. r inp = Inr (x, advanceCursor n inp) \<and> in_inv (advanceCursor n inp)"
    if "in_inv inp" "n \<le> length (unread inp)" for inp
    using assms that in_inv_advanceCursor unfolding loads_def by blast
  then show ?thesis
    by (fastforce simp: safe_reader_def checkBufferSize_in_inv)
qed

section \<open>What the readers return on their format\<close>

lemma consumes_copy_out: "consumes (copy_out (length bs)) bs bs"
proof (induction bs)
  case Nil
  show ?case by (simp add: consumes_def)
next
  case (Cons b bs)
  have eta: "copy_out (length (b # bs)) = (\<lambda>inp. andThen (readNoCheck inp) (\<lambda>(b, i1).
      andThen (copy_out (length bs) i1) (\<lambda>(bs, i2). Inr (b # bs, i2))))"
    by (rule ext) simp
  show ?case
    unfolding eta using consumes_bind[OF consumes_readNoCheck consumes_map[OF Cons.IH]] by simp
qed

lemma consumes_shift_loads: "consumes (shift_loads (length bs) acc) bs (foldl shift_in acc bs)"
proof (induction bs arbitrary: acc)
  case Nil
  show ?case by (simp add: consumes_def)
next
  case (Cons b bs)
  have eta: "shift_loads (length (b # bs)) acc =
      (\<lambda>inp. andThen (readNoCheck inp) (\<lambda>(b, i1). shift_loads (length bs) (shift_in acc b) i1))"
    by (rule ext) simp
  show ?case
    unfolding eta
    using consumes_bind[OF consumes_readNoCheck, where k = "\<lambda>b. shift_loads (length bs) (shift_in acc b)",
        OF Cons.IH[of "shift_in acc b"]] by simp
qed

lemma consumes_shifted:
  assumes "length bs = n" "foldl shift_in (ucast b) bs = (v :: 'a::len word)"
  shows "consumes (\<lambda>i. andThen (readNoCheck i) (\<lambda>(b, i1). shift_loads n (ucast b) i1)) (b # bs) v"
  using consumes_bind[OF consumes_readNoCheck[of b], where k = "\<lambda>b. shift_loads (length bs) (ucast b :: 'a word)",
      OF consumes_shift_loads] assms by simp

lemma consumes_read_byte: "consumes read_byte [b] b"
  unfolding read_byte_def[abs_def] by (rule consumes_check) (simp_all add: consumes_readNoCheck)

lemma consumes_readBoolean: "consumes readBoolean [if v then 1 else 0] v"
proof -
  have "consumes (\<lambda>inp. andThen (readNoCheck inp) (\<lambda>(b, i2). Inr (b = 1, i2))) [if v then 1 else 0] v"
    using consumes_map[OF consumes_readNoCheck, of "\<lambda>b. b = 1" "if v then 1 else 0"] by (cases v) simp_all
  then show ?thesis
    unfolding readBoolean_def[abs_def] by (rule consumes_check) simp
qed

lemma consumes_readBytesOnly: "consumes (readBytesOnly (length bs)) bs bs"
proof (cases "bs = []")
  case True
  then show ?thesis by (simp add: consumes_def readBytesOnly_def)
next
  case False
  then show ?thesis
    using consumes_check[OF consumes_copy_out, of "length bs" bs]
    by (simp add: readBytesOnly_def[abs_def])
qed

lemma consumes_readInt16NoCheck: "consumes readInt16NoCheck (bytes16 v) v"
  unfolding readInt16NoCheck_def[abs_def] bytes16_def
  by (rule consumes_shifted) (simp_all add: shift_in_bytes16)

lemma consumes_readInt16: "consumes readInt16 (bytes16 v) v"
  unfolding readInt16_def[abs_def] by (rule consumes_check) (simp_all add: consumes_readInt16NoCheck)

lemma consumes_readInt32: "consumes readInt32 (bytes32 v) v"
  unfolding readInt32_def[abs_def] bytes32_def
  by (intro consumes_check consumes_shifted) (simp_all add: shift_in_bytes32)

lemma consumes_readInt64: "consumes readInt64 (bytes64 v) v"
  unfolding readInt64_def[abs_def] bytes64_def
  by (intro consumes_check consumes_shifted) (simp_all add: shift_in_bytes64)

lemma consumes_readFloat: "consumes readFloat (bytes32 v) v"
  unfolding readFloat_def[abs_def] by (rule consumes_check[OF consumes_readInt32]) simp

lemma consumes_readDouble: "consumes readDouble (bytes64 v) v"
  unfolding readDouble_def[abs_def] by (rule consumes_check[OF consumes_readInt64]) simp

lemma consumes_readArrayLength:
  assumes "-1 \<le> sint len"
  shows "consumes readArrayLength (arrayLen_bytes len) len"
proof -
  define k where "k = (\<lambda>(code :: byte) (i1 :: data_input).
    if code = 0xFF then Inr (-1 :: u32, i1)
    else if 252 < code then
      (if code = 0xFE then andThen (readInt16 i1) (\<lambda>(v, i2). Inr (ucast v, i2))
       else if code = 0xFD then readInt32 i1
       else Inl IllegalStateException)
    else Inr (ucast code, i1))"
  have rd: "readArrayLength = (\<lambda>inp. andThen (read_byte inp) (\<lambda>(code, i1). k code i1))"
    by (simp add: readArrayLength_def[abs_def] k_def)
  note bind = consumes_bind[OF consumes_read_byte, where k = k, folded rd]
  have u: "0 \<le> sint len \<Longrightarrow> uint len = sint len"
    by (rule sint_nonneg_u32)
  from assms consider "sint len = -1" | "0 \<le> sint len" "sint len \<le> 252"
    | "252 < sint len" "sint len \<le> 0xFFFF" | "0xFFFF < sint len"
    by linarith
  then show ?thesis
  proof cases
    case 1
    then have "len = -1"
      by (intro signed_word_eqI) simp
    moreover have "consumes (k 0xFF) [] (-1)"
      by (simp add: k_def consumes_def)
    ultimately show ?thesis
      using bind[of "0xFF" "[]" "-1"] by (simp add: arrayLen_bytes_def)
  next
    case 2
    with u have ul: "uint len \<le> 252" by simp
    then have "(ucast (ucast len :: byte) :: u32) = len"
      by (intro ucast_narrow) simp
    moreover have "\<not> 252 < (ucast len :: byte)" "(ucast len :: byte) \<noteq> 0xFF"
      using ucast_narrow(1)[of len] ul by (simp_all add: word_less_def word_uint_eq_iff)
    ultimately have "consumes (k (ucast len)) [] len"
      by (simp add: k_def consumes_def)
    with 2 show ?thesis
      using bind[of "ucast len" "[]" len] by (simp add: arrayLen_bytes_def)
  next
    case 3
    with u have "uint len \<le> 0xFFFF" by simp
    then have "(ucast (ucast len :: u16) :: u32) = len"
      by (intro ucast_narrow) simp
    then have "consumes (k 0xFE) (bytes16 (ucast len)) len"
      using consumes_map[OF consumes_readInt16, of "ucast :: u16 \<Rightarrow> u32" "ucast len"]
      by (simp add: k_def)
    with 3 show ?thesis
      using bind[of "0xFE" "bytes16 (ucast len)" len] by (simp add: arrayLen_bytes_def)
  next
    case 4
    have "consumes (k 0xFD) (bytes32 len) len"
      by (simp add: k_def consumes_readInt32)
    with 4 show ?thesis
      using bind[of "0xFD" "bytes32 len" len] by (simp add: arrayLen_bytes_def)
  qed
qed

lemma consumes_readBytes:
  assumes "length bs < 2 ^ 31"
  shows "consumes readBytes (byteArray_bytes bs)
    (if bs = [] then None else Some bs, of_nat (length bs))"
proof -
  let ?n = "of_nat (length bs) :: u32"
  have n: "sint ?n = int (length bs)"
    using assms by (intro sint_of_nat_u32) simp
  define k where "k = (\<lambda>(len :: u32) i1.
    if 0 < sint len then
      andThen (checkBufferSize (nat (sint len)) i1) (\<lambda>i2.
      andThen (copy_out (nat (sint len)) i2) (\<lambda>(bs, i3). Inr ((Some bs, len), i3)))
    else Inr ((None, len), i1))"
  have "consumes (k ?n) bs (if bs = [] then None else Some bs, ?n)"
  proof (cases "bs = []")
    case True
    then show ?thesis by (simp add: k_def consumes_def)
  next
    case False
    from consumes_check[OF consumes_map[OF consumes_copy_out], of "length bs" bs "\<lambda>bs. (Some bs, ?n)"] False
    show ?thesis by (simp add: k_def n)
  qed
  with consumes_bind[OF consumes_readArrayLength, of ?n k] n show ?thesis
    by (simp add: readBytes_def[abs_def] k_def byteArray_bytes_def)
qed

lemma vl_last_group: "unat (w :: u64) < 128 \<Longrightarrow> ucast ((ucast w :: byte) AND 0x7F) = w"
  "unat (w :: u64) < 128 \<Longrightarrow> (ucast w :: byte) AND 0x80 = 0"
proof -
  assume "unat w < 128"
  then have w: "\<not> bit w m" if "7 \<le> m" for m
    using unset_above[of w 7 m] that by simp
  show "ucast ((ucast w :: byte) AND 0x7F) = w"
  proof (rule bit_word_eqI)
    fix n assume "n < LENGTH(64)"
    show "bit (ucast ((ucast w :: byte) AND 0x7F) :: u64) n = bit w n"
    proof (cases "n < 7")
      case True
      then have "n < 8" by simp
      then show ?thesis using True w[of 7]
        by (cases n rule: upto8) (simp_all add: bit_simps)
    next
      case False
      with w[of n] show ?thesis by (auto simp: bit_simps)
    qed
  qed
  show "(ucast w :: byte) AND 0x80 = 0"
  proof (rule eq8I)
    fix n :: nat assume "n < 8"
    then show "bit ((ucast w :: byte) AND 0x80) n = bit 0 n"
      using w[of 7] by (cases n rule: upto8) (simp_all add: bit_simps)
  qed
qed

lemma vl_more_group: "((0x80 :: byte) OR (x AND 0x7F)) AND 0x80 \<noteq> 0"
  "((0x80 :: byte) OR (x AND 0x7F)) AND 0x7F = x AND 0x7F"
proof -
  show "((0x80 :: byte) OR (x AND 0x7F)) AND 0x80 \<noteq> 0"
    by (rule notI, drule arg_cong[where f = "\<lambda>w. bit w 7"]) (simp add: bit_simps)
  show "((0x80 :: byte) OR (x AND 0x7F)) AND 0x7F = x AND 0x7F"
  proof (rule eq8I)
    fix n :: nat assume "n < 8"
    then show "bit (((0x80 :: byte) OR (x AND 0x7F)) AND 0x7F) n = bit (x AND 0x7F) n"
      by (cases n rule: upto8) (simp_all add: bit_simps)
  qed
qed

lemma vl_join:
  "(r OR push_bit s (ucast ((ucast w :: byte) AND 0x7F))) OR push_bit (s + 7) (drop_bit 7 w) =
   r OR push_bit s (w :: u64)"
proof (rule bit_word_eqI)
  fix n assume n: "n < LENGTH(64)"
  have low: "bit ((ucast w :: byte) AND 0x7F) m \<longleftrightarrow> m < 7 \<and> bit w m" for m
  proof (cases "m < 8")
    case True
    then show ?thesis by (cases m rule: upto8) (simp_all add: bit_simps)
  next
    case False
    then show ?thesis by (simp add: bit_simps)
  qed
  show "bit ((r OR push_bit s (ucast ((ucast w :: byte) AND 0x7F))) OR push_bit (s + 7) (drop_bit 7 w)) n
      = bit (r OR push_bit s w) n"
  proof (cases "s \<le> n \<and> n - s < 7")
    case True
    with n show ?thesis by (auto simp: bit_or_iff bit_push_bit_iff bit_unsigned_iff bit_drop_bit_eq low)
  next
    case False
    then have "s \<le> n \<Longrightarrow> s + 7 \<le> n \<and> 7 + (n - (s + 7)) = n - s" by auto
    with n False show ?thesis
      by (auto simp: bit_or_iff bit_push_bit_iff bit_unsigned_iff bit_drop_bit_eq low)
  qed
qed

lemma consumes_readUnsignedVL_loop:
  assumes "unat w < 2 ^ (64 - s)" "s < 64"
  shows "consumes (readUnsignedVL_loop s r) (vl_bytes w) (r OR push_bit s w)"
  using assms
proof (induction w arbitrary: s r rule: vl_bytes.induct)
  case (1 w)
  define k where "k = (\<lambda>(b :: byte) i1.
    let result' = r OR push_bit s (ucast (b AND 0x7F)) in
    if b AND 0x80 = 0 then Inr (result', i1) else readUnsignedVL_loop (s + 7) result' i1)"
  have rd: "readUnsignedVL_loop s r = (\<lambda>inp. andThen (read_byte inp) (\<lambda>(b, i1). k b i1))"
    using 1(3) by (intro ext, subst readUnsignedVL_loop.simps) (simp add: k_def)
  note bind = consumes_bind[OF consumes_read_byte, where k = k, folded rd]
  show ?case
  proof (cases "unat w < 128")
    case True
    have "consumes (k (ucast w)) [] (r OR push_bit s w)"
      by (simp add: k_def vl_last_group[OF True] consumes_def)
    with bind[of "ucast w"] True show ?thesis by (simp add: vl_bytes.simps[of w])
  next
    case False
    let ?b = "0x80 OR (ucast w AND 0x7F) :: byte"
    have "7 < 64 - s"
    proof (rule ccontr)
      assume "\<not> 7 < 64 - s"
      then have "(2::nat) ^ (64 - s) \<le> 2 ^ 7" by (intro power_increasing) auto
      with 1(2) False show False by simp
    qed
    then have s: "s + 7 < 64" and e: "64 - s = (64 - (s + 7)) + 7" by simp_all
    have "unat (drop_bit 7 w) < 2 ^ (64 - (s + 7))"
      using 1(2) unfolding e by (simp add: unat_drop_bit_eq) (simp add: drop_bit_eq_div div_less_iff_less_mult power_add)
    from 1(1)[OF False this s, of "r OR push_bit s (ucast ((ucast w :: byte) AND 0x7F))"]
    have "consumes (k ?b) (vl_bytes (drop_bit 7 w)) (r OR push_bit s w)"
      by (simp add: k_def vl_more_group vl_join)
    with bind[of ?b] False show ?thesis by (simp add: vl_bytes.simps[of w])
  qed
qed

lemma consumes_readUnsignedVL: "consumes readUnsignedVL (vl_bytes w) w"
  using consumes_readUnsignedVL_loop[of w 0 0] unsigned_less[of w, where ?'a = nat] by (simp add: readUnsignedVL_def)

lemma consumes_read_n:
  assumes "\<And>x. x \<in> set xs \<Longrightarrow> consumes rd (enc x) x"
  shows "consumes (read_n (length xs) rd) (concat (map enc xs)) xs"
  using assms
proof (induction xs)
  case Nil
  show ?case by (simp add: consumes_def)
next
  case (Cons x xs)
  have eta: "read_n (length (x # xs)) rd = (\<lambda>inp. andThen (rd inp) (\<lambda>(x, i1).
      andThen (read_n (length xs) rd i1) (\<lambda>(xs, i2). Inr (x # xs, i2))))"
    by (rule ext) simp
  have "consumes rd (enc x) x" "consumes (read_n (length xs) rd) (concat (map enc xs)) xs"
    using Cons by simp_all
  from consumes_bind[OF this(1) consumes_map[OF this(2)]] show ?case
    unfolding eta by simp
qed

lemma consumes_readArray:
  assumes "\<And>x. x \<in> set xs \<Longrightarrow> consumes rd (enc x) x" "length xs < 2 ^ 31"
  shows "consumes (readArray rd) (arrayLen_bytes (of_nat (length xs)) @ concat (map enc xs)) xs"
proof -
  have n: "sint (of_nat (length xs) :: u32) = int (length xs)"
    using assms(2) by (intro sint_of_nat_u32) simp
  define k where "k = (\<lambda>(len :: u32) i1.
    if 0 \<le> sint len then read_n (nat (sint len)) rd i1 else Inr ([], i1))"
  have "consumes (k (of_nat (length xs))) (concat (map enc xs)) xs"
    using consumes_read_n[OF assms(1)] by (simp add: k_def n)
  with consumes_bind[OF consumes_readArrayLength, of "of_nat (length xs)" k] n show ?thesis
    by (simp add: readArray_def[abs_def] k_def)
qed

section \<open>What the string readers return\<close>

lemma consumes_ascii_loop:
  "consumes (ascii_loop (length bs)) bs (map (\<lambda>b. ucast (b AND 0x7F)) bs)"
proof (induction bs)
  case Nil
  show ?case by (simp add: consumes_def)
next
  case (Cons b bs)
  have eta: "ascii_loop (length (b # bs)) = (\<lambda>inp. andThen (readNoCheck inp) (\<lambda>(b, i1).
      andThen (ascii_loop (length bs) i1) (\<lambda>(cs, i2). Inr (ucast (b AND 0x7F) # cs, i2))))"
    by (rule ext) simp
  from consumes_bind[OF consumes_readNoCheck[of b],
      where k = "\<lambda>b i1. andThen (ascii_loop (length bs) i1) (\<lambda>(cs, i2). Inr (ucast (b AND 0x7F) # cs, i2))",
      OF consumes_map[OF Cons.IH]]
  show ?case unfolding eta by simp
qed

lemma ascii_chars_back:
  assumes "\<forall>c\<in>set cs. c < 0x80"
  shows "map (\<lambda>b. ucast (b AND 0x7F)) (ascii_bytes cs) = cs"
proof -
  have "(ucast ((ucast (c AND 0x7F) :: byte) AND 0x7F) :: u16) = c" if "c < 0x80" for c :: u16
  proof (rule eq16I)
    fix n :: nat assume n: "n < 16"
    show "bit (ucast ((ucast (c AND 0x7F) :: byte) AND 0x7F) :: u16) n = bit c n"
      using n u16_bits(1)[OF that] by (cases n rule: upto16) (simp_all add: bit_simps)
  qed
  with assms show ?thesis by (simp add: ascii_bytes_def map_idI)
qed

lemma consumes_readAscii_len:
  assumes "\<forall>c\<in>set cs. c < 0x80"
  shows "consumes (readAscii_len (length cs)) (ascii_bytes cs) cs"
proof -
  have "length (ascii_bytes cs) = length cs" by (simp add: ascii_bytes_def)
  with consumes_check[OF consumes_ascii_loop, of "length cs" "ascii_bytes cs"] show ?thesis
    by (simp add: readAscii_len_def[abs_def] ascii_chars_back[OF assms])
qed

lemma unat_of_nat_fits:
  "n \<le> 0xFFFF \<Longrightarrow> unat (of_nat n :: u16) = n" "n \<le> 0xFFFFFFFF \<Longrightarrow> unat (of_nat n :: u32) = n"
  by (simp_all add: unat_of_nat take_bit_nat_eq_self)

lemma consumes_readAscii:
  assumes "\<forall>c\<in>set cs. c < 0x80" "length cs \<le> 0xFFFF"
  shows "consumes readAscii (bytes16 (of_nat (length cs)) @ ascii_bytes cs) cs"
  using consumes_bind[OF consumes_readInt16, where k = "\<lambda>len. readAscii_len (unat len)"]
    consumes_readAscii_len[OF assms(1)] assms(2)
  by (simp add: readAscii_def[abs_def] unat_of_nat_fits)

lemma consumes_readAsciiHuge:
  assumes "\<forall>c\<in>set cs. c < 0x80" "length cs \<le> 0xFFFFFFFF"
  shows "consumes readAsciiHuge (bytes32 (of_nat (length cs)) @ ascii_bytes cs) cs"
  using consumes_bind[OF consumes_readInt32, where k = "\<lambda>len. readAscii_len (unat len)"]
    consumes_readAscii_len[OF assms(1)] assms(2)
  by (simp add: readAsciiHuge_def[abs_def] unat_of_nat_fits)

lemma consumes_readUtf16Huge:
  assumes "length cs \<le> 0xFFFFFFFF"
  shows "consumes readUtf16Huge (bytes32 (of_nat (length cs)) @ utf16_bytes cs) cs"
proof -
  let ?k = "\<lambda>(len :: u32) i1. andThen (checkBufferSize (unat len) i1) (read_n (unat len) readInt16NoCheck)"
  have "consumes (read_n (length cs) readInt16NoCheck) (utf16_bytes cs) cs"
    unfolding utf16_bytes_def by (rule consumes_read_n) (rule consumes_readInt16NoCheck)
  then have "consumes (?k (of_nat (length cs))) (utf16_bytes cs) cs"
    using assms by (intro consumes_check) (simp_all add: unat_of_nat_fits length_utf16_bytes)
  from consumes_bind[OF consumes_readInt32, where k = ?k, OF this] show ?thesis
    by (simp add: readUtf16Huge_def[abs_def])
qed

lemma jm_decode_unread:
  assumes "in_inv inp" "unread inp = jm_fromString cs @ rest"
  shows "jm_decode (drop (nat (buffer_pos inp)) (bufferHead inp)) (jm_encodedLength cs) 0 = Inr cs"
proof -
  have "drop (nat (buffer_pos inp)) (bufferHead inp) = unread inp @ drop (bufferLength inp) (bufferHead inp)"
  proof -
    have le: "nat (buffer_pos inp) \<le> length (take (bufferLength inp) (bufferHead inp))"
      using assms(1) by (auto simp: in_inv_def)
    have "drop (nat (buffer_pos inp)) (take (bufferLength inp) (bufferHead inp) @
        drop (bufferLength inp) (bufferHead inp)) = unread inp @ drop (bufferLength inp) (bufferHead inp)"
      by (simp only: drop_append diff_is_0_eq'[OF le] drop_0 unread_def)
    then show ?thesis by simp
  qed
  with jm_decode_fromString_at[of "[]" cs "rest @ drop (bufferLength inp) (bufferHead inp)"] assms(2)
  show ?thesis by simp
qed

lemma consumes_readJavaModifiedUtf8:
  assumes "jm_encodedLength cs \<le> 0xFFFF"
  shows "consumes readJavaModifiedUtf8 (utf_bytes cs) cs"
proof -
  define k where "k = (\<lambda>(len :: u16) i1. andThen (checkBufferSize (unat len) i1) (\<lambda>i2.
    andThen (jm_decode (drop (nat (buffer_pos i2)) (bufferHead i2)) (unat len) 0) (\<lambda>cs.
      Inr (cs, advanceCursor (unat len) i2))))"
  have "consumes (k (of_nat (jm_encodedLength cs))) (jm_fromString cs) cs"
    unfolding k_def
    using assms
    by (intro consumes_check)
      (auto simp: consumes_def jm_decode_unread length_jm_fromString unat_of_nat_fits)
  from consumes_bind[OF consumes_readInt16, where k = k, OF this] show ?thesis
    by (simp add: readJavaModifiedUtf8_def[abs_def] k_def utf_bytes_def)
qed

lemma all_ascii:
  assumes "\<not> length cs < jm_encodedLength cs"
  shows "\<forall>c\<in>set cs. c < 0x80"
  using assms
proof (induction cs)
  case (Cons c cs)
  have "length cs \<le> jm_encodedLength cs" by (rule length_le_encodedLength)
  with Cons show ?case by (auto split: if_splits)
qed simp

lemma consumes_readString:
  assumes "\<And>cs. value = Some cs \<Longrightarrow> length cs \<le> 0xFFFFFFFF"
  shows "consumes readString (string_bytes value) (case value of None \<Rightarrow> [] | Some cs \<Rightarrow> cs)"
proof -
  define k where "k = (\<lambda>(type :: byte) i1.
    if type = 42 then readJavaModifiedUtf8 i1 else if type = 89 then readUtf16Huge i1
    else if type = 87 then readAscii i1 else if type = 88 then readAsciiHuge i1
    else Inr ([], i1))"
  have rd: "readString = (\<lambda>inp. andThen (read_byte inp) (\<lambda>(type, i1). k type i1))"
    by (simp add: readString_def[abs_def] k_def)
  note bind = consumes_bind[OF consumes_read_byte, where k = k, folded rd]
  have k: "k 42 = readJavaModifiedUtf8" "k 89 = readUtf16Huge" "k 87 = readAscii" "k 88 = readAsciiHuge"
    "k 69 = (\<lambda>i1. Inr ([], i1))"
    by (simp_all add: k_def fun_eq_iff)
  show ?thesis
  proof (cases "value")
    case None
    with bind[of 69 "[]" "[]"] consumes_return[of "[]"] show ?thesis by (simp add: k string_bytes_def)
  next
    case (Some cs)
    note len = assms[OF Some]
    show ?thesis
      using bind[of 42, unfolded k, OF consumes_readJavaModifiedUtf8]
        bind[of 89, unfolded k, OF consumes_readUtf16Huge[OF len]]
        bind[of 87, unfolded k, OF consumes_readAscii[OF all_ascii]]
        bind[of 88, unfolded k, OF consumes_readAsciiHuge[OF all_ascii len]]
      by (simp add: Some string_bytes_def)
  qed
qed

section \<open>Readers on arbitrary bytes\<close>

lemma loads_copy_out: "loads n (copy_out n)"
proof (induction n)
  case 0
  show ?case by (simp add: loads_def)
next
  case (Suc n)
  from loads_bind[OF loads_readNoCheck loads_map[OF Suc.IH]] show ?case
    by (simp add: fun_eq_iff)
qed

lemma loads_shift_loads: "loads n (shift_loads n acc)"
proof (induction n arbitrary: acc)
  case 0
  show ?case by (simp add: loads_def)
next
  case (Suc n)
  from loads_bind[OF loads_readNoCheck Suc.IH] show ?case by (simp add: fun_eq_iff)
qed

lemma loads_ascii_loop: "loads n (ascii_loop n)"
proof (induction n)
  case 0
  show ?case by (simp add: loads_def)
next
  case (Suc n)
  from loads_bind[OF loads_readNoCheck loads_map[OF Suc.IH]] show ?case
    by (simp add: fun_eq_iff)
qed

lemma safe_read_byte: "safe_reader read_byte"
  unfolding read_byte_def[abs_def] by (rule safe_check[OF loads_readNoCheck])

lemma safe_readBoolean: "safe_reader readBoolean"
  unfolding readBoolean_def[abs_def] by (rule safe_check[OF loads_map[OF loads_readNoCheck]])

lemma safe_readBytesOnly: "safe_reader (readBytesOnly n)"
proof (cases "0 < n")
  case True
  with safe_check[OF loads_copy_out] show ?thesis by (simp add: readBytesOnly_def[abs_def])
next
  case False
  then show ?thesis by (simp add: readBytesOnly_def[abs_def] safe_return)
qed

lemma loads_shifted:
  "Suc n = m \<Longrightarrow> loads m (\<lambda>i. andThen (readNoCheck i) (\<lambda>(b, i1). shift_loads n (ucast b) i1))"
  using loads_bind[OF loads_readNoCheck loads_shift_loads, of n] by simp

lemma loads_readInt16NoCheck: "loads 2 readInt16NoCheck"
  unfolding readInt16NoCheck_def[abs_def] by (rule loads_shifted) simp

lemma safe_readInt16: "safe_reader readInt16"
  unfolding readInt16_def[abs_def] by (rule safe_check[OF loads_readInt16NoCheck])

lemma safe_readInt32: "safe_reader readInt32"
  unfolding readInt32_def[abs_def] by (rule safe_check, rule loads_shifted) simp

lemma safe_readInt64: "safe_reader readInt64"
  unfolding readInt64_def[abs_def] by (rule safe_check, rule loads_shifted) simp

lemma safe_if: "(c \<Longrightarrow> safe_reader r) \<Longrightarrow> (\<not> c \<Longrightarrow> safe_reader s) \<Longrightarrow> safe_reader (\<lambda>i. if c then r i else s i)"
  by (cases c) simp_all

lemmas safe_intros = safe_bind safe_if safe_return safe_map safe_fail

lemma safe_readArrayLength: "safe_reader readArrayLength"
  unfolding readArrayLength_def[abs_def]
  by (intro safe_intros safe_read_byte safe_readInt16 safe_readInt32) simp

lemma safe_readBytes: "safe_reader readBytes"
  unfolding readBytes_def[abs_def]
  by (intro safe_intros safe_readArrayLength safe_check loads_map loads_copy_out)

lemma safe_readUnsignedVL_loop: "safe_reader (readUnsignedVL_loop s r)"
proof (induction "64 - s" arbitrary: s r rule: less_induct)
  case less
  have "safe_reader (readUnsignedVL_loop (s + 7) r')" if "s < 64" for r'
    using that by (intro less) simp
  then have "safe_reader (\<lambda>inp. if s < 64 then andThen (read_byte inp) (\<lambda>(b, i1).
      if b AND 0x80 = 0 then Inr (r OR push_bit s (ucast (b AND 0x7F)), i1)
      else readUnsignedVL_loop (s + 7) (r OR push_bit s (ucast (b AND 0x7F))) i1) else Inl IllegalStateException)"
    by (intro safe_intros safe_read_byte) simp_all
  then show ?case
    unfolding readUnsignedVL_loop.simps[of s r, abs_def] Let_def .
qed

lemma safe_read_n: "safe_reader rd \<Longrightarrow> safe_reader (read_n n rd)"
proof (induction n)
  case 0
  show ?case by (simp add: safe_return)
next
  case (Suc n)
  from safe_bind[OF Suc.prems safe_map[OF Suc.IH[OF Suc.prems]]] show ?case
    by (simp add: fun_eq_iff)
qed

lemma safe_readArray: "safe_reader rd \<Longrightarrow> safe_reader (readArray rd)"
  unfolding readArray_def[abs_def]
  by (intro safe_intros safe_readArrayLength safe_read_n)

lemma safe_readArrayOfByteArrays: "safe_reader readArrayOfByteArrays"
  unfolding readArrayOfByteArrays_def[abs_def]
  by (intro safe_intros safe_readArrayLength safe_read_n safe_readBytes) simp

lemma safe_readAscii_len: "safe_reader (readAscii_len n)"
  unfolding readAscii_len_def[abs_def] by (rule safe_check[OF loads_ascii_loop])

lemma safe_readAscii: "safe_reader readAscii"
  unfolding readAscii_def[abs_def] by (intro safe_intros safe_readInt16 safe_readAscii_len)

lemma safe_readAsciiHuge: "safe_reader readAsciiHuge"
  unfolding readAsciiHuge_def[abs_def] by (intro safe_intros safe_readInt32 safe_readAscii_len)

section \<open>Properties\<close>

text \<open>
  C24. Reading hostile bytes is memory safe: on any buffer, whatever it holds, each of
  these readers either fails with an exception or returns a value with the cursor moved
  forward inside the buffer. No load leaves the memory of the buffer.
\<close>

theorem readers_memory_safe:
  "safe_reader read_byte \<and> safe_reader readBoolean \<and> safe_reader readInt16 \<and> safe_reader readInt32 \<and>
   safe_reader readInt64 \<and> safe_reader (readBytesOnly n) \<and> safe_reader readArrayLength \<and>
   safe_reader readBytes \<and> safe_reader readUnsignedVL \<and> safe_reader (readArray readInt64) \<and>
   safe_reader readArrayOfByteArrays \<and> safe_reader readAscii \<and> safe_reader readAsciiHuge"
  by (simp add: safe_read_byte safe_readBoolean safe_readInt16 safe_readInt32 safe_readInt64
      safe_readBytesOnly safe_readArrayLength safe_readBytes readUnsignedVL_def
      safe_readUnsignedVL_loop safe_readArray safe_readArrayOfByteArrays safe_readAscii
      safe_readAsciiHuge)

text \<open>
  The variable length integer reader decodes the base 128 code of every 64-bit value
  and stops right behind it.
\<close>

lemma readUnsignedVL_decodes:
  assumes "in_inv inp" "unread inp = vl_bytes w @ rest"
  shows "readUnsignedVL inp = Inr (w, advanceCursor (length (vl_bytes w)) inp)"
  by (rule consumesD[OF consumes_readUnsignedVL assms])

text \<open>
  C40. The huge UTF-16 string reader checks for as many bytes as it reads characters, half
  of what it needs: a buffer that holds exactly one byte per announced character passes the
  check and the reader loads beyond the end of the memory.
\<close>

theorem readUtf16Huge_overruns:
  assumes "0 < n" "n \<le> 0xFFFFFFFF" "length bs = n" "in_inv inp"
    "bufferHead inp = pre @ bytes32 (of_nat n) @ bs" "buffer_pos inp = int (length pre)"
    "bufferLength inp = length (bufferHead inp)"
  shows "readUtf16Huge inp = Inl MemoryFault"
proof -
  have u: "unread inp = bytes32 (of_nat n) @ bs"
    using assms(5-7) by (simp add: unread_def)
  let ?i = "advanceCursor 4 inp"
  have i: "in_inv ?i" "unread ?i = bs"
    using consumes_after[OF assms(4) u] by simp_all
  have short: "read_n m readInt16NoCheck j = Inl MemoryFault"
    if "in_inv j" "length (unread j) < 2 * m" "bufferLength j = length (bufferHead j)" for m j
    using that
  proof (induction m arbitrary: j)
    case (Suc m)
    show ?case
    proof (cases "2 \<le> length (unread j)")
      case True
      with loads_readInt16NoCheck Suc.prems(1) obtain x where x: "readInt16NoCheck j = Inr (x, advanceCursor 2 j)"
        unfolding loads_def by blast
      have "read_n m readInt16NoCheck (advanceCursor 2 j) = Inl MemoryFault"
        using Suc.prems True
        by (intro Suc.IH) (simp_all add: in_inv_advanceCursor unread_advanceCursor, simp add: advanceCursor_def)
      with x show ?thesis by simp
    next
      case False
      then have "int (length (bufferHead j)) \<le> buffer_pos j + 1"
        using length_unread[OF Suc.prems(1)] Suc.prems(3) by simp
      then have "readInt16NoCheck j = Inl MemoryFault"
        by (auto simp: readInt16NoCheck_def readNoCheck_def)
      then show ?thesis by simp
    qed
  qed simp
  have "readInt32 inp = Inr (of_nat n, ?i)"
    using consumesD[OF consumes_readInt32 assms(4) u] by simp
  moreover have "checkBufferSize n ?i = Inr ?i"
    using i assms(3) by (simp add: checkBufferSize_in_inv)
  moreover have "read_n n readInt16NoCheck ?i = Inl MemoryFault"
    using i assms(1,3,7) by (intro short) (simp_all add: advanceCursor_def)
  ultimately show ?thesis
    using assms(2) by (simp add: readUtf16Huge_def unat_of_nat_fits)
qed

theorem readUtf16Huge_overruns_witness:
  "readUtf16Huge (new_DataInput [0, 0, 0, 1, 0x41] 5) = Inl MemoryFault"
  using readUtf16Huge_overruns[of 1 "[0x41]" "new_DataInput [0, 0, 0, 1, 0x41] 5" "[]"]
  by (simp add: new_DataInput_def in_inv_def bytes32_def)

text \<open>
  The modified UTF-8 reader checks for the announced bytes only, and a character cut
  off by the announced length is decoded from the bytes behind it: the reader is memory
  safe when at least two bytes of memory follow the buffer, and a buffer that ends in a
  cut off character at the end of the memory makes it load beyond.
\<close>

lemma readJavaModifiedUtf8_slack:
  assumes "in_inv inp"
  shows "(bufferLength inp + 2 \<le> length (bufferHead inp) \<longrightarrow> readJavaModifiedUtf8 inp \<noteq> Inl MemoryFault) \<and>
    (bufferLength inp = length (bufferHead inp) \<and> unread inp = [0, 1, 0xE2] \<longrightarrow>
       readJavaModifiedUtf8 inp = Inl MemoryFault)"
proof (intro conjI impI)
  assume slack: "bufferLength inp + 2 \<le> length (bufferHead inp)"
  have "e \<noteq> MemoryFault" if "readJavaModifiedUtf8 inp = Inl e" for e
  proof (cases "readInt16 inp")
    case (Inl e')
    with safe_readInt16 assms that show ?thesis
      by (auto simp: readJavaModifiedUtf8_def safe_reader_def split: sum.splits)
  next
    case (Inr p)
    obtain len i1 where p: "p = (len, i1)" by (cases p)
    with Inr safe_readInt16 assms obtain n where i1: "i1 = advanceCursor n inp" "in_inv i1"
      by (fastforce simp: safe_reader_def split: sum.splits)
    show ?thesis
    proof (cases "length (unread i1) < unat len")
      case True
      with that Inr p i1 show ?thesis by (simp add: readJavaModifiedUtf8_def checkBufferSize_in_inv)
    next
      case False
      then have "unat len + 2 \<le> length (drop (nat (buffer_pos i1)) (bufferHead i1))"
        using slack i1 length_unread[OF i1(2)] by (auto simp: in_inv_def advanceCursor_def)
      from jm_decode_no_fault[OF this, of 0] False that Inr p i1 show ?thesis
        by (auto simp: readJavaModifiedUtf8_def checkBufferSize_in_inv)
    qed
  qed
  then show "readJavaModifiedUtf8 inp \<noteq> Inl MemoryFault" by blast
next
  assume a: "bufferLength inp = length (bufferHead inp) \<and> unread inp = [0, 1, 0xE2]"
  then have u: "unread inp = bytes16 1 @ [0xE2]" by (simp add: bytes16_def)
  let ?i = "advanceCursor 2 inp"
  have i: "in_inv ?i" "unread ?i = [0xE2]"
    using consumes_after[OF assms u] by simp_all
  then have "drop (nat (buffer_pos ?i)) (bufferHead ?i) = [0xE2]"
    using a by (simp add: unread_def advanceCursor_def)
  moreover have "jm_decode [0xE2] 1 0 = Inl MemoryFault"
    by (subst jm_decode.simps) (simp add: decodeJavaModifiedUtf8Char_def fetch_def)
  ultimately show "readJavaModifiedUtf8 inp = Inl MemoryFault"
    using consumesD[OF consumes_readInt16 assms u] i
    by (simp add: readJavaModifiedUtf8_def checkBufferSize_in_inv)
qed

end
