(* ===== verification/Serializer.thy ===== *)
theory Serializer
  imports Data_Input
begin

text \<open>
  The container serialisers of \<open>include/geode/Serializer.hpp\<close>, the objects of the primitive key
  types with the part of \<open>SerializationRegistry\<close> that writes and reads them, and the interface
  every serialisable type has: the locale \<open>codec\<close> says what the writer appends and what the
  reader returns on it, and derives the round trips of single values, sequences and vectors;
  \<open>object_containers\<close> adds the maps and sets, whose readers go through the registry and cast.
  They are interpreted on the writers and readers of \<open>Data_Output\<close> and \<open>Data_Input\<close> and on the
  registry.
\<close>

section \<open>Containers\<close>

fun write_all :: "('a \<Rightarrow> writer) \<Rightarrow> 'a list \<Rightarrow> writer" where
  "write_all wr [] out = Inr out"
| "write_all wr (x # xs) out = andThen (wr x out) (write_all wr xs)"

definition writeArrayObject :: "('a \<Rightarrow> writer) \<Rightarrow> 'a list \<Rightarrow> writer" where
  "writeArrayObject wr array out =
     andThen (writeArrayLen (of_nat (length array)) out) (write_all wr array)"

definition readArrayObject :: "'a reader \<Rightarrow> 'a list reader" where
  "readArrayObject rd inp =
     andThen (readArrayLength inp) (\<lambda>(len, i1).
       if 0 \<le> sint len then read_n (nat (sint len)) rd i1 else Inr ([], i1))"

text \<open>The pointer and length form: \<open>None\<close> is the null pointer.\<close>

definition writeObject_array :: "('a \<Rightarrow> writer) \<Rightarrow> 'a list option \<Rightarrow> writer" where
  "writeObject_array wr array out =
     (case array of
        None \<Rightarrow> write_byte 0xFF out
      | Some xs \<Rightarrow> andThen (writeArrayLen (of_nat (length xs)) out) (write_all wr xs))"

definition readObject_array :: "'a reader \<Rightarrow> ('a list option \<times> u32) reader" where
  "readObject_array rd inp =
     andThen (readArrayLength inp) (\<lambda>(len, i1).
       if 0 < sint len then
         andThen (read_n (nat (sint len)) rd i1) (\<lambda>(xs, i2). Inr ((Some xs, len), i2))
       else Inr ((None, len), i1))"

definition writeObject_map :: "('k \<Rightarrow> writer) \<Rightarrow> ('v \<Rightarrow> writer) \<Rightarrow> ('k \<times> 'v) list \<Rightarrow> writer" where
  "writeObject_map wk wv m out =
     andThen (writeArrayLen (of_nat (length m)) out)
       (write_all (\<lambda>(k, v) o1. andThen (wk k o1) (wv v)) m)"

text \<open>
  The readers of the hashed containers read a \<open>shared_ptr<Serializable>\<close> (\<open>None\<close> is the null
  pointer) and cast it to the element type, a failed cast giving the null pointer. Hashing
  and comparing the elements of \<open>HashMapOfCacheable\<close> and \<open>HashSetOfCacheableKey\<close> dereferences the
  key, so inserting a null key is an access through a null pointer.
\<close>

fun read_map_loop ::
  "nat \<Rightarrow> 'o option reader \<Rightarrow> ('o \<Rightarrow> 'k option) \<Rightarrow> ('o \<Rightarrow> 'v option) \<Rightarrow> ('k \<times> 'v option) list \<Rightarrow> ('k \<times> 'v option) list reader" where
  "read_map_loop 0 rd castk castv m inp = Inr (m, inp)"
| "read_map_loop (Suc n) rd castk castv m inp =
     andThen (rd inp) (\<lambda>(key, i1).
     andThen (rd i1) (\<lambda>(val, i2).
       case Option.bind key castk of
         None \<Rightarrow> Inl MemoryFault
       | Some k \<Rightarrow> read_map_loop n rd castk castv (al_emplace k (Option.bind val castv) m) i2))"

text \<open>\<open>reserve\<close> of a negative length asks for more buckets than a container can have.\<close>

definition readObject_map ::
  "'o option reader \<Rightarrow> ('o \<Rightarrow> 'k option) \<Rightarrow> ('o \<Rightarrow> 'v option) \<Rightarrow> ('k \<times> 'v option) list \<Rightarrow> ('k \<times> 'v option) list reader" where
  "readObject_map rd castk castv m inp =
     andThen (readArrayLength inp) (\<lambda>(len, i1).
       if sint len < 0 then Inl StdLengthError
       else read_map_loop (nat (sint len)) rd castk castv m i1)"

definition writeObject_set :: "('a \<Rightarrow> writer) \<Rightarrow> 'a list \<Rightarrow> writer" where
  "writeObject_set wr s out =
     andThen (writeArrayLen (of_nat (length s)) out) (write_all wr s)"

definition set_insert :: "'a \<Rightarrow> 'a list \<Rightarrow> 'a list" where
  "set_insert x s = (if x \<in> set s then s else s @ [x])"

fun read_set_loop :: "nat \<Rightarrow> 'o option reader \<Rightarrow> ('o \<Rightarrow> 'k option) \<Rightarrow> 'k list \<Rightarrow> 'k list reader" where
  "read_set_loop 0 rd castk s inp = Inr (s, inp)"
| "read_set_loop (Suc n) rd castk s inp =
     andThen (rd inp) (\<lambda>(key, i1).
       case Option.bind key castk of
         None \<Rightarrow> Inl MemoryFault
       | Some k \<Rightarrow> read_set_loop n rd castk (set_insert k s) i1)"

definition readObject_set :: "'o option reader \<Rightarrow> ('o \<Rightarrow> 'k option) \<Rightarrow> 'k list \<Rightarrow> 'k list reader" where
  "readObject_set rd castk s inp =
     andThen (readArrayLength inp) (\<lambda>(len, i1).
       if 0 < sint len then read_set_loop (nat (sint len)) rd castk s i1 else Inr (s, i1))"

section \<open>Objects and their registry\<close>

text \<open>
  The objects of the primitive key types whose equality is that of their values. \<open>OtherObject\<close> is an
  object of any other class, of the library or of the application: \<open>write_other\<close> and
  \<open>read_other\<close> stand for what the registry does with it, the second after the type code has
  been read, and \<open>other_key\<close> for whether its class derives from \<open>CacheableKey\<close>.
\<close>

datatype 'o serializable =
    CacheableBoolean bool
  | CacheableCharacter u16
  | CacheableByte byte
  | CacheableInt16 u16
  | CacheableInt32 u32
  | CacheableInt64 u64
  | OtherObject 'o

fun getDsCode :: "'o serializable \<Rightarrow> byte" where
  "getDsCode (CacheableBoolean v) = 53"
| "getDsCode (CacheableCharacter v) = 54"
| "getDsCode (CacheableByte v) = 55"
| "getDsCode (CacheableInt16 v) = 56"
| "getDsCode (CacheableInt32 v) = 57"
| "getDsCode (CacheableInt64 v) = 58"
| "getDsCode (OtherObject x) = 0"

fun toData_primitive :: "'o serializable \<Rightarrow> writer" where
  "toData_primitive (CacheableBoolean v) out = writeBoolean v out"
| "toData_primitive (CacheableCharacter v) out = writeInt16 v out"
| "toData_primitive (CacheableByte v) out = write_byte v out"
| "toData_primitive (CacheableInt16 v) out = writeInt16 v out"
| "toData_primitive (CacheableInt32 v) out = writeInt32 v out"
| "toData_primitive (CacheableInt64 v) out = writeInt64 v out"
| "toData_primitive (OtherObject x) out = Inr out"

definition serialize_registry :: "('o \<Rightarrow> writer) \<Rightarrow> 'o serializable option \<Rightarrow> writer" where
  "serialize_registry write_other obj out =
     (case obj of
        None \<Rightarrow> write_byte 41 out
      | Some (OtherObject x) \<Rightarrow> write_other x out
      | Some o1 \<Rightarrow> andThen (write_byte (getDsCode o1) out) (toData_primitive o1))"

definition deserialize_registry :: "(byte \<Rightarrow> 'o serializable option reader) \<Rightarrow> 'o serializable option reader" where
  "deserialize_registry read_other inp =
     andThen (read_byte inp) (\<lambda>(dsCode, i1).
       if dsCode = 41 then Inr (None, i1)
       else if dsCode = 53 then andThen (readBoolean i1) (\<lambda>(v, i2). Inr (Some (CacheableBoolean v), i2))
       else if dsCode = 54 then andThen (readInt16 i1) (\<lambda>(v, i2). Inr (Some (CacheableCharacter v), i2))
       else if dsCode = 55 then andThen (read_byte i1) (\<lambda>(v, i2). Inr (Some (CacheableByte v), i2))
       else if dsCode = 56 then andThen (readInt16 i1) (\<lambda>(v, i2). Inr (Some (CacheableInt16 v), i2))
       else if dsCode = 57 then andThen (readInt32 i1) (\<lambda>(v, i2). Inr (Some (CacheableInt32 v), i2))
       else if dsCode = 58 then andThen (readInt64 i1) (\<lambda>(v, i2). Inr (Some (CacheableInt64 v), i2))
       else read_other dsCode i1)"

text \<open>\<open>dynamic_pointer_cast<CacheableKey>\<close>; a cast to \<open>Cacheable\<close>, which is \<open>Serializable\<close>, is \<open>Some\<close>.\<close>

fun as_key :: "('o \<Rightarrow> bool) \<Rightarrow> 'o serializable \<Rightarrow> 'o serializable option" where
  "as_key other_key (OtherObject x) = (if other_key x then Some (OtherObject x) else None)"
| "as_key other_key o1 = Some o1"

fun primitive :: "'o serializable \<Rightarrow> bool" where
  "primitive (OtherObject x) = False"
| "primitive _ = True"

fun primitive_bytes :: "'o serializable \<Rightarrow> byte list" where
  "primitive_bytes (CacheableBoolean v) = [if v then 1 else 0]"
| "primitive_bytes (CacheableCharacter v) = bytes16 v"
| "primitive_bytes (CacheableByte v) = [v]"
| "primitive_bytes (CacheableInt16 v) = bytes16 v"
| "primitive_bytes (CacheableInt32 v) = bytes32 v"
| "primitive_bytes (CacheableInt64 v) = bytes64 v"
| "primitive_bytes (OtherObject x) = []"

definition object_bytes :: "'o serializable option \<Rightarrow> byte list" where
  "object_bytes obj = (case obj of None \<Rightarrow> [41] | Some o1 \<Rightarrow> getDsCode o1 # primitive_bytes o1)"

section \<open>Reading back what was written\<close>

text \<open>
  A \<open>DataInput\<close> over the bytes an output holds, positioned at the length the output had
  at some earlier moment, with arbitrary memory behind them.
\<close>

definition input_at :: "nat \<Rightarrow> data_output \<Rightarrow> byte list \<Rightarrow> data_input" where
  "input_at start out rest =
     advanceCursor start (new_DataInput (getBufferCopy out @ rest) (getBufferLength out + length rest))"

text \<open>
  The writer succeeds, appends exactly \<open>bs\<close> to what was written before, and the reader
  started where the writer started returns \<open>x\<close> and stops where the writer stopped,
  whatever follows.
\<close>

definition reads_back :: "writer \<Rightarrow> byte list \<Rightarrow> 'a reader \<Rightarrow> 'a \<Rightarrow> data_output \<Rightarrow> bool" where
  "reads_back f bs r x out \<longleftrightarrow>
     (\<exists>o1. f out = Inr o1 \<and> out_inv o1 \<and> getBufferCopy o1 = getBufferCopy out @ bs \<and>
        (\<forall>rest. getBufferLength o1 + length rest < 2 ^ 63 \<longrightarrow>
           r (input_at (getBufferLength out) o1 rest) = Inr (x, input_at (getBufferLength o1) o1 rest)))"

lemma input_at_unread:
  assumes "out_inv o1" "getBufferCopy o1 = getBufferCopy out @ bs" "out_inv out"
    "getBufferLength o1 + length rest < 2 ^ 63"
  shows "in_inv (input_at (getBufferLength out) o1 rest)"
    "unread (input_at (getBufferLength out) o1 rest) = bs @ rest"
    "advanceCursor (length bs) (input_at (getBufferLength out) o1 rest) = input_at (getBufferLength o1) o1 rest"
proof -
  have l: "getBufferLength o1 = getBufferLength out + length bs"
    using assms(1-3) length_getBufferCopy[of o1] length_getBufferCopy[of out]
    by (simp add: getBufferLength_def)
  have n: "length (getBufferCopy out) = getBufferLength out"
    using assms(3) length_getBufferCopy[of out] by (simp add: getBufferLength_def)
  show "in_inv (input_at (getBufferLength out) o1 rest)"
    using assms l n by (simp add: input_at_def in_inv_def new_DataInput_def advanceCursor_def)
  show "unread (input_at (getBufferLength out) o1 rest) = bs @ rest"
    using assms l n by (simp add: input_at_def unread_def new_DataInput_def advanceCursor_def)
  show "advanceCursor (length bs) (input_at (getBufferLength out) o1 rest) = input_at (getBufferLength o1) o1 rest"
    using l by (simp add: input_at_def)
qed

lemma appends_consumes_roundtrip:
  assumes f: "appends f bs" and r: "consumes r bs x" and out: "out_inv out" and mem: "ample (length bs) out"
  shows "reads_back f bs r x out"
proof (cases "f out")
  case (Inl e)
  with appendsD(6)[OF f out _ Inl] mem show ?thesis by (auto simp: ample_def)
next
  case (Inr o1)
  have fit: "m_buf out + length bs \<le> max_output" using mem by (simp add: ample_def)
  note d = appendsD(1,2)[OF f out fit Inr]
  have "r (input_at (getBufferLength out) o1 rest) = Inr (x, input_at (getBufferLength o1) o1 rest)"
    if "getBufferLength o1 + length rest < 2 ^ 63" for rest
    using consumesD[OF r input_at_unread(1,2)[OF d out that]] input_at_unread(3)[OF d out that] by simp
  with Inr d show ?thesis unfolding reads_back_def by blast
qed

section \<open>The interface of a serialisable type\<close>

locale codec =
  fixes dom :: "'a \<Rightarrow> bool" and emit :: "'a \<Rightarrow> writer" and enc :: "'a \<Rightarrow> byte list" and parse :: "'a reader"
  assumes emit_appends: "dom x \<Longrightarrow> appends (emit x) (enc x)"
    and parse_consumes: "dom x \<Longrightarrow> consumes parse (enc x) x"
begin

lemma roundtrip:
  assumes "dom x" "out_inv out" "ample (length (enc x)) out"
  shows "reads_back (emit x) (enc x) parse x out"
  by (rule appends_consumes_roundtrip[OF emit_appends[OF assms(1)] parse_consumes[OF assms(1)] assms(2,3)])

text \<open>Unambiguity: two values whose encodings start the same byte stream are equal.\<close>

lemma enc_prefix_free:
  assumes "dom x" "dom y" "enc x @ rest = enc y @ rest'" "length (enc x @ rest) < 2 ^ 63"
  shows "x = y"
proof -
  let ?i = "new_DataInput (enc x @ rest) (length (enc x @ rest))"
  have "in_inv ?i" "unread ?i = enc x @ rest"
    using assms(4) by (simp_all add: in_inv_def unread_def new_DataInput_def)
  with consumesD[OF parse_consumes[OF assms(1)]] consumesD[OF parse_consumes[OF assms(2)]] assms(3)
  show ?thesis by (metis Pair_inject sum.inject(2))
qed

lemma appends_write_all:
  "\<forall>x\<in>set xs. dom x \<Longrightarrow> appends (write_all emit xs) (concat (map enc xs))"
proof (induction xs)
  case Nil
  have "write_all emit [] = Inr" by (rule ext) simp
  then show ?case by simp
next
  case (Cons x xs)
  have "write_all emit (x # xs) = (\<lambda>out. andThen (emit x out) (write_all emit xs))"
    by (rule ext) simp
  with appends_andThen[OF emit_appends Cons.IH] Cons.prems show ?case by simp
qed

lemma appends_writeArrayObject:
  assumes "\<forall>x\<in>set xs. dom x"
  shows "appends (writeArrayObject emit xs) (arrayLen_bytes (of_nat (length xs)) @ concat (map enc xs))"
  unfolding writeArrayObject_def[abs_def]
  by (rule appends_andThen[OF appends_writeArrayLen appends_write_all[OF assms]])

lemma consumes_readArrayObject:
  assumes "\<forall>x\<in>set xs. dom x" "length xs < 2 ^ 31"
  shows "consumes (readArrayObject parse) (arrayLen_bytes (of_nat (length xs)) @ concat (map enc xs)) xs"
  using consumes_readArray[of xs parse enc] parse_consumes assms
  by (simp add: readArrayObject_def[abs_def] readArray_def[abs_def])

lemma vector_codec:
  "codec (\<lambda>xs. (\<forall>x\<in>set xs. dom x) \<and> length xs < 2 ^ 31) (writeArrayObject emit)
     (\<lambda>xs. arrayLen_bytes (of_nat (length xs)) @ concat (map enc xs)) (readArrayObject parse)"
  by unfold_locales (auto intro: appends_writeArrayObject consumes_readArrayObject)

end

text \<open>
  The hashed containers over an object codec: \<open>upk\<close> and \<open>upv\<close> embed the element types into
  the objects, and the casts take them back.
\<close>

locale object_containers = object: codec dom emit enc parse
  for dom :: "'o option \<Rightarrow> bool" and emit enc parse +
  fixes domk :: "'k \<Rightarrow> bool" and upk :: "'k \<Rightarrow> 'o" and castk :: "'o \<Rightarrow> 'k option"
    and domv :: "'v option \<Rightarrow> bool" and upv :: "'v \<Rightarrow> 'o" and castv :: "'o \<Rightarrow> 'v option"
  assumes key_dom: "domk k \<Longrightarrow> dom (Some (upk k))" and key_cast: "domk k \<Longrightarrow> castk (upk k) = Some k"
    and val_dom: "domv v \<Longrightarrow> dom (map_option upv v)"
    and val_cast: "domv v \<Longrightarrow> Option.bind (map_option upv v) castv = v"
begin

abbreviation "emit_key \<equiv> \<lambda>k. emit (Some (upk k))"
abbreviation "emit_val \<equiv> \<lambda>v. emit (map_option upv v)"
abbreviation "enc_key \<equiv> \<lambda>k. enc (Some (upk k))"
abbreviation "enc_pair \<equiv> \<lambda>(k, v). enc (Some (upk k)) @ enc (map_option upv v)"

lemma consumes_key: "domk k \<Longrightarrow> consumes parse (enc_key k) (Some (upk k))"
  by (rule object.parse_consumes[OF key_dom])

lemma consumes_val: "domv v \<Longrightarrow> consumes parse (enc (map_option upv v)) (map_option upv v)"
  by (rule object.parse_consumes[OF val_dom])

lemma consumes_read_set_loop:
  assumes "\<forall>x\<in>set xs. domk x" "distinct (s @ xs)"
  shows "consumes (read_set_loop (length xs) parse castk s) (concat (map enc_key xs)) (s @ xs)"
  using assms
proof (induction xs arbitrary: s)
  case Nil
  show ?case by (simp add: consumes_def)
next
  case (Cons x xs)
  have ins: "set_insert x s = s @ [x]" using Cons.prems(2) by (simp add: set_insert_def)
  define k where "k = (\<lambda>key i1. case Option.bind key castk of None \<Rightarrow> Inl MemoryFault
      | Some k \<Rightarrow> read_set_loop (length xs) parse castk (set_insert k s) i1)"
  have eta: "read_set_loop (length (x # xs)) parse castk s = (\<lambda>inp. andThen (parse inp) (\<lambda>(key, i1). k key i1))"
    by (rule ext) (simp add: k_def)
  have "k (Some (upk x)) = read_set_loop (length xs) parse castk (s @ [x])"
    using key_cast[of x] Cons.prems(1) by (simp add: k_def ins)
  with Cons.IH[of "s @ [x]"] Cons.prems
  have "consumes (k (Some (upk x))) (concat (map enc_key xs)) (s @ x # xs)" by simp
  from consumes_bind[OF consumes_key, where k = k, OF _ this] Cons.prems(1) show ?case unfolding eta by simp
qed

lemma appends_write_all_keys:
  assumes "\<forall>x\<in>set xs. domk x"
  shows "appends (write_all emit_key xs) (concat (map enc_key xs))"
  using assms
proof (induction xs)
  case Nil
  have "write_all emit_key [] = Inr" by (rule ext) simp
  then show ?case by simp
next
  case (Cons x xs)
  have "write_all emit_key (x # xs) = (\<lambda>out. andThen (emit_key x out) (write_all emit_key xs))"
    by (rule ext) simp
  with appends_andThen[OF object.emit_appends[OF key_dom] Cons.IH] Cons.prems show ?case by simp
qed

lemma unordered_set_codec:
  "codec (\<lambda>xs. (\<forall>x\<in>set xs. domk x) \<and> distinct xs \<and> length xs < 2 ^ 31) (writeObject_set emit_key)
     (\<lambda>xs. arrayLen_bytes (of_nat (length xs)) @ concat (map enc_key xs)) (readObject_set parse castk [])"
proof
  fix xs assume d: "(\<forall>x\<in>set xs. domk x) \<and> distinct xs \<and> length xs < 2 ^ 31"
  let ?n = "of_nat (length xs) :: u32"
  show "appends (writeObject_set emit_key xs) (arrayLen_bytes ?n @ concat (map enc_key xs))"
    unfolding writeObject_set_def[abs_def]
    by (rule appends_andThen[OF appends_writeArrayLen appends_write_all_keys]) (use d in simp)
  have n: "sint ?n = int (length xs)" using d by (intro sint_of_nat_u32) simp
  define k where "k = (\<lambda>(len :: u32) i1.
    if 0 < sint len then read_set_loop (nat (sint len)) parse castk [] i1 else Inr ([], i1))"
  have "consumes (k ?n) (concat (map enc_key xs)) xs"
  proof (cases "xs = []")
    case True
    then show ?thesis by (simp add: k_def consumes_def)
  next
    case False
    with consumes_read_set_loop[of xs "[]"] d show ?thesis by (simp add: k_def n)
  qed
  with consumes_bind[OF consumes_readArrayLength, of ?n k] n
  show "consumes (readObject_set parse castk []) (arrayLen_bytes ?n @ concat (map enc_key xs)) xs"
    by (simp add: readObject_set_def[abs_def] k_def)
qed

lemma appends_write_pairs:
  assumes "\<forall>(k, v)\<in>set m. domk k \<and> domv v"
  shows "appends (write_all (\<lambda>(k, v) o1. andThen (emit_key k o1) (emit_val v)) m) (concat (map enc_pair m))"
  using assms
proof (induction m)
  case Nil
  have "write_all (\<lambda>(k, v) o1. andThen (emit_key k o1) (emit_val v)) [] = Inr" by (rule ext) simp
  then show ?case by simp
next
  case (Cons p m)
  obtain k v where p: "p = (k, v)" by (cases p)
  let ?w = "write_all (\<lambda>(k, v) o1. andThen (emit_key k o1) (emit_val v))"
  have eta: "?w (p # m) = (\<lambda>out. andThen (andThen (emit_key k out) (emit_val v)) (?w m))"
    by (rule ext) (simp add: p)
  have "appends (\<lambda>out. andThen (emit_key k out) (emit_val v)) (enc_pair p)"
    using appends_andThen[OF object.emit_appends[OF key_dom] object.emit_appends[OF val_dom]] Cons.prems
    by (simp add: p)
  from appends_andThen[OF this Cons.IH] Cons.prems show ?case unfolding eta by simp
qed

lemma consumes_read_map_loop:
  assumes "\<forall>(k, v)\<in>set m. domk k \<and> domv v" "al_wf (m0 @ m)"
  shows "consumes (read_map_loop (length m) parse castk castv m0) (concat (map enc_pair m)) (m0 @ m)"
  using assms
proof (induction m arbitrary: m0)
  case Nil
  show ?case by (simp add: consumes_def)
next
  case (Cons p m)
  obtain k v where p: "p = (k, v)" by (cases p)
  from Cons.prems(1) p have d: "domk k" "domv v" by simp_all
  have ins: "al_emplace k v m0 = m0 @ [(k, v)]"
    using Cons.prems(2) by (auto simp: al_emplace_def al_wf_def p al_find_None_iff[THEN iffD2] split: option.splits)
  define h where "h = (\<lambda>key val i2. case Option.bind key castk of None \<Rightarrow> Inl MemoryFault
      | Some k \<Rightarrow> read_map_loop (length m) parse castk castv (al_emplace k (Option.bind val castv) m0) i2)"
  have eta: "read_map_loop (length (p # m)) parse castk castv m0 = (\<lambda>inp. andThen (parse inp) (\<lambda>(key, i1).
      andThen (parse i1) (\<lambda>(val, i2). h key val i2)))"
    by (rule ext) (simp add: h_def)
  have "h (Some (upk k)) (map_option upv v) = read_map_loop (length m) parse castk castv (m0 @ [(k, v)])"
    using key_cast[OF d(1)] val_cast[OF d(2)] by (simp add: h_def ins)
  with Cons.IH[of "m0 @ [(k, v)]"] Cons.prems
  have "consumes (h (Some (upk k)) (map_option upv v)) (concat (map enc_pair m)) (m0 @ p # m)" by (simp add: p)
  from consumes_bind[OF consumes_key[OF d(1)], where k = "\<lambda>key i1. andThen (parse i1) (\<lambda>(val, i2). h key val i2)",
      OF consumes_bind[OF consumes_val[OF d(2)], where k = "h (Some (upk k))", OF this]]
  show ?case unfolding eta by (simp add: p)
qed

lemma unordered_map_codec:
  "codec (\<lambda>m. (\<forall>(k, v)\<in>set m. domk k \<and> domv v) \<and> al_wf m \<and> length m < 2 ^ 31) (writeObject_map emit_key emit_val)
     (\<lambda>m. arrayLen_bytes (of_nat (length m)) @ concat (map enc_pair m)) (readObject_map parse castk castv [])"
proof
  fix m assume d: "(\<forall>(k, v)\<in>set m. domk k \<and> domv v) \<and> al_wf m \<and> length m < 2 ^ 31"
  let ?n = "of_nat (length m) :: u32"
  show "appends (writeObject_map emit_key emit_val m) (arrayLen_bytes ?n @ concat (map enc_pair m))"
    unfolding writeObject_map_def[abs_def]
    by (rule appends_andThen[OF appends_writeArrayLen appends_write_pairs]) (use d in auto)
  have n: "sint ?n = int (length m)" using d by (intro sint_of_nat_u32) simp
  define k where "k = (\<lambda>(len :: u32) i1.
    if sint len < 0 then Inl StdLengthError else read_map_loop (nat (sint len)) parse castk castv [] i1)"
  have "consumes (k ?n) (concat (map enc_pair m)) m"
    using consumes_read_map_loop[of m "[]"] d by (simp add: k_def n)
  with consumes_bind[OF consumes_readArrayLength, of ?n k] n
  show "consumes (readObject_map parse castk castv []) (arrayLen_bytes ?n @ concat (map enc_pair m)) m"
    by (simp add: readObject_map_def[abs_def] k_def)
qed

end

section \<open>The codecs of the program\<close>

interpretation byte_codec: codec "\<lambda>_. True" write_byte "\<lambda>b. [b]" read_byte
  by unfold_locales (simp_all add: appends_write_byte consumes_read_byte)

interpretation boolean_codec: codec "\<lambda>_. True" writeBoolean "\<lambda>v. [if v then 1 else 0]" readBoolean
  by unfold_locales (simp_all only: appends_writeBoolean consumes_readBoolean)

interpretation int16_codec: codec "\<lambda>_. True" writeInt16 bytes16 readInt16
  by unfold_locales (simp_all add: appends_writeInt16 consumes_readInt16)

interpretation int32_codec: codec "\<lambda>_. True" writeInt32 bytes32 readInt32
  by unfold_locales (simp_all add: appends_writeInt32 consumes_readInt32)

interpretation int64_codec: codec "\<lambda>_. True" writeInt64 bytes64 readInt64
  by unfold_locales (simp_all add: appends_writeInt64 consumes_readInt64)

interpretation double_codec: codec "\<lambda>_. True" writeDouble bytes64 readDouble
  by unfold_locales (simp_all add: writeDouble_def appends_writeInt64 consumes_readDouble)

interpretation arrayLen_codec: codec "\<lambda>len. -1 \<le> sint len" writeArrayLen arrayLen_bytes readArrayLength
  by unfold_locales (simp_all add: appends_writeArrayLen consumes_readArrayLength)

interpretation utf_codec: codec "\<lambda>cs. jm_encodedLength cs \<le> 0xFFFF" "\<lambda>cs. writeUTF (Some cs)" utf_bytes readUTF
  by unfold_locales
    (simp_all add: writeUTF_def[abs_def] readUTF_def appends_writeJavaModifiedUtf8 consumes_readJavaModifiedUtf8)

interpretation string_codec: codec "\<lambda>cs. length cs \<le> 0xFFFFFFFF" "\<lambda>cs. writeString (Some cs)"
  "\<lambda>cs. string_bytes (Some cs)" readString
proof
  fix cs :: "u16 list" assume len: "length cs \<le> 0xFFFFFFFF"
  with appends_writeString[of "Some cs"] show "appends (writeString (Some cs)) (string_bytes (Some cs))"
    by simp
  from len consumes_readString[of "Some cs"] show "consumes readString (string_bytes (Some cs)) cs"
    by simp
qed

text \<open>What \<open>readBytes\<close> reports for a byte array: an empty one is a null pointer.\<close>

definition byteArray_value :: "byte list \<Rightarrow> byte list option \<times> u32" where
  "byteArray_value bs = (if bs = [] then None else Some bs, of_nat (length bs))"

text \<open>The registry reads back the primitive objects and null pointers it writes.\<close>

lemma appends_toData_primitive: "primitive o1 \<Longrightarrow> appends (toData_primitive o1) (primitive_bytes o1)"
proof (cases o1)
  case (CacheableBoolean v)
  then have "toData_primitive o1 = writeBoolean v" by (intro ext) simp
  with CacheableBoolean show ?thesis using appends_writeBoolean[of v] by simp
next
  case (CacheableCharacter v)
  then have "toData_primitive o1 = writeInt16 v" by (intro ext) simp
  with CacheableCharacter show ?thesis using appends_writeInt16[of v] by simp
next
  case (CacheableByte v)
  then have "toData_primitive o1 = write_byte v" by (intro ext) simp
  with CacheableByte show ?thesis using appends_write_byte[of v] by simp
next
  case (CacheableInt16 v)
  then have "toData_primitive o1 = writeInt16 v" by (intro ext) simp
  with CacheableInt16 show ?thesis using appends_writeInt16[of v] by simp
next
  case (CacheableInt32 v)
  then have "toData_primitive o1 = writeInt32 v" by (intro ext) simp
  with CacheableInt32 show ?thesis using appends_writeInt32[of v] by simp
next
  case (CacheableInt64 v)
  then have "toData_primitive o1 = writeInt64 v" by (intro ext) simp
  with CacheableInt64 show ?thesis using appends_writeInt64[of v] by simp
qed simp

lemma appends_serialize_registry:
  assumes "pred_option primitive obj"
  shows "appends (serialize_registry write_other obj) (object_bytes obj)"
proof (cases obj)
  case None
  then have "serialize_registry write_other obj = write_byte 41"
    by (intro ext) (simp add: serialize_registry_def)
  with None show ?thesis using appends_write_byte[of 41] by (simp add: object_bytes_def)
next
  case (Some o1)
  with assms have p: "primitive o1" by simp
  then have "serialize_registry write_other obj =
      (\<lambda>out. andThen (write_byte (getDsCode o1) out) (toData_primitive o1))"
    by (intro ext, cases o1) (simp_all add: serialize_registry_def Some)
  with appends_andThen[OF appends_write_byte[of "getDsCode o1"] appends_toData_primitive[OF p]]
  show ?thesis by (simp add: object_bytes_def Some)
qed

lemma consumes_deserialize_registry:
  assumes "pred_option primitive obj"
  shows "consumes (deserialize_registry read_other) (object_bytes obj) obj"
proof -
  define k where "k = (\<lambda>(dsCode :: byte) i1.
       if dsCode = 41 then Inr (None, i1)
       else if dsCode = 53 then andThen (readBoolean i1) (\<lambda>(v, i2). Inr (Some (CacheableBoolean v), i2))
       else if dsCode = 54 then andThen (readInt16 i1) (\<lambda>(v, i2). Inr (Some (CacheableCharacter v), i2))
       else if dsCode = 55 then andThen (read_byte i1) (\<lambda>(v, i2). Inr (Some (CacheableByte v), i2))
       else if dsCode = 56 then andThen (readInt16 i1) (\<lambda>(v, i2). Inr (Some (CacheableInt16 v), i2))
       else if dsCode = 57 then andThen (readInt32 i1) (\<lambda>(v, i2). Inr (Some (CacheableInt32 v), i2))
       else if dsCode = 58 then andThen (readInt64 i1) (\<lambda>(v, i2). Inr (Some (CacheableInt64 v), i2))
       else read_other dsCode i1)"
  have eta: "deserialize_registry read_other = (\<lambda>inp. andThen (read_byte inp) (\<lambda>(c, i1). k c i1))"
    by (rule ext) (simp add: deserialize_registry_def k_def)
  show ?thesis
  proof (cases obj)
    case None
    have "consumes (k 41) [] None" by (simp add: k_def consumes_return)
    from consumes_bind[OF consumes_read_byte, where k = k, OF this] show ?thesis by (simp add: eta object_bytes_def None)
  next
    case (Some o1)
    from assms Some have "primitive o1" by simp
    then have "consumes (k (getDsCode o1)) (primitive_bytes o1) (Some o1)"
      by (cases o1)
        (simp_all add: k_def del: if_split
          add: consumes_map[OF consumes_readBoolean, where f = "\<lambda>v. Some (CacheableBoolean v)"]
            consumes_map[OF consumes_readInt16, where f = "\<lambda>v. Some (CacheableCharacter v)"]
            consumes_map[OF consumes_read_byte, where f = "\<lambda>v. Some (CacheableByte v)"]
            consumes_map[OF consumes_readInt16, where f = "\<lambda>v. Some (CacheableInt16 v)"]
            consumes_map[OF consumes_readInt32, where f = "\<lambda>v. Some (CacheableInt32 v)"]
            consumes_map[OF consumes_readInt64, where f = "\<lambda>v. Some (CacheableInt64 v)"])
    from consumes_bind[OF consumes_read_byte, where k = k, OF this] show ?thesis by (simp add: eta object_bytes_def Some)
  qed
qed

interpretation registry: object_containers "pred_option primitive" "serialize_registry write_other" object_bytes
  "deserialize_registry read_other" primitive "\<lambda>k. k" "as_key other_key" "pred_option primitive" "\<lambda>v. v" Some
  for write_other read_other other_key
proof
  show "as_key other_key k = Some k" if "primitive k" for k :: "'a serializable"
    using that by (cases k) simp_all
qed (simp_all add: appends_serialize_registry consumes_deserialize_registry option.map_ident)

text \<open>The wire form of a hash map.\<close>

definition map_bytes :: "('o serializable \<times> 'o serializable option) list \<Rightarrow> byte list" where
  "map_bytes m = arrayLen_bytes (of_nat (length m)) @ concat (map (\<lambda>(k, v). object_bytes (Some k) @ object_bytes v) m)"

section \<open>Properties\<close>

text \<open>
  C4. Strings read back: for every UTF-16 string, whichever of the four wire forms
  \<open>writeString\<close> picks (short or huge, ASCII or not), \<open>readString\<close> returns the
  same string and stops right behind it.
\<close>

theorem writeString_readString:
  assumes "length cs \<le> 0xFFFFFFFF" "out_inv out" "ample (length (string_bytes (Some cs))) out"
  shows "reads_back (writeString (Some cs)) (string_bytes (Some cs)) readString cs out"
  using string_codec.roundtrip[OF assms] .

theorem writeString_readString_witness:
  "reads_back (writeString (Some [0x41, 0xE9, 0])) [42, 0, 5, 0x41, 0xC3, 0xA9, 0xC0, 0x80]
     readString [0x41, 0xE9, 0] fresh_output"
proof -
  have "string_bytes (Some [0x41, 0xE9, 0]) = [42, 0, 5, 0x41, 0xC3, 0xA9, 0xC0, 0x80]"
    by (simp add: wire_defs)
  with writeString_readString[of "[0x41, 0xE9, 0]" fresh_output] show ?thesis by simp
qed

text \<open>
  \<open>writeUTF\<close> and \<open>readUTF\<close> are inverse for every string whose modified UTF-8
  form fits the 16-bit length prefix.
\<close>

lemma writeUTF_readUTF:
  assumes "jm_encodedLength cs \<le> 0xFFFF" "out_inv out" "ample (length (utf_bytes cs)) out"
  shows "reads_back (writeUTF (Some cs)) (utf_bytes cs) readUTF cs out"
  using utf_codec.roundtrip[OF assms] .

text \<open>
  Array lengths read back, through all four forms of the code: the null marker, one
  byte, two bytes and four bytes behind a tag.
\<close>

lemma writeArrayLen_readArrayLength:
  assumes "-1 \<le> sint len" "out_inv out" "ample (length (arrayLen_bytes len)) out"
  shows "reads_back (writeArrayLen len) (arrayLen_bytes len) readArrayLength len out"
  using arrayLen_codec.roundtrip[OF assms] .

text \<open>
  A byte array written by \<open>writeBytes\<close> is read back by \<open>readBytes\<close> with its
  length, an empty one as a null pointer with length zero.
\<close>

lemma writeBytes_readBytes:
  assumes "length bs < 2 ^ 31 - 5" "out_inv out" "ample (length (byteArray_bytes bs)) out"
  shows "reads_back (writeBytes (Some bs) (of_nat (length bs))) (byteArray_bytes bs)
    readBytes (byteArray_value bs) out"
  unfolding byteArray_value_def
  by (rule appends_consumes_roundtrip[OF appends_writeBytes consumes_readBytes]) (use assms in simp_all)

text \<open>
  A vector of 64-bit integers written element by element is read back whole: same
  elements, same order, nothing left over.
\<close>

lemma writeArrayObject_readArrayObject:
  assumes "length xs < 2 ^ 31" "out_inv out"
    "ample (length (arrayLen_bytes (of_nat (length xs)) @ concat (map bytes64 xs))) out"
  shows "reads_back (writeArrayObject writeInt64 xs)
    (arrayLen_bytes (of_nat (length xs)) @ concat (map bytes64 xs)) (readArrayObject readInt64) xs out"
  by (rule codec.roundtrip[OF int64_codec.vector_codec]) (use assms in simp_all)


definition small_hash_map :: "(unit serializable \<times> unit serializable option) list" where
  "small_hash_map = [(CacheableInt32 1, Some (CacheableBoolean True)), (CacheableInt16 2, None)]"


text \<open>
  The map reader does not accept the null marker that the vector and set readers
  accept: a length of \<open>-1\<close> makes \<open>reserve\<close> throw, where the other two return an
  empty container.
\<close>

lemma readObject_map_null:
  assumes "in_inv inp" "unread inp = 0xFF # rest"
  shows "readObject_map ro castk castv m inp = Inl StdLengthError \<and>
    readObject_set ro castk s inp = Inr (s, advanceCursor 1 inp) \<and>
    readArrayObject rd inp = Inr ([], advanceCursor 1 inp)"
proof -
  have "readArrayLength inp = Inr (-1, advanceCursor 1 inp)"
    using consumesD[OF consumes_readArrayLength[of "-1"] assms(1)] assms(2)
    by (simp add: arrayLen_bytes_def)
  then show ?thesis
    by (simp add: readObject_map_def readObject_set_def readArrayObject_def)
qed

end
