(* ===== verification/Version_Stamp.thy ===== *)
theory Version_Stamp
  imports Data_Input "HOL-Library.Char_ord" "HOL-Library.List_Lexorder"
begin

unbundle bit_operations_syntax

text \<open>
  Concurrency versions of region entries: the members that make changes
  (\<open>ClientProxyMembershipID.cpp\<close>), the table that numbers them
  (\<open>MemberListForVersionStamp.cpp\<close>), the tag a server sends with a change
  (\<open>VersionTag.cpp\<close>) and the stamp an entry keeps with the conflict check that decides
  whether a change is applied (\<open>VersionStamp.cpp\<close>). The lemmas show that the check is
  a decision by version and member, and that two changes leave the same stamp in either
  order.
\<close>

section \<open>Members\<close>

record member =
  hostAddr :: "byte list"
  hostPort :: u32
  dsName :: string
  uniqueTag :: string
  vmViewId :: u32

text \<open>\<open>std::to_string\<close> of an unsigned number.\<close>

function to_string :: "nat \<Rightarrow> string" where
  "to_string n =
     (if n < 10 then [char_of (48 + n)] else to_string (n div 10) @ [char_of (48 + n mod 10)])"
  by pat_completeness auto
termination by (relation "measure id") auto

declare to_string.simps [simp del]

definition getHashKey :: "member \<Rightarrow> string" where
  "getHashKey m =
     concat (map (\<lambda>b. '':'' @ to_string (unat b)) (hostAddr m)) @
     '':'' @ to_string (unat (hostPort m)) @ '':'' @ dsName m @ '':'' @
     (if uniqueTag m \<noteq> [] then uniqueTag m else '':'' @ to_string (unat (vmViewId m)))"

text \<open>The loop over the bytes of this member's address, indexing the other's.\<close>

fun compare_addr :: "byte list \<Rightarrow> byte list \<Rightarrow> nat \<Rightarrow> nat \<Rightarrow> gf_exn + int" where
  "compare_addr my other i 0 = Inr 0"
| "compare_addr my other i (Suc n) =
     (if i < length my \<and> i < length other then
        (if my ! i < other ! i then Inr (-1)
         else if other ! i < my ! i then Inr 1
         else compare_addr my other (i + 1) n)
      else Inl MemoryFault)"

text \<open>\<open>same\<close> is the pointer comparison \<open>this == &other\<close>.\<close>

definition compareTo :: "bool \<Rightarrow> member \<Rightarrow> member \<Rightarrow> gf_exn + int" where
  "compareTo same m other =
     (if same then Inr 0
      else if hostPort m < hostPort other then Inr (-1)
      else if hostPort other < hostPort m then Inr 1
      else if hostAddr m = [] \<and> hostAddr other = [] then
        (if hostPort m < hostPort other then Inr (-1)
         else if hostPort other < hostPort m then Inr 1 else Inr 0)
      else if hostAddr m = [] then Inr (-1)
      else if hostAddr other = [] then Inr 1
      else
        andThen (compare_addr (hostAddr m) (hostAddr other) 0 (length (hostAddr m))) (\<lambda>c.
          if c \<noteq> 0 then Inr c
          else if uniqueTag m = [] \<and> uniqueTag other = [] then
            (if vmViewId m < vmViewId other then Inr (-1)
             else if vmViewId other < vmViewId m then Inr 1 else Inr 0)
          else if uniqueTag m = [] then Inr (-1)
          else if uniqueTag other = [] then Inr 1
          else if uniqueTag m < uniqueTag other then Inr (-1)
          else if uniqueTag other < uniqueTag m then Inr 1
          else Inr 0))"

section \<open>The member table\<close>

record member_list =
  m_members1 :: "(u32 \<times> member) list"
  m_members2 :: "(string \<times> (member \<times> u16)) list"
  m_memberCounter :: u32

definition new_MemberList :: member_list where
  "new_MemberList = \<lparr>m_members1 = [], m_members2 = [], m_memberCounter = 0\<rparr>"

definition add_member :: "member \<Rightarrow> member_list \<Rightarrow> u16 \<times> member_list" where
  "add_member m ml =
     (case al_find (m_members2 ml) (getHashKey m) of
        Some d \<Rightarrow> (snd d, ml)
      | None \<Rightarrow>
          let counter = m_memberCounter ml + 1 in
          (ucast counter,
           ml\<lparr>m_memberCounter := counter,
              m_members1 := al_assign counter m (m_members1 ml),
              m_members2 := al_assign (getHashKey m) (m, ucast counter) (m_members2 ml)\<rparr>))"

definition getDSMember :: "u16 \<Rightarrow> member_list \<Rightarrow> member option" where
  "getDSMember memberId ml = al_find (m_members1 ml) (ucast memberId)"

section \<open>Version tags\<close>

record version_tag =
  m_bits :: u16
  vt_entryVersion :: u32
  vt_regionVersionHighBytes :: u16
  vt_regionVersionLowBytes :: u32
  m_internalMemId :: u16
  m_previousMemId :: u16
  m_timeStamp :: u64

definition new_VersionTag :: "u32 \<Rightarrow> u16 \<Rightarrow> u32 \<Rightarrow> u16 \<Rightarrow> u16 \<Rightarrow> version_tag" where
  "new_VersionTag entryVersion high low internalMemId previousMemId =
     \<lparr>m_bits = 0, vt_entryVersion = entryVersion, vt_regionVersionHighBytes = high,
      vt_regionVersionLowBytes = low, m_internalMemId = internalMemId,
      m_previousMemId = previousMemId, m_timeStamp = 0\<rparr>"

definition replaceNullMemberId :: "u16 \<Rightarrow> version_tag \<Rightarrow> version_tag" where
  "replaceNullMemberId memId tag =
     (let tag1 = (if m_previousMemId tag = 0 then tag\<lparr>m_previousMemId := memId\<rparr> else tag)
      in if m_internalMemId tag1 = 0 then tag1\<lparr>m_internalMemId := memId\<rparr> else tag1)"

text \<open>\<open>readEssentialData\<close>, the reader of a member id, is a parameter.\<close>

definition readMembers ::
  "member reader \<Rightarrow> u16 \<Rightarrow> version_tag \<Rightarrow> member_list \<Rightarrow> (version_tag \<times> member_list) reader" where
  "readMembers readEssentialData flags tag ml inp =
     andThen
       (if flags AND 0x01 \<noteq> 0 then
          andThen (readEssentialData inp) (\<lambda>(m, i1).
            let (mid, ml1) = add_member m ml in Inr ((tag\<lparr>m_internalMemId := mid\<rparr>, ml1), i1))
        else Inr ((tag, ml), inp))
       (\<lambda>((tag1, ml1), i1).
          if flags AND 0x02 \<noteq> 0 then
            (if flags AND 0x08 \<noteq> 0
             then Inr ((tag1\<lparr>m_previousMemId := m_internalMemId tag1\<rparr>, ml1), i1)
             else
               andThen (readEssentialData i1) (\<lambda>(m, i2).
                 let (mid, ml2) = add_member m ml1 in Inr ((tag1\<lparr>m_previousMemId := mid\<rparr>, ml2), i2)))
          else Inr ((tag1, ml1), i1))"

definition fromData_VersionTag ::
  "member reader \<Rightarrow> version_tag \<Rightarrow> member_list \<Rightarrow> (version_tag \<times> member_list) reader" where
  "fromData_VersionTag readEssentialData tag ml inp =
     andThen (readInt16 inp) (\<lambda>(flags, i1).
     andThen (readInt16 i1) (\<lambda>(bits, i2).
     andThen (read_byte i2) (\<lambda>(dsid, i3).
     andThen (if flags AND 0x04 \<noteq> 0
              then andThen (readInt16 i3) (\<lambda>(v, i). Inr (scast v AND 0xffff, i))
              else readInt32 i3) (\<lambda>(version, i4).
     andThen (if flags AND 0x10 \<noteq> 0 then readInt16 i4
              else Inr (vt_regionVersionHighBytes tag, i4)) (\<lambda>(high, i5).
     andThen (readInt32 i5) (\<lambda>(low, i6).
     andThen (readUnsignedVL i6) (\<lambda>(time, i7).
       readMembers readEssentialData flags
         (tag\<lparr>m_bits := bits, vt_entryVersion := version, vt_regionVersionHighBytes := high,
              vt_regionVersionLowBytes := low, m_timeStamp := time\<rparr>) ml i7)))))))"

section \<open>Version stamps\<close>

record version_stamp =
  m_memberID :: u16
  m_entryVersionHighByte :: byte
  m_entryVersionLowBytes :: u16
  m_regionVersionHighBytes :: u16
  m_regionVersionLowBytes :: u32

definition new_VersionStamp :: version_stamp where
  "new_VersionStamp =
     \<lparr>m_memberID = 0, m_entryVersionHighByte = 0, m_entryVersionLowBytes = 0,
      m_regionVersionHighBytes = 0, m_regionVersionLowBytes = 0\<rparr>"

definition setVersions :: "version_tag \<Rightarrow> version_stamp \<Rightarrow> version_stamp" where
  "setVersions tag stamp =
     stamp\<lparr>m_entryVersionLowBytes := ucast (vt_entryVersion tag AND 0xffff),
           m_entryVersionHighByte := ucast (drop_bit 16 (vt_entryVersion tag AND 0xff0000)),
           m_regionVersionHighBytes := vt_regionVersionHighBytes tag,
           m_regionVersionLowBytes := vt_regionVersionLowBytes tag,
           m_memberID := m_internalMemId tag\<rparr>"

definition setVersions_stamp :: "version_stamp \<Rightarrow> version_stamp \<Rightarrow> version_stamp" where
  "setVersions_stamp other stamp =
     stamp\<lparr>m_entryVersionLowBytes := m_entryVersionLowBytes other,
           m_entryVersionHighByte := m_entryVersionHighByte other,
           m_regionVersionHighBytes := m_regionVersionHighBytes other,
           m_regionVersionLowBytes := m_regionVersionLowBytes other,
           m_memberID := m_memberID other\<rparr>"

definition getEntryVersion :: "version_stamp \<Rightarrow> u32" where
  "getEntryVersion stamp =
     push_bit 16 (ucast (m_entryVersionHighByte stamp)) OR ucast (m_entryVersionLowBytes stamp)"

definition getRegionVersion :: "version_stamp \<Rightarrow> u64" where
  "getRegionVersion stamp =
     push_bit 32 (ucast (m_regionVersionHighBytes stamp)) OR ucast (m_regionVersionLowBytes stamp)"

text \<open>Equal ids name the same object of the table, which is when \<open>compareTo\<close> returns at once.\<close>

definition checkForDeltaConflict :: "member_list \<Rightarrow> int \<Rightarrow> int \<Rightarrow> version_tag \<Rightarrow> version_stamp \<Rightarrow> gf_exn + gf_err" where
  "checkForDeltaConflict ml stampVersion tagVersion tag stamp =
     (if tagVersion \<noteq> stampVersion + 1 then Inr GF_INVALID_DELTA
      else
        (case getDSMember (m_memberID stamp) ml of
           None \<Rightarrow> Inr GF_INVALID_DELTA
         | Some stampID \<Rightarrow>
             (case getDSMember (m_previousMemId tag) ml of
                None \<Rightarrow> Inr GF_INVALID_DELTA
              | Some tagID \<Rightarrow>
                  andThen (compareTo (m_previousMemId tag = m_memberID stamp) tagID stampID) (\<lambda>c.
                    if c \<noteq> 0 then Inr GF_INVALID_DELTA else Inr GF_NOERR))))"

definition adjust_rollover :: "int \<Rightarrow> int \<Rightarrow> int \<times> int" where
  "adjust_rollover stampVersion tagVersion =
     (if stampVersion \<noteq> 0 then
        let difference = tagVersion - stampVersion in
        if 0x10000 < difference \<or> difference < -0x10000 then
          (if difference < 0 then (stampVersion, tagVersion + 0x100000000)
           else (stampVersion + 0x100000000, tagVersion))
        else (stampVersion, tagVersion)
      else (stampVersion, tagVersion))"

definition checkForConflict :: "member_list \<Rightarrow> version_tag \<Rightarrow> bool \<Rightarrow> version_stamp \<Rightarrow> gf_exn + gf_err" where
  "checkForConflict ml tag deltaCheck stamp =
     (if getEntryVersion stamp = 0 \<and> getRegionVersion stamp = 0 \<and> m_memberID stamp = 0
      then Inr GF_NOERR
      else if vt_entryVersion tag = 0 \<and> vt_regionVersionHighBytes tag = 0 \<and>
              vt_regionVersionLowBytes tag = 0 \<and> m_internalMemId tag = 0
      then Inr GF_NOERR
      else
        let (stampVersion, tagVersion) =
              adjust_rollover (uint (getEntryVersion stamp)) (uint (vt_entryVersion tag)) in
        andThen (if deltaCheck then checkForDeltaConflict ml stampVersion tagVersion tag stamp
                 else Inr GF_NOERR) (\<lambda>err.
          if err \<noteq> GF_NOERR then Inr err
          else if stampVersion = 0 \<or> stampVersion < tagVersion then Inr GF_NOERR
          else if tagVersion < stampVersion then Inr GF_CACHE_CONCURRENT_MODIFICATION_EXCEPTION
          else
            (case getDSMember (m_memberID stamp) ml of
               None \<Rightarrow> Inr GF_CACHE_ILLEGAL_STATE_EXCEPTION
             | Some stampID \<Rightarrow>
                 (case getDSMember (m_internalMemId tag) ml of
                    None \<Rightarrow> Inr GF_CACHE_ILLEGAL_STATE_EXCEPTION
                  | Some tagID \<Rightarrow>
                      andThen (compareTo (m_memberID stamp = m_internalMemId tag) stampID tagID) (\<lambda>c.
                        if c < 0 then Inr GF_NOERR
                        else if 0 < c then Inr GF_CACHE_CONCURRENT_MODIFICATION_EXCEPTION
                        else Inr GF_NOERR)))))"

definition processVersionTag :: "member_list \<Rightarrow> version_tag option \<Rightarrow> bool \<Rightarrow> version_stamp \<Rightarrow> gf_exn + gf_err" where
  "processVersionTag ml tag deltaCheck stamp =
     (case tag of
        None \<Rightarrow> Inr GF_CACHE_ILLEGAL_STATE_EXCEPTION
      | Some t \<Rightarrow> checkForConflict ml t deltaCheck stamp)"

section \<open>Invariants and specifications\<close>

text \<open>
  The two maps of the member table describe one numbering: the numbers are those from one
  to the counter, and a hash key maps to the number under which its member is stored.
\<close>

definition ml_inv :: "member_list \<Rightarrow> bool" where
  "ml_inv ml \<longleftrightarrow>
     (\<forall>n. al_find (m_members1 ml) n \<noteq> None \<longleftrightarrow> 0 < n \<and> n \<le> m_memberCounter ml) \<and>
     (\<forall>n m. al_find (m_members1 ml) n = Some m \<longrightarrow>
        (\<exists>d. al_find (m_members2 ml) (getHashKey m) = Some (d, ucast n))) \<and>
     (\<forall>h d i. al_find (m_members2 ml) h = Some (d, i) \<longrightarrow>
        getHashKey d = h \<and> al_find (m_members1 ml) (ucast i) = Some d)"

text \<open>The use an entry makes of the check: a change that passes it sets the stamp.\<close>

definition apply_tag :: "member_list \<Rightarrow> version_tag \<Rightarrow> version_stamp \<Rightarrow> version_stamp" where
  "apply_tag ml tag stamp =
     (if checkForConflict ml tag False stamp = Inr GF_NOERR then setVersions tag stamp else stamp)"

text \<open>A tag an entry can be stamped with: a version of at most 24 bits, not zero.\<close>

definition stampable :: "version_tag \<Rightarrow> bool" where
  "stampable tag \<longleftrightarrow> 0 < vt_entryVersion tag \<and> vt_entryVersion tag < 0x1000000"

text \<open>
  The layout of a serialised tag: flags, bits, the identifier of the distributed system, an
  entry version of two or four bytes, the optional high part and the low part of the region
  version, the time stamp, and up to two member ids whose bytes are \<open>mb\<close> and \<open>pb\<close>.
\<close>

definition tag_bytes ::
  "u16 \<Rightarrow> byte \<Rightarrow> version_tag \<Rightarrow> byte list \<Rightarrow> byte list \<Rightarrow> byte list" where
  "tag_bytes flags dsid t mb pb =
     bytes16 flags @ bytes16 (m_bits t) @ [dsid] @
     (if flags AND 0x04 \<noteq> 0 then bytes16 (ucast (vt_entryVersion t)) else bytes32 (vt_entryVersion t)) @
     (if flags AND 0x10 \<noteq> 0 then bytes16 (vt_regionVersionHighBytes t) else []) @
     bytes32 (vt_regionVersionLowBytes t) @ vl_bytes (m_timeStamp t) @
     (if flags AND 0x01 \<noteq> 0 then mb else []) @
     (if flags AND 0x02 \<noteq> 0 \<and> flags AND 0x08 = 0 then pb else [])"

text \<open>The numbers the member table gives the members of a tag.\<close>

definition tag_members :: "u16 \<Rightarrow> member \<Rightarrow> member \<Rightarrow> version_tag \<Rightarrow> member_list \<Rightarrow> version_tag \<times> member_list" where
  "tag_members flags m p tag ml =
     (let (tag1, ml1) = (if flags AND 0x01 \<noteq> 0
                         then (tag\<lparr>m_internalMemId := fst (add_member m ml)\<rparr>, snd (add_member m ml))
                         else (tag, ml))
      in if flags AND 0x02 = 0 then (tag1, ml1)
         else if flags AND 0x08 \<noteq> 0 then (tag1\<lparr>m_previousMemId := m_internalMemId tag1\<rparr>, ml1)
         else (tag1\<lparr>m_previousMemId := fst (add_member p ml1)\<rparr>, snd (add_member p ml1)))"

text \<open>Two members on one host, and the table that has numbered them.\<close>

definition member_a :: member where
  "member_a = \<lparr>hostAddr = [127, 0, 0, 1], hostPort = 40404, dsName = ''ds'', uniqueTag = ''a'', vmViewId = 0\<rparr>"

definition member_b :: member where
  "member_b = \<lparr>hostAddr = [127, 0, 0, 1], hostPort = 40405, dsName = ''ds'', uniqueTag = ''b'', vmViewId = 0\<rparr>"

definition two_members :: member_list where
  "two_members = snd (add_member member_b (snd (add_member member_a new_MemberList)))"

section \<open>Stamps hold the low 24 bits\<close>

lemma version_masks:
  "(0xffff :: u32) = mask 16" "(0xff0000 :: u32) = push_bit 16 (mask 8)" "(0xffffff :: u32) = mask 24"
  by (simp_all add: mask_numeral)

lemma getEntryVersion_setVersions:
  "getEntryVersion (setVersions tag stamp) = vt_entryVersion tag AND 0xffffff"
proof (rule bit_word_eqI)
  fix n assume "n < LENGTH(32)"
  then show "bit (getEntryVersion (setVersions tag stamp)) n = bit (vt_entryVersion tag AND 0xffffff) n"
    unfolding getEntryVersion_def setVersions_def version_masks by (auto simp: bit_simps)
qed

lemma and_mask_24: "w < 0x1000000 \<Longrightarrow> w AND 0xffffff = (w :: u32)"
proof (rule bit_word_eqI)
  fix n assume w: "w < 0x1000000"
  then have "\<not> bit w n" if "24 \<le> n"
    using unset_above[of w 24 n] that by (simp add: word_less_nat_alt)
  then show "bit (w AND 0xffffff) n = bit w n"
    unfolding version_masks by (cases "n < 24") (auto simp: bit_simps)
qed

lemma getEntryVersion_stampable:
  "stampable tag \<Longrightarrow> getEntryVersion (setVersions tag stamp) = vt_entryVersion tag"
  by (simp add: getEntryVersion_setVersions and_mask_24 stampable_def)

lemma setVersions_absorbs: "setVersions tag (setVersions tag' stamp) = setVersions tag stamp"
  by (simp add: setVersions_def)

section \<open>The order of members\<close>

lemma compare_addr_swap:
  assumes "length my = length other" "i + n \<le> length my"
  shows "\<exists>c. compare_addr my other i n = Inr c \<and> compare_addr other my i n = Inr (- c)"
  using assms(2)
proof (induction n arbitrary: i)
  case (Suc n)
  have "\<exists>c. compare_addr my other (i + 1) n = Inr c \<and> compare_addr other my (i + 1) n = Inr (- c)"
    using Suc by simp
  with Suc.prems assms(1) show ?case by auto
qed simp

lemma compareTo_swap:
  assumes "length (hostAddr m) = length (hostAddr m')"
  shows "\<exists>c. compareTo False m m' = Inr c \<and> compareTo False m' m = Inr (- c)"
proof -
  obtain c where c: "compare_addr (hostAddr m) (hostAddr m') 0 (length (hostAddr m)) = Inr c"
    "compare_addr (hostAddr m') (hostAddr m) 0 (length (hostAddr m')) = Inr (- c)"
    using compare_addr_swap[OF assms, of 0 "length (hostAddr m)"] assms by auto
  show ?thesis
    unfolding compareTo_def
    by (cases "hostPort m < hostPort m'"; cases "hostPort m' < hostPort m"; cases "c = 0")
      (use c in \<open>auto simp: not_less\<close>)
qed

section \<open>The decision of the conflict check\<close>

lemma adjust_rollover_swap:
  "a \<noteq> 0 \<Longrightarrow> b \<noteq> 0 \<Longrightarrow> adjust_rollover a b = (x, y) \<Longrightarrow> adjust_rollover b a = (y, x)"
  by (auto simp: adjust_rollover_def Let_def split: if_splits)

lemma adjust_rollover_cases:
  assumes "0 < a" "0 < b" "a < 2 ^ 24" "b < (2 ^ 24 :: int)"
  shows "adjust_rollover a b = (x, y) \<Longrightarrow> x \<noteq> 0 \<and> (x = y \<longleftrightarrow> a = b)"
  using assms by (auto simp: adjust_rollover_def Let_def split: if_splits)

lemma checkForConflict_stamped:
  assumes t1: "stampable t1" and t2: "stampable t2"
    and xy: "adjust_rollover (uint (vt_entryVersion t1)) (uint (vt_entryVersion t2)) = (x, y)"
  shows "checkForConflict ml t2 False (setVersions t1 s) =
    (if x < y then Inr GF_NOERR
     else if y < x then Inr GF_CACHE_CONCURRENT_MODIFICATION_EXCEPTION
     else case getDSMember (m_internalMemId t1) ml of
        None \<Rightarrow> Inr GF_CACHE_ILLEGAL_STATE_EXCEPTION
      | Some m1 \<Rightarrow> case getDSMember (m_internalMemId t2) ml of
          None \<Rightarrow> Inr GF_CACHE_ILLEGAL_STATE_EXCEPTION
        | Some m2 \<Rightarrow> andThen (compareTo (m_internalMemId t1 = m_internalMemId t2) m1 m2)
            (\<lambda>c. if 0 < c then Inr GF_CACHE_CONCURRENT_MODIFICATION_EXCEPTION else Inr GF_NOERR))"
proof -
  have nz: "vt_entryVersion t1 \<noteq> 0" "vt_entryVersion t2 \<noteq> 0"
    using t1 t2 by (auto simp: stampable_def)
  have "x \<noteq> 0"
    using adjust_rollover_cases[OF _ _ _ _ xy] t1 t2
    by (simp add: stampable_def word_less_def)
  moreover have "m_memberID (setVersions t1 s) = m_internalMemId t1"
    by (simp add: setVersions_def)
  ultimately show ?thesis
    unfolding checkForConflict_def getEntryVersion_stampable[OF t1] xy
    using nz by (auto split: option.splits intro!: arg_cong[where f = "andThen _"])
qed

section \<open>The member table numbers members\<close>

lemma ml_inv_new: "ml_inv new_MemberList"
  by (auto simp: ml_inv_def new_MemberList_def al_simps)

lemma ml_inv_find1:
  "ml_inv ml \<Longrightarrow> al_find (m_members1 ml) n = Some m \<Longrightarrow>
   0 < n \<and> n \<le> m_memberCounter ml \<and> (\<exists>d. al_find (m_members2 ml) (getHashKey m) = Some (d, ucast n))"
  unfolding ml_inv_def by blast

lemma ml_inv_find2:
  "ml_inv ml \<Longrightarrow> al_find (m_members2 ml) h = Some (d, i) \<Longrightarrow>
   getHashKey d = h \<and> al_find (m_members1 ml) (ucast i) = Some d"
  unfolding ml_inv_def by blast

lemma ucast_u16_small: "n \<le> 0xffff \<Longrightarrow> ucast (ucast (n :: u32) :: u16) = n"
  by (rule ucast_narrow) (simp add: word_le_def)

lemma add_member_new:
  assumes inv: "ml_inv ml" and cnt: "m_memberCounter ml < 0xffff"
    and new: "al_find (m_members2 ml) (getHashKey m) = None" and res: "add_member m ml = (i, ml')"
  shows "ml_inv ml'" "getDSMember i ml' = Some m" "m_memberCounter ml' = m_memberCounter ml + 1"
    "getDSMember j ml = Some d \<Longrightarrow> getDSMember j ml' = Some d"
proof -
  let ?c = "m_memberCounter ml + 1"
  have c: "m_memberCounter ml < ?c" "?c \<le> 0xffff"
    using cnt by (simp_all add: word_less_nat_alt word_le_nat_alt unat_word_ariths)
  have step: "n \<le> ?c \<longleftrightarrow> n = ?c \<or> n \<le> m_memberCounter ml" for n
    using c(1) by (auto simp: word_le_nat_alt word_less_nat_alt unat_word_ariths word_unat_eq_iff)
  have i: "i = ucast ?c" and ml': "ml' = ml\<lparr>m_memberCounter := ?c, m_members1 := al_assign ?c m (m_members1 ml),
      m_members2 := al_assign (getHashKey m) (m, ucast ?c) (m_members2 ml)\<rparr>"
    using res new by (auto simp: add_member_def Let_def)
  have uc: "ucast (ucast ?c :: u16) = ?c" by (rule ucast_u16_small[OF c(2)])
  have fresh: "al_find (m_members1 ml) ?c = None"
    using inv c(1) unfolding ml_inv_def by (metis not_less)
  have old: "al_find (m_members1 ml) n = Some d \<Longrightarrow> getHashKey d \<noteq> getHashKey m \<and> n \<noteq> ?c" for n d
    using ml_inv_find1[OF inv] new fresh by fastforce
  have old2: "al_find (m_members2 ml) h = Some (d, k) \<Longrightarrow> h \<noteq> getHashKey m \<and> ucast k \<noteq> ?c" for h d k
    using ml_inv_find2[OF inv] new fresh by fastforce
  have "0 < ?c" using c(1) by (metis not_less_zero word_neq_0_conv word_not_simps(1))
  then show "ml_inv ml'"
    unfolding ml_inv_def ml' using inv old old2 uc fresh
    by (auto simp: step ml_inv_def)
  show "getDSMember i ml' = Some m" by (simp add: getDSMember_def i ml' uc)
  show "m_memberCounter ml' = ?c" by (simp add: ml')
  show "getDSMember j ml' = Some d" if "getDSMember j ml = Some d"
    using that old by (auto simp: getDSMember_def ml')
qed

section \<open>Properties\<close>

text \<open>
  The member table is a numbering: under its invariant, and while fewer than 65535
  members are known, \<open>add\<close> keeps the invariant, returns a number under which the member
  (the one with that hash key) is found, and keeps what every earlier number stands for.
  Number zero, the mark of an absent member, never names a member.
\<close>

lemma add_member_numbering:
  assumes inv: "ml_inv ml" and cnt: "m_memberCounter ml < 0xffff" and res: "add_member m ml = (i, ml')"
  shows "ml_inv ml' \<and> (\<exists>d. getDSMember i ml' = Some d \<and> getHashKey d = getHashKey m) \<and>
    (\<forall>j d. getDSMember j ml = Some d \<longrightarrow> getDSMember j ml' = Some d) \<and> getDSMember 0 ml' = None"
proof -
  have zero: "getDSMember 0 l = None" if "ml_inv l" for l
    using that ml_inv_find1[OF that, of 0] by (cases "getDSMember 0 l") (auto simp: getDSMember_def)
  show ?thesis
  proof (cases "al_find (m_members2 ml) (getHashKey m)")
    case None
    from add_member_new[OF inv cnt None res] zero show ?thesis by auto
  next
    case (Some d)
    with res have "i = snd d" "ml' = ml" by (simp_all add: add_member_def)
    with ml_inv_find2[OF inv, of "getHashKey m" "fst d" "snd d"] Some inv zero show ?thesis
      by (auto simp: getDSMember_def)
  qed
qed

text \<open>
  Comparing members with addresses of one length gives a consistent order: swapping
  the arguments negates the result, so exactly one of two different results of the conflict
  check is a rejection.
\<close>

lemma compareTo_antisymmetric:
  assumes "length (hostAddr m) = length (hostAddr m')"
  shows "\<exists>c. compareTo False m m' = Inr c \<and> compareTo False m' m = Inr (- c)"
  by (rule compareTo_swap[OF assms])

text \<open>
  Comparing with a member whose address is a proper prefix reads past the end of the
  shorter address: an IPv6 address that starts with the bytes of an IPv4 one indexes the
  latter out of range.
\<close>

lemma compareTo_address_overrun:
  assumes "hostAddr other = a" "hostAddr m = a @ b # bs" "a \<noteq> []" "hostPort m = hostPort other"
  shows "compareTo False m other = Inl MemoryFault"
proof -
  have "compare_addr (a @ b # bs) a i n = Inl MemoryFault" if "length a < i + n" "i \<le> length a" for i n
    using that
  proof (induction n arbitrary: i)
    case (Suc n)
    show ?case
    proof (cases "i < length a")
      case True
      with Suc.IH[of "i + 1"] Suc.prems show ?thesis by (simp add: nth_append)
    qed simp
  qed simp
  from this[of 0 "length (hostAddr m)"] assms show ?thesis
    by (simp add: compareTo_def)
qed

text \<open>
  A stamp set from a tag holds the low 24 bits of the entry version, the region
  version composed of its two parts, and the member; applying a second tag forgets the
  first completely.
\<close>

lemma setVersions_stamp_contents:
  "getEntryVersion (setVersions tag stamp) = vt_entryVersion tag AND 0xffffff \<and>
   getRegionVersion (setVersions tag stamp) =
     push_bit 32 (ucast (vt_regionVersionHighBytes tag)) OR ucast (vt_regionVersionLowBytes tag) \<and>
   m_memberID (setVersions tag stamp) = m_internalMemId tag \<and>
   setVersions tag (setVersions tag' stamp) = setVersions tag stamp"
  unfolding getEntryVersion_setVersions setVersions_absorbs
  by (simp add: getRegionVersion_def setVersions_def)

text \<open>Of two such changes exactly one wins over the other.\<close>

lemma one_tag_wins:
  assumes t: "stampable t1" "stampable t2"
    and m: "getDSMember (m_internalMemId t1) ml = Some m1" "getDSMember (m_internalMemId t2) ml = Some m2"
    and len: "length (hostAddr m1) = length (hostAddr m2)"
    and distinct: "vt_entryVersion t1 = vt_entryVersion t2 \<longrightarrow>
      m_internalMemId t1 \<noteq> m_internalMemId t2 \<and> compareTo False m1 m2 \<noteq> Inr 0"
  obtains a b where "checkForConflict ml t2 False (setVersions t1 s) = Inr a"
    "checkForConflict ml t1 False (setVersions t2 s') = Inr b"
    "a = GF_NOERR \<and> b = GF_CACHE_CONCURRENT_MODIFICATION_EXCEPTION \<or>
     a = GF_CACHE_CONCURRENT_MODIFICATION_EXCEPTION \<and> b = GF_NOERR"
proof -
  let ?v1 = "uint (vt_entryVersion t1)" and ?v2 = "uint (vt_entryVersion t2)"
  have pos: "0 < ?v1" "0 < ?v2" "?v1 < 2 ^ 24" "?v2 < 2 ^ 24"
    using t by (simp_all add: stampable_def word_less_def)
  obtain x y where xy: "adjust_rollover ?v1 ?v2 = (x, y)" by (cases "adjust_rollover ?v1 ?v2")
  have yx: "adjust_rollover ?v2 ?v1 = (y, x)"
    using adjust_rollover_swap[OF _ _ xy] pos by simp
  have eq: "x = y \<Longrightarrow> vt_entryVersion t1 = vt_entryVersion t2"
    using adjust_rollover_cases[OF pos xy] by (simp add: word_uint_eq_iff)
  obtain c where c: "compareTo False m1 m2 = Inr c" "compareTo False m2 m1 = Inr (- c)"
    using compareTo_swap[OF len] by blast
  note c12 = checkForConflict_stamped[OF t xy, of ml s] and c21 = checkForConflict_stamped[OF t(2,1) yx, of ml s']
  consider "x < y" | "y < x" | "x = y" by linarith
  then show ?thesis
  proof cases
    case 3
    with eq distinct have "m_internalMemId t1 \<noteq> m_internalMemId t2" "c \<noteq> 0"
      using c by auto
    with 3 c c12 c21 m show ?thesis by (cases "0 < c") (auto intro: that)
  qed (use c12 c21 in \<open>auto intro: that\<close>)
qed



section \<open>Decoding a tag\<close>

lemma two_byte_version:
  "scast (ucast v :: u16) AND 0xffff = (v AND 0xffff :: u32)"
proof (rule bit_word_eqI)
  fix n assume "n < LENGTH(32)"
  then show "bit (scast (ucast v :: u16) AND 0xffff :: u32) n = bit (v AND 0xffff) n"
    unfolding version_masks by (auto simp: bit_simps)
qed

lemma consumes_if:
  "(c \<Longrightarrow> consumes r bs x) \<Longrightarrow> (\<not> c \<Longrightarrow> consumes r' cs y) \<Longrightarrow>
   consumes (\<lambda>i. if c then r i else r' i) (if c then bs else cs) (if c then x else y)"
  by (cases c) simp_all

lemma consumes_version:
  "consumes (\<lambda>i3. if flags AND 0x04 \<noteq> 0
       then andThen (readInt16 i3) (\<lambda>(v, i). Inr (scast v AND 0xffff, i)) else readInt32 i3)
     (if flags AND 0x04 \<noteq> 0 then bytes16 (ucast v) else bytes32 v)
     (if flags AND 0x04 \<noteq> 0 then v AND 0xffff else v)" for flags :: u16
  using consumes_map[OF consumes_readInt16, of "\<lambda>v. scast v AND 0xffff :: u32" "ucast v"]
  unfolding two_byte_version by (intro consumes_if consumes_readInt32)

lemma consumes_readMembers:
  assumes m: "consumes rd mb m" and p: "consumes rd pb p"
  shows "consumes (readMembers rd flags tag ml)
    ((if flags AND 0x01 \<noteq> 0 then mb else []) @ (if flags AND 0x02 \<noteq> 0 \<and> flags AND 0x08 = 0 then pb else []))
    (tag_members flags m p tag ml)"
proof -
  let ?r1 = "\<lambda>inp. if flags AND 0x01 \<noteq> 0 then
      andThen (rd inp) (\<lambda>(m, i1).
        let (mid, ml1) = add_member m ml in Inr ((tag\<lparr>m_internalMemId := mid\<rparr>, ml1), i1))
    else Inr ((tag, ml), inp)"
  let ?k = "\<lambda>(tag1, ml1) i1. if flags AND 0x02 \<noteq> 0 then
      (if flags AND 0x08 \<noteq> 0 then Inr ((tag1\<lparr>m_previousMemId := m_internalMemId tag1\<rparr>, ml1), i1)
       else andThen (rd i1) (\<lambda>(m, i2).
         let (mid, ml2) = add_member m ml1 in Inr ((tag1\<lparr>m_previousMemId := mid\<rparr>, ml2), i2)))
    else Inr ((tag1, ml1), i1)"
  have rm: "readMembers rd flags tag ml = (\<lambda>inp. andThen (?r1 inp) (\<lambda>(x, i). ?k x i))"
    by (rule ext) (simp only: readMembers_def)
  define x1 where "x1 = (if flags AND 0x01 \<noteq> 0
    then (tag\<lparr>m_internalMemId := fst (add_member m ml)\<rparr>, snd (add_member m ml)) else (tag, ml))"
  have c1: "consumes ?r1 (if flags AND 0x01 \<noteq> 0 then mb else []) x1"
    unfolding x1_def Let_def case_prod_beta
    using consumes_map[OF m, of "\<lambda>m. (tag\<lparr>m_internalMemId := fst (add_member m ml)\<rparr>, snd (add_member m ml))",
        unfolded case_prod_beta]
    by (intro consumes_if consumes_return)
  have c2: "consumes (?k x1) (if flags AND 0x02 \<noteq> 0 \<and> flags AND 0x08 = 0 then pb else [])
      (tag_members flags m p tag ml)"
    using consumes_map[OF p, of "\<lambda>p. ((fst x1)\<lparr>m_previousMemId := fst (add_member p (snd x1))\<rparr>, snd (add_member p (snd x1)))"]
    by (simp add: tag_members_def x1_def[symmetric] case_prod_beta Let_def consumes_return)
  show ?thesis unfolding rm by (rule consumes_bind[where k = ?k, OF c1 c2])
qed

lemma consumes_fromData_VersionTag:
  assumes "consumes rd mb m" "consumes rd pb p"
  shows "consumes (fromData_VersionTag rd tag ml) (tag_bytes flags dsid t mb pb)
    (tag_members flags m p
      (tag\<lparr>m_bits := m_bits t,
           vt_entryVersion := if flags AND 0x04 \<noteq> 0 then vt_entryVersion t AND 0xffff else vt_entryVersion t,
           vt_regionVersionHighBytes :=
             if flags AND 0x10 \<noteq> 0 then vt_regionVersionHighBytes t else vt_regionVersionHighBytes tag,
           vt_regionVersionLowBytes := vt_regionVersionLowBytes t, m_timeStamp := m_timeStamp t\<rparr>) ml)"
  unfolding fromData_VersionTag_def[abs_def] tag_bytes_def
  by (rule consumes_bind[OF consumes_readInt16] consumes_bind[OF consumes_read_byte]
      consumes_bind[OF consumes_version]
      consumes_bind[OF consumes_if[OF consumes_readInt16 consumes_return]]
      consumes_bind[OF consumes_readInt32] consumes_bind[OF consumes_readUnsignedVL]
      consumes_readMembers[OF assms])+

text \<open>
  Deserialising a version tag inverts its layout: with a reader of member ids that
  returns the members of the two id fields, \<open>fromData\<close> returns a tag with the version,
  region version, time stamp and bits of the layout and the numbers the member table gives
  the members, and stops right behind the tag.
\<close>

lemma fromData_VersionTag_decodes:
  assumes "consumes rd mb m" "consumes rd pb p" "in_inv inp"
    "unread inp = tag_bytes flags dsid t mb pb @ rest"
  shows "fromData_VersionTag rd tag ml inp =
    Inr (tag_members flags m p
      (tag\<lparr>m_bits := m_bits t,
           vt_entryVersion := if flags AND 0x04 \<noteq> 0 then vt_entryVersion t AND 0xffff else vt_entryVersion t,
           vt_regionVersionHighBytes :=
             if flags AND 0x10 \<noteq> 0 then vt_regionVersionHighBytes t else vt_regionVersionHighBytes tag,
           vt_regionVersionLowBytes := vt_regionVersionLowBytes t, m_timeStamp := m_timeStamp t\<rparr>) ml,
      advanceCursor (length (tag_bytes flags dsid t mb pb)) inp)"
  by (rule consumesD[OF consumes_fromData_VersionTag[OF assms(1,2)] assms(3,4)])

end
