(* ===== verification/Map_Entry.thy ===== *)
theory Map_Entry
  imports Version_Stamp
begin

text \<open>
  Entries of a region map: the value tokens (\<open>CacheableToken.hpp\<close>), the entry object with
  its version stamp (\<open>MapEntryImpl.hpp\<close>), and the tracking of entries during remote
  operations: the family of classes \<open>MapEntryT\<close> that encode two small counters in the
  type, and the wrapper \<open>TrackedMapEntry\<close> that takes over when a counter leaves its
  range. The lemmas show what the counters count, and where the wrapper loses them.
\<close>

section \<open>Values and entries\<close>

datatype 'v cacheable = Obj 'v | InvalidToken | DestroyedToken | OverflowedToken | TombstoneToken

text \<open>A \<open>shared_ptr\<close> to a value: \<open>None\<close> is the null pointer.\<close>

type_synonym 'v ptr = "'v cacheable option"

text \<open>
  \<open>e_id\<close> identifies the object; \<open>e_trackers\<close> and \<open>e_updates\<close> are the template
  arguments \<open>NUM_TRACKERS\<close> and \<open>UPDATE_COUNT\<close> of its current class.
\<close>

record ('k, 'v) entry_impl =
  e_id :: nat
  e_key :: 'k
  e_value :: "'v ptr"
  e_stamp :: version_stamp
  e_trackers :: nat
  e_updates :: nat

datatype ('k, 'v) map_entry =
    MapEntryT "('k, 'v) entry_impl"
  | TrackedMapEntry "('k, 'v) entry_impl" int int

definition GF_TRACK_MAX :: nat where
  "GF_TRACK_MAX = 4"

definition GF_UPDATE_MAX :: nat where
  "GF_UPDATE_MAX = 8"

definition getValueI :: "('k, 'v) entry_impl \<Rightarrow> 'v ptr" where
  "getValueI i = (if e_value i = Some DestroyedToken then None else e_value i)"

definition setValueI :: "'v ptr \<Rightarrow> ('k, 'v) entry_impl \<Rightarrow> ('k, 'v) entry_impl" where
  "setValueI v i = i\<lparr>e_value := v\<rparr>"

fun getImplPtr :: "('k, 'v) map_entry \<Rightarrow> ('k, 'v) entry_impl" where
  "getImplPtr (MapEntryT i) = i"
| "getImplPtr (TrackedMapEntry i t u) = i"

text \<open>A change of the object behind an entry, seen through the entry.\<close>

fun update_impl :: "(('k, 'v) entry_impl \<Rightarrow> ('k, 'v) entry_impl) \<Rightarrow> ('k, 'v) map_entry \<Rightarrow> ('k, 'v) map_entry" where
  "update_impl f (MapEntryT i) = MapEntryT (f i)"
| "update_impl f (TrackedMapEntry i t u) = TrackedMapEntry (f i) t u"

fun getVersionStamp :: "('k, 'v) map_entry \<Rightarrow> gf_exn + version_stamp" where
  "getVersionStamp (MapEntryT i) = Inr (e_stamp i)"
| "getVersionStamp (TrackedMapEntry i t u) = Inl FatalInternalException"

section \<open>Tracking\<close>

fun getTrackingNumber :: "('k, 'v) map_entry \<Rightarrow> int" where
  "getTrackingNumber (MapEntryT i) = int (e_trackers i)"
| "getTrackingNumber (TrackedMapEntry i t u) = t"

fun getUpdateCount :: "('k, 'v) map_entry \<Rightarrow> int" where
  "getUpdateCount (MapEntryT i) = int (e_updates i)"
| "getUpdateCount (TrackedMapEntry i t u) = u"

text \<open>
  Each operation returns its result, the entry itself after the call, and the entry to be
  rebound in its place when the out-parameter \<open>newEntry\<close> is set.
\<close>

fun addTracker :: "('k, 'v) map_entry \<Rightarrow> int \<times> ('k, 'v) map_entry \<times> ('k, 'v) map_entry option" where
  "addTracker (MapEntryT i) =
     (if e_trackers i = GF_TRACK_MAX
      then (int (e_updates i), MapEntryT i,
            Some (TrackedMapEntry i (int GF_TRACK_MAX + 1) (int (e_updates i))))
      else (int (e_updates i), MapEntryT (i\<lparr>e_trackers := e_trackers i + 1\<rparr>), None))"
| "addTracker (TrackedMapEntry i t u) = (u, TrackedMapEntry i (t + 1) u, None)"

fun removeTracker :: "('k, 'v) map_entry \<Rightarrow> (bool \<times> int) \<times> ('k, 'v) map_entry" where
  "removeTracker (MapEntryT i) =
     (if e_trackers i = 0 then ((False, 0), MapEntryT i)
      else if e_trackers i = 1 then ((False, 0), MapEntryT (i\<lparr>e_trackers := 0, e_updates := 0\<rparr>))
      else ((False, int (e_trackers i) - 1), MapEntryT (i\<lparr>e_trackers := e_trackers i - 1\<rparr>)))"
| "removeTracker (TrackedMapEntry i t u) =
     (let t' = (if 0 < t then t - 1 else t) in
      if t' = 0 then ((True, 0), TrackedMapEntry i t' 0)
      else ((False, t'), TrackedMapEntry i t' u))"

fun incrementUpdateCount :: "('k, 'v) map_entry \<Rightarrow> int \<times> ('k, 'v) map_entry \<times> ('k, 'v) map_entry option" where
  "incrementUpdateCount (MapEntryT i) =
     (if e_updates i = GF_UPDATE_MAX
      then (int GF_UPDATE_MAX + 1, MapEntryT i,
            Some (TrackedMapEntry i (int (e_trackers i)) (int GF_UPDATE_MAX + 1)))
      else if e_trackers i = 0 then (int (e_updates i), MapEntryT i, None)
      else (int (e_updates i) + 1, MapEntryT (i\<lparr>e_updates := e_updates i + 1\<rparr>), None))"
| "incrementUpdateCount (TrackedMapEntry i t u) = (u + 1, TrackedMapEntry i t (u + 1), None)"

text \<open>What the owner of an entry goes on with.\<close>

definition rebound :: "int \<times> ('k, 'v) map_entry \<times> ('k, 'v) map_entry option \<Rightarrow> ('k, 'v) map_entry" where
  "rebound r = (case snd (snd r) of None \<Rightarrow> fst (snd r) | Some e \<Rightarrow> e)"

definition rebound_remove :: "(bool \<times> int) \<times> ('k, 'v) map_entry \<Rightarrow> ('k, 'v) map_entry" where
  "rebound_remove r = (if fst (fst r) then MapEntryT (getImplPtr (snd r)) else snd r)"

section \<open>The counters\<close>

text \<open>
  The counters stay in the range the class family has, an untracked entry has no update
  count, and a wrapper is only around while at least one tracker is.
\<close>

fun entry_inv :: "('k, 'v) map_entry \<Rightarrow> bool" where
  "entry_inv (MapEntryT i) \<longleftrightarrow>
     e_trackers i \<le> GF_TRACK_MAX \<and> e_updates i \<le> GF_UPDATE_MAX \<and> (e_trackers i = 0 \<longrightarrow> e_updates i = 0)"
| "entry_inv (TrackedMapEntry i t u) \<longleftrightarrow> 0 < t \<and> 0 \<le> u"

lemma update_impl_proj [simp]:
  "getImplPtr (update_impl f e) = f (getImplPtr e)"
  by (cases e) simp_all

lemmas max_defs = GF_TRACK_MAX_def GF_UPDATE_MAX_def

lemma addTracker_spec:
  assumes "entry_inv e"
  shows "entry_inv (rebound (addTracker e)) \<and>
    getTrackingNumber (rebound (addTracker e)) = getTrackingNumber e + 1 \<and>
    getUpdateCount (rebound (addTracker e)) = getUpdateCount e \<and>
    fst (addTracker e) = getUpdateCount e \<and>
    e_value (getImplPtr (rebound (addTracker e))) = e_value (getImplPtr e)"
  using assms by (cases e) (simp_all add: rebound_def max_defs)

lemma incrementUpdateCount_spec:
  assumes "entry_inv e" "0 < getTrackingNumber e"
  shows "entry_inv (rebound (incrementUpdateCount e)) \<and>
    getTrackingNumber (rebound (incrementUpdateCount e)) = getTrackingNumber e \<and>
    getUpdateCount (rebound (incrementUpdateCount e)) = getUpdateCount e + 1 \<and>
    fst (incrementUpdateCount e) = getUpdateCount e + 1 \<and>
    e_value (getImplPtr (rebound (incrementUpdateCount e))) = e_value (getImplPtr e)"
  using assms by (cases e) (simp_all add: rebound_def max_defs)

lemma removeTracker_spec:
  assumes "entry_inv e" "1 < getTrackingNumber e"
  shows "entry_inv (rebound_remove (removeTracker e)) \<and>
    getTrackingNumber (rebound_remove (removeTracker e)) = getTrackingNumber e - 1 \<and>
    getUpdateCount (rebound_remove (removeTracker e)) = getUpdateCount e"
  using assms by (cases e) (auto simp: rebound_remove_def max_defs Let_def)

section \<open>Properties\<close>

text \<open>
  Tracking counts: while an entry is tracked, adding a tracker, removing one that is
  not the last and recording an update change the two counters by exactly one, also when
  the entry is rebound to a wrapper because a counter left the range of the class family.
  The update count a tracker is given when it starts is the one it has to compare with.
\<close>

lemma tracking_counts:
  assumes "entry_inv e"
  shows "entry_inv (rebound (addTracker e)) \<and>
    getTrackingNumber (rebound (addTracker e)) = getTrackingNumber e + 1 \<and>
    getUpdateCount (rebound (addTracker e)) = getUpdateCount e \<and>
    fst (addTracker e) = getUpdateCount e \<and>
    (0 < getTrackingNumber e \<longrightarrow>
       entry_inv (rebound (incrementUpdateCount e)) \<and>
       getTrackingNumber (rebound (incrementUpdateCount e)) = getTrackingNumber e \<and>
       getUpdateCount (rebound (incrementUpdateCount e)) = getUpdateCount e + 1) \<and>
    (1 < getTrackingNumber e \<longrightarrow>
       entry_inv (rebound_remove (removeTracker e)) \<and>
       getTrackingNumber (rebound_remove (removeTracker e)) = getTrackingNumber e - 1 \<and>
       getUpdateCount (rebound_remove (removeTracker e)) = getUpdateCount e)"
  using addTracker_spec[OF assms] incrementUpdateCount_spec[OF assms] removeTracker_spec[OF assms]
  by blast

definition plain_entry :: "nat \<Rightarrow> (nat, nat) map_entry" where
  "plain_entry n = MapEntryT \<lparr>e_id = n, e_key = n, e_value = Some (Obj n), e_stamp = new_VersionStamp,
     e_trackers = 0, e_updates = 0\<rparr>"

text \<open>
  The last tracker of an entry of the class family resets its update count, but the
  wrapper hands the entry back with the counters it had when it was wrapped: an entry
  tracked five times and released five times is left looking as if four operations were
  tracking it.
\<close>

lemma last_tracker_of_wrapper:
  assumes "entry_inv e" "getTrackingNumber e = 1"
  shows "getTrackingNumber (rebound_remove (removeTracker e)) =
    (case e of MapEntryT i \<Rightarrow> 0 | TrackedMapEntry i t u \<Rightarrow> int (e_trackers i))"
  using assms by (cases e) (auto simp: rebound_remove_def Let_def)

end
