(* ===== verification/Map_Segment.thy ===== *)
theory Map_Segment
  imports Map_Entry
begin

text \<open>
  One segment of a region's entry map (\<open>MapSegment.cpp\<close>, \<open>MapSegment.hpp\<close>) with
  its list of tombstones (\<open>TombstoneList.cpp\<close>) and the table of primes that sizes it
  (\<open>TableOfPrimes.hpp\<close>). Every operation runs under the segment's lock and is one step
  of the model. An entry is held by value in its map slot, and a tombstone holds a copy of
  the entry it was made for, which no operation changes while the tombstone is listed.
\<close>

section \<open>The table of primes\<close>

definition g_primeTable :: "nat list" where
  "g_primeTable =
     [53, 97, 193, 389, 769, 1543, 3079, 6151, 12289, 24593, 49157, 98317, 196613, 393241, 786433,
      1572869, 3145739, 6291469, 12582917, 25165843, 50331653, 100663319, 201326611, 402653189,
      805306457, 1610612741, 3221225473]"

definition g_primeConcurTable :: "nat list" where
  "g_primeConcurTable =
     [2, 3, 5, 7, 11, 13, 17, 19, 23, 29, 31, 37, 41, 43, 47, 53, 59, 61, 67, 71, 73, 79, 83, 89,
      97, 101, 103, 107, 109, 113, 127, 131, 137, 139, 149, 151, 157, 163, 167, 173, 179, 181, 191,
      193, 197, 199, 211, 223, 227, 229, 233, 239, 241, 251]"

definition getPrime :: "nat \<Rightarrow> gf_exn + nat" where
  "getPrime index =
     (if index < length g_primeTable then Inr (g_primeTable ! index) else Inl OutOfRangeException)"

text \<open>\<open>std::lower_bound\<close> on a sorted table: the first element not below the value.\<close>

fun lower_bound :: "nat list \<Rightarrow> nat \<Rightarrow> nat \<Rightarrow> (nat \<times> nat) option" where
  "lower_bound [] v i = None"
| "lower_bound (p # ps) v i = (if p < v then lower_bound ps v (i + 1) else Some (i, p))"

definition nextLargerPrime :: "nat \<Rightarrow> gf_exn + (nat \<times> nat)" where
  "nextLargerPrime v =
     (case lower_bound g_primeTable v 0 of
        Some (i, p) \<Rightarrow> Inr (p, i)
      | None \<Rightarrow> Inl OutOfRangeException)"

definition getMaxPrimeForConcurrency :: nat where
  "getMaxPrimeForConcurrency = last g_primeConcurTable"

definition nextLargerPrimeForConcurrency :: "nat \<Rightarrow> gf_exn + nat" where
  "nextLargerPrimeForConcurrency v =
     (case lower_bound g_primeConcurTable v 0 of
        Some (i, p) \<Rightarrow> Inr p
      | None \<Rightarrow> Inl OutOfRangeException)"

section \<open>State and environment\<close>

record ('k, 'v) tombstone =
  t_id :: nat
  t_entry :: "('k, 'v) entry_impl"

text \<open>
  \<open>seg_next\<close> numbers the objects that are created; \<open>seg_invalidated\<close> holds the
  tombstones whose \<open>valid_\<close> flag has been cleared.
\<close>

record ('k, 'v) segment =
  m_map :: "('k \<times> ('k, 'v) map_entry) list"
  m_primeIndex :: nat
  m_concurrencyChecksEnabled :: bool
  m_destroyedKeys :: "('k \<times> int) list"
  m_rehashCount :: nat
  tombstones :: "('k \<times> ('k, 'v) tombstone) list"
  seg_invalidated :: "nat list"
  seg_next :: nat

text \<open>
  What a segment uses of its surroundings: the member table of the cache, the application's
  delta objects, and the values on disk. \<open>fromDelta\<close> gives the state of the object after
  the call and whether the call returned normally.
\<close>

record ('k, 'v) seg_env =
  env_members :: member_list
  isDelta :: "'v \<Rightarrow> bool"
  fromDelta :: "data_input \<Rightarrow> 'v \<Rightarrow> 'v \<times> bool"
  cloningEnabled :: bool
  getFromDisc :: "'k \<Rightarrow> ('k, 'v) entry_impl \<Rightarrow> 'v ptr"

text \<open>The out-parameters of an operation next to its error code.\<close>

record ('k, 'v) op_result =
  r_err :: gf_err
  r_me :: "('k, 'v) entry_impl option"
  r_oldValue :: "'v ptr"
  r_newValue :: "'v ptr"
  r_flag :: bool

definition result :: "gf_err \<Rightarrow> ('k, 'v) entry_impl option \<Rightarrow> 'v ptr \<Rightarrow> 'v ptr \<Rightarrow> bool \<Rightarrow> ('k, 'v) op_result" where
  "result err me old new flag =
     \<lparr>r_err = err, r_me = me, r_oldValue = old, r_newValue = new, r_flag = flag\<rparr>"

type_synonym ('k, 'v) seg_op = "('k, 'v) segment \<Rightarrow> gf_exn + (('k, 'v) op_result \<times> ('k, 'v) segment)"

definition open_segment :: "nat \<Rightarrow> bool \<Rightarrow> gf_exn + ('k, 'v) segment" where
  "open_segment sz concurrencyChecksEnabled =
     andThen (nextLargerPrime sz) (\<lambda>(mapSize, index).
       Inr \<lparr>m_map = [], m_primeIndex = index, m_concurrencyChecksEnabled = concurrencyChecksEnabled,
            m_destroyedKeys = [], m_rehashCount = 0, tombstones = [], seg_invalidated = [],
            seg_next = 0\<rparr>)"

definition clear_segment :: "('k, 'v) segment \<Rightarrow> ('k, 'v) segment" where
  "clear_segment s = s\<lparr>m_map := []\<rparr>"

section \<open>The tombstone list\<close>

definition tombstone_add :: "('k, 'v) entry_impl \<Rightarrow> ('k, 'v) segment \<Rightarrow> ('k, 'v) segment" where
  "tombstone_add entry s =
     s\<lparr>tombstones := al_assign (e_key entry) \<lparr>t_id = seg_next s, t_entry = entry\<rparr> (tombstones s),
       seg_next := seg_next s + 1\<rparr>"

definition tombstone_exists :: "'k \<Rightarrow> ('k, 'v) segment \<Rightarrow> bool" where
  "tombstone_exists key s = (al_find (tombstones s) key \<noteq> None)"

definition tombstone_erase :: "'k \<Rightarrow> ('k, 'v) segment \<Rightarrow> bool \<times> ('k, 'v) segment" where
  "tombstone_erase key s =
     (case al_find (tombstones s) key of
        None \<Rightarrow> (False, s)
      | Some t \<Rightarrow> (True, s\<lparr>seg_invalidated := t_id t # seg_invalidated s,
                          tombstones := al_erase key (tombstones s)\<rparr>))"

definition remove_entry :: "'k \<Rightarrow> ('k, 'v) segment \<Rightarrow> ('k, 'v) segment" where
  "remove_entry key s =
     (let s1 = snd (tombstone_erase key s) in s1\<lparr>m_map := al_erase key (m_map s1)\<rparr>)"

definition remove_tomb_entry :: "('k, 'v) tombstone \<Rightarrow> ('k, 'v) segment \<Rightarrow> bool \<times> ('k, 'v) segment" where
  "remove_tomb_entry t s =
     (if t_id t \<in> set (seg_invalidated s) then (False, s)
      else
        let key = e_key (t_entry t); (erased, s1) = tombstone_erase key s in
        if \<not> erased then (False, s1)
        else (True, s1\<lparr>m_map := al_erase key (m_map s1)\<rparr>))"

text \<open>The expiry task of a tombstone, run by the timer.\<close>

definition on_expire :: "('k, 'v) tombstone \<Rightarrow> ('k, 'v) segment \<Rightarrow> ('k, 'v) segment" where
  "on_expire t s = snd (remove_tomb_entry t s)"

definition reapTombstones_versions :: "(u16 \<times> u64) list \<Rightarrow> ('k, 'v) segment \<Rightarrow> ('k, 'v) segment" where
  "reapTombstones_versions gcVersions s =
     (let tobeDeleted = map fst (filter (\<lambda>(key, t).
            case al_find gcVersions (m_memberID (e_stamp (t_entry t))) of
              None \<Rightarrow> False
            | Some version \<Rightarrow> sint (getRegionVersion (e_stamp (t_entry t))) \<le> sint version)
            (tombstones s))
      in fold remove_entry tobeDeleted s)"

definition reapTombstones_keys :: "'k list \<Rightarrow> ('k, 'v) segment \<Rightarrow> ('k, 'v) segment" where
  "reapTombstones_keys removedKeys s = fold remove_entry removedKeys s"

section \<open>Slots of the map\<close>

definition rehash :: "('k, 'v) segment \<Rightarrow> gf_exn + ('k, 'v) segment" where
  "rehash s =
     andThen (getPrime (m_primeIndex s + 1)) (\<lambda>newMapSize.
       Inr (s\<lparr>m_primeIndex := m_primeIndex s + 1, m_rehashCount := m_rehashCount s + 1\<rparr>))"

definition check_rehash :: "('k, 'v) segment \<Rightarrow> gf_exn + ('k, 'v) segment" where
  "check_rehash s =
     andThen (getPrime (m_primeIndex s)) (\<lambda>mapSize.
       if mapSize < (length (m_map s) * 75) div 100 then rehash s else Inr s)"

definition newMapEntry :: "'k \<Rightarrow> ('k, 'v) segment \<Rightarrow> ('k, 'v) entry_impl \<times> ('k, 'v) segment" where
  "newMapEntry key s =
     (\<lparr>e_id = seg_next s, e_key = key, e_value = None, e_stamp = new_VersionStamp,
       e_trackers = 0, e_updates = 0\<rparr>, s\<lparr>seg_next := seg_next s + 1\<rparr>)"

definition bind_entry :: "'k \<Rightarrow> ('k, 'v) map_entry \<Rightarrow> ('k, 'v) segment \<Rightarrow> ('k, 'v) segment" where
  "bind_entry key e s = s\<lparr>m_map := al_assign key e (m_map s)\<rparr>"

definition putNoEntry ::
  "int \<Rightarrow> 'k \<Rightarrow> 'v ptr \<Rightarrow> int \<Rightarrow> int \<Rightarrow> version_tag option \<Rightarrow> version_stamp option \<Rightarrow>
   ('k, 'v) segment \<Rightarrow> gf_err \<times> ('k, 'v) entry_impl option \<times> ('k, 'v) segment" where
  "putNoEntry numDestroyTrackers key newValue updateCount destroyTracker tag stamp s =
     (if \<not> m_concurrencyChecksEnabled s \<and> 0 \<le> updateCount
      then (GF_CACHE_ENTRY_UPDATED, None, s)
      else if \<not> m_concurrencyChecksEnabled s \<and> 0 < destroyTracker \<and> 0 < numDestroyTrackers \<and>
              (case al_find (m_destroyedKeys s) key of None \<Rightarrow> False | Some n \<Rightarrow> destroyTracker < n)
      then (GF_CACHE_ENTRY_UPDATED, None, s)
      else
        let (e0, s1) = newMapEntry key s;
            e1 = setValueI newValue e0;
            e2 = (if m_concurrencyChecksEnabled s1 then
                    (case tag of
                       Some t \<Rightarrow> e1\<lparr>e_stamp := setVersions t (e_stamp e1)\<rparr>
                     | None \<Rightarrow>
                         (case stamp of
                            Some st \<Rightarrow> e1\<lparr>e_stamp := setVersions_stamp st (e_stamp e1)\<rparr>
                          | None \<Rightarrow> e1))
                  else e1)
        in (GF_NOERR, Some e2, s1\<lparr>m_map := al_emplace key (MapEntryT e2) (m_map s1)\<rparr>))"

text \<open>
  Increment the update count of the entry in a slot. The reference the caller passes is the
  slot itself, so a rebound entry lands in it.
\<close>

definition incrementUpdateCount_slot :: "'k \<Rightarrow> ('k, 'v) map_entry \<Rightarrow> ('k, 'v) segment \<Rightarrow> ('k, 'v) segment" where
  "incrementUpdateCount_slot key entry s =
     (if m_concurrencyChecksEnabled s then bind_entry key entry s
      else bind_entry key (rebound (incrementUpdateCount entry)) s)"

text \<open>The same through a copy of the slot's pointer: the object changes, the slot does not.\<close>

definition incrementUpdateCount_copy :: "'k \<Rightarrow> ('k, 'v) map_entry \<Rightarrow> ('k, 'v) segment \<Rightarrow> ('k, 'v) segment" where
  "incrementUpdateCount_copy key entry s =
     (if m_concurrencyChecksEnabled s then bind_entry key entry s
      else bind_entry key (fst (snd (incrementUpdateCount entry))) s)"

definition removeTracker_slot :: "'k \<Rightarrow> ('k, 'v) map_entry \<Rightarrow> ('k, 'v) segment \<Rightarrow> ('k, 'v) segment" where
  "removeTracker_slot key entry s =
     (if m_concurrencyChecksEnabled s then bind_entry key entry s
      else
        let ((replace, trackers), entry1) = removeTracker entry in
        if trackers \<le> 0 \<and> getValueI (getImplPtr entry1) = None
        then s\<lparr>m_map := al_erase key (m_map s)\<rparr>
        else if replace then bind_entry key (MapEntryT (getImplPtr entry1)) s
        else bind_entry key entry1 s)"

section \<open>Updating an existing entry\<close>

text \<open>
  Applying a delta: the result is the error code, the value the caller goes on with, and the
  entry. Without cloning the stored object itself is changed, also by a failing call.
\<close>

definition apply_delta ::
  "('k, 'v) seg_env \<Rightarrow> 'k \<Rightarrow> data_input \<Rightarrow> ('k, 'v) entry_impl \<Rightarrow>
   gf_exn + (gf_err \<times> 'v ptr \<times> ('k, 'v) entry_impl)" where
  "apply_delta env key delta i =
     (let oldValue = getValueI i in
      if oldValue \<in> {None, Some DestroyedToken, Some InvalidToken, Some TombstoneToken}
      then Inr (GF_INVALID_DELTA, None, i)
      else
        let inMemory = (oldValue \<noteq> Some OverflowedToken);
            base = (if inMemory then oldValue else getFromDisc env key i)
        in case base of
             None \<Rightarrow> Inr (GF_INVALID_DELTA, None, i)
           | Some (Obj v) \<Rightarrow>
               (if \<not> isDelta env v then Inl MemoryFault
                else
                  let (v', ok) = fromDelta env delta v in
                  if ok then Inr (GF_NOERR, Some (Obj v'), setValueI (Some (Obj v')) i)
                  else if cloningEnabled env \<or> \<not> inMemory then Inr (GF_INVALID_DELTA, None, i)
                  else Inr (GF_INVALID_DELTA, None, setValueI (Some (Obj v')) i))
           | Some token \<Rightarrow> Inl MemoryFault)"

definition putForTrackedEntry ::
  "('k, 'v) seg_env \<Rightarrow> 'k \<Rightarrow> 'v ptr \<Rightarrow> ('k, 'v) map_entry \<Rightarrow> int \<Rightarrow> version_stamp \<Rightarrow> data_input option \<Rightarrow>
   ('k, 'v) segment \<Rightarrow> gf_exn + (gf_err \<times> 'v ptr \<times> ('k, 'v) entry_impl \<times> ('k, 'v) segment)" where
  "putForTrackedEntry env key newValue entry updateCount stamp delta s =
     (if updateCount < 0 \<or> m_concurrencyChecksEnabled s then
        andThen
          (case delta of
             None \<Rightarrow> Inr (GF_NOERR, newValue, setValueI newValue (getImplPtr entry))
           | Some d \<Rightarrow> apply_delta env key d (getImplPtr entry))
          (\<lambda>(err, newValue1, i1).
             if err \<noteq> GF_NOERR then
               Inr (err, newValue, i1, bind_entry key (update_impl (\<lambda>_. i1) entry) s)
             else
               let (i2, s1) = (if m_concurrencyChecksEnabled s
                               then (i1\<lparr>e_stamp := setVersions_stamp stamp (e_stamp i1)\<rparr>,
                                     snd (tombstone_erase key s))
                               else (i1, s))
               in Inr (GF_NOERR, newValue1, i2,
                       incrementUpdateCount_slot key (update_impl (\<lambda>_. i2) entry) s1))
      else if updateCount = getUpdateCount entry then
        let i1 = setValueI newValue (getImplPtr entry) in
        Inr (GF_NOERR, newValue, i1, removeTracker_slot key (update_impl (\<lambda>_. i1) entry) s)
      else Inr (GF_CACHE_ENTRY_UPDATED, newValue, getImplPtr entry, removeTracker_slot key entry s))"

text \<open>
  The stamp an update leaves: that of the entry, or the tag's once it passed the conflict
  check.
\<close>

definition next_stamp ::
  "('k, 'v) seg_env \<Rightarrow> version_tag option \<Rightarrow> bool \<Rightarrow> ('k, 'v) map_entry \<Rightarrow> ('k, 'v) segment \<Rightarrow>
   gf_exn + (gf_err \<times> version_stamp)" where
  "next_stamp env tag deltaCheck entry s =
     (if m_concurrencyChecksEnabled s then
        andThen (getVersionStamp entry) (\<lambda>stamp.
          case tag of
            None \<Rightarrow> Inr (GF_NOERR, stamp)
          | Some t \<Rightarrow>
              andThen (processVersionTag (env_members env) tag deltaCheck stamp) (\<lambda>err.
                if err \<noteq> GF_NOERR then Inr (err, stamp) else Inr (GF_NOERR, setVersions t stamp)))
      else Inr (GF_NOERR, new_VersionStamp))"

section \<open>Create, put, invalidate\<close>

definition create_seg ::
  "('k, 'v) seg_env \<Rightarrow> int \<Rightarrow> 'k \<Rightarrow> 'v ptr \<Rightarrow> int \<Rightarrow> int \<Rightarrow> version_tag option \<Rightarrow> ('k, 'v) seg_op" where
  "create_seg env numDestroyTrackers key newValue updateCount destroyTracker tag s =
     andThen (check_rehash s) (\<lambda>s1.
       case al_find (m_map s1) key of
         None \<Rightarrow>
           let (err, me, s2) = putNoEntry numDestroyTrackers key newValue updateCount destroyTracker tag None s1
           in Inr (result err me None newValue False, s2)
       | Some entry \<Rightarrow>
           let entryImpl = getImplPtr entry; oldValue = getValueI entryImpl in
           if oldValue = None \<or> oldValue = Some TombstoneToken then
             andThen (next_stamp env tag False entry s1) (\<lambda>(err, stamp).
               if err \<noteq> GF_NOERR then Inr (result err None oldValue newValue False, s1)
               else if oldValue = None then
                 andThen (putForTrackedEntry env key newValue entry updateCount stamp None s1) (\<lambda>(err1, _, i1, s2).
                   Inr (result err1 (if err1 = GF_NOERR then Some i1 else None) None newValue False, s2))
               else
                 let (err1, me, s2) = putNoEntry numDestroyTrackers key newValue updateCount destroyTracker tag
                       (Some stamp) (remove_entry key s1)
                 in Inr (result err1 (if err1 = GF_NOERR then Some entryImpl else me) None newValue False, s2))
           else Inr (result GF_CACHE_ENTRY_EXISTS None oldValue newValue False, s1))"

definition put_seg ::
  "('k, 'v) seg_env \<Rightarrow> int \<Rightarrow> 'k \<Rightarrow> 'v ptr \<Rightarrow> int \<Rightarrow> int \<Rightarrow> version_tag option \<Rightarrow> data_input option \<Rightarrow>
   ('k, 'v) seg_op" where
  "put_seg env numDestroyTrackers key newValue updateCount destroyTracker tag delta s =
     andThen (check_rehash s) (\<lambda>s1.
       case al_find (m_map s1) key of
         None \<Rightarrow>
           if delta \<noteq> None then Inr (result GF_INVALID_DELTA None None newValue False, s1)
           else
             let (err, me, s2) = putNoEntry numDestroyTrackers key newValue updateCount destroyTracker tag None s1
             in Inr (result err me None newValue False, s2)
       | Some entry \<Rightarrow>
           let entryImpl = getImplPtr entry; meOldValue = getValueI entryImpl in
           andThen (next_stamp env tag (delta \<noteq> None) entry s1) (\<lambda>(err, stamp).
             if err \<noteq> GF_NOERR then Inr (result err None None newValue False, s1)
             else if meOldValue = Some TombstoneToken then
               let (err1, me, s2) = putNoEntry numDestroyTrackers key newValue updateCount destroyTracker tag
                     (Some stamp) (remove_entry key s1)
               in Inr (result err1 me None newValue False, s2)
             else
               andThen (putForTrackedEntry env key newValue entry updateCount stamp delta s1) (\<lambda>(err1, newValue1, i1, s2).
                 if err1 = GF_NOERR
                 then Inr (result GF_NOERR (Some i1) meOldValue newValue1 (meOldValue \<noteq> None), s2)
                 else Inr (result err1 None None newValue1 False, s2))))"

definition invalidate_seg ::
  "('k, 'v) seg_env \<Rightarrow> int \<Rightarrow> 'k \<Rightarrow> version_tag option \<Rightarrow> ('k, 'v) seg_op" where
  "invalidate_seg env numDestroyTrackers key tag s =
     (case al_find (m_map s) key of
        Some entry \<Rightarrow>
          andThen (next_stamp env tag False entry s) (\<lambda>(err, stamp).
            if err \<noteq> GF_NOERR then Inr (result err None None None False, s)
            else
              let entryImpl = getImplPtr entry; oldValue = getValueI entryImpl in
              if oldValue = Some TombstoneToken
              then Inr (result GF_CACHE_ENTRY_NOT_FOUND None None None False, s)
              else
                let i1 = setValueI (Some InvalidToken) entryImpl;
                    i2 = (if m_concurrencyChecksEnabled s
                          then i1\<lparr>e_stamp := setVersions_stamp stamp (e_stamp i1)\<rparr> else i1)
                in Inr (result GF_NOERR (if oldValue \<noteq> None then Some i2 else None) oldValue None False,
                        incrementUpdateCount_copy key (update_impl (\<lambda>_. i2) entry) s))
      | None \<Rightarrow>
          if m_concurrencyChecksEnabled s then
            let (err, me, s1) = putNoEntry numDestroyTrackers key (Some InvalidToken) (-1) (-1) tag None s in
            if err \<noteq> GF_NOERR then Inr (result err me None None False, s1)
            else Inr (result GF_CACHE_ENTRY_NOT_FOUND me None None True, s1)
          else Inr (result GF_CACHE_ENTRY_NOT_FOUND None None None False, s))"

section \<open>Remove\<close>

text \<open>The flag of the result is \<open>isEntryFound\<close>, which the caller has set to true.\<close>

definition removeWhenConcurrencyEnabled ::
  "('k, 'v) seg_env \<Rightarrow> int \<Rightarrow> 'k \<Rightarrow> int \<Rightarrow> version_tag option \<Rightarrow> bool \<Rightarrow> ('k, 'v) seg_op" where
  "removeWhenConcurrencyEnabled env numDestroyTrackers key updateCount tag afterRemote s =
     (case al_find (m_map s) key of
        Some entry \<Rightarrow>
          andThen (next_stamp env tag False entry s) (\<lambda>(err, stamp).
            if err \<noteq> GF_NOERR then Inr (result err None None None True, s)
            else
              let entryImpl = getImplPtr entry; oldValue = getValueI entryImpl in
              andThen (putForTrackedEntry env key (Some TombstoneToken) entry updateCount stamp None s)
                (\<lambda>(err1, _, i1, s1).
                   let s2 = (if err1 = GF_NOERR then tombstone_add i1 s1 else s1);
                       me = (if oldValue \<noteq> None then Some i1 else None)
                   in if oldValue = Some TombstoneToken then
                        Inr (result (if afterRemote then GF_NOERR else GF_CACHE_ENTRY_NOT_FOUND) me None None True, s2)
                      else Inr (result err1 me oldValue None True, s2)))
      | None \<Rightarrow>
          let s1 = (case tag of
                      None \<Rightarrow> s
                    | Some t \<Rightarrow>
                        let (_, mapEntry, s0) = putNoEntry numDestroyTrackers key (Some TombstoneToken) (-1) 0 tag None s
                        in (case mapEntry of Some i \<Rightarrow> tombstone_add i s0 | None \<Rightarrow> s0))
          in Inr (result (if afterRemote then GF_NOERR else GF_CACHE_ENTRY_NOT_FOUND) None None None False, s1))"

definition remove_seg ::
  "('k, 'v) seg_env \<Rightarrow> int \<Rightarrow> 'k \<Rightarrow> int \<Rightarrow> version_tag option \<Rightarrow> bool \<Rightarrow> ('k, 'v) seg_op" where
  "remove_seg env numDestroyTrackers key updateCount tag afterRemote s =
     (if m_concurrencyChecksEnabled s
      then removeWhenConcurrencyEnabled env numDestroyTrackers key updateCount tag afterRemote s
      else
        (case al_find (m_map s) key of
           None \<Rightarrow>
             Inr (result GF_CACHE_ENTRY_NOT_FOUND None None None True,
                  (if 0 < numDestroyTrackers
                   then s\<lparr>m_destroyedKeys := al_assign key (numDestroyTrackers + 1) (m_destroyedKeys s)\<rparr>
                   else s))
         | Some entry \<Rightarrow>
             let s1 = s\<lparr>m_map := al_erase key (m_map s)\<rparr> in
             if 0 \<le> updateCount \<and> updateCount \<noteq> getUpdateCount entry
             then Inr (result GF_CACHE_ENTRY_UPDATED None None None True, s1)
             else
               let v = getValueI (getImplPtr entry);
                   oldValue = (if v = Some TombstoneToken then None else v)
               in Inr (result GF_NOERR (if oldValue \<noteq> None then Some (getImplPtr entry) else None)
                         oldValue None True, s1)))"

section \<open>Lookups\<close>

definition getEntry_seg :: "'k \<Rightarrow> ('k, 'v) segment \<Rightarrow> (('k, 'v) entry_impl \<times> 'v cacheable) option" where
  "getEntry_seg key s =
     (case al_find (m_map s) key of
        None \<Rightarrow> None
      | Some entry \<Rightarrow>
          (case getValueI (getImplPtr entry) of
             None \<Rightarrow> None
           | Some v \<Rightarrow> (if v = TombstoneToken then None else Some (getImplPtr entry, v))))"

definition containsKey_seg :: "'k \<Rightarrow> ('k, 'v) segment \<Rightarrow> bool" where
  "containsKey_seg key s =
     (case al_find (m_map s) key of
        None \<Rightarrow> False
      | Some entry \<Rightarrow> getValueI (getImplPtr entry) \<noteq> Some TombstoneToken)"

definition getKeys_seg :: "('k, 'v) segment \<Rightarrow> 'k list" where
  "getKeys_seg s =
     map fst (filter (\<lambda>(k, e). getValueI (getImplPtr e) \<noteq> Some TombstoneToken) (m_map s))"

text \<open>A region entry is its key and value, an invalid value being shown as null.\<close>

definition getEntries_seg :: "('k, 'v) segment \<Rightarrow> ('k \<times> 'v ptr) list" where
  "getEntries_seg s =
     map (\<lambda>(k, e). (e_key (getImplPtr e),
                    if getValueI (getImplPtr e) = Some InvalidToken then None else getValueI (getImplPtr e)))
       (filter (\<lambda>(k, e). getValueI (getImplPtr e) \<noteq> None \<and> getValueI (getImplPtr e) \<noteq> Some TombstoneToken)
         (m_map s))"

fun getValues_loop ::
  "('k, 'v) seg_env \<Rightarrow> ('k \<times> ('k, 'v) map_entry) list \<Rightarrow> 'v ptr list \<times> ('k \<times> ('k, 'v) map_entry) list" where
  "getValues_loop env [] = ([], [])"
| "getValues_loop env ((k, e) # m) =
     (let (vs, m') = getValues_loop env m; v = getValueI (getImplPtr e) in
      if v \<notin> {None, Some InvalidToken, Some DestroyedToken, Some TombstoneToken} then
        (if v = Some OverflowedToken
         then let v' = getFromDisc env k (getImplPtr e) in (v' # vs, (k, update_impl (setValueI v') e) # m')
         else (v # vs, (k, e) # m'))
      else (vs, (k, e) # m'))"

definition getValues_seg :: "('k, 'v) seg_env \<Rightarrow> ('k, 'v) segment \<Rightarrow> 'v ptr list \<times> ('k, 'v) segment" where
  "getValues_seg env s = (let (vs, m') = getValues_loop env (m_map s) in (vs, s\<lparr>m_map := m'\<rparr>))"

definition isTombstone_seg :: "'k \<Rightarrow> ('k, 'v) segment \<Rightarrow> gf_err \<times> ('k, 'v) entry_impl option \<times> bool" where
  "isTombstone_seg key s =
     (case al_find (m_map s) key of
        None \<Rightarrow> (GF_NOERR, None, False)
      | Some entry \<Rightarrow>
          (case getValueI (getImplPtr entry) of
             None \<Rightarrow> (GF_NOERR, None, False)
           | Some v \<Rightarrow>
               (if v = TombstoneToken then
                  (if tombstone_exists key s then (GF_NOERR, Some (getImplPtr entry), True)
                   else (GF_CACHE_ILLEGAL_STATE_EXCEPTION, None, False))
                else if tombstone_exists key s then (GF_CACHE_ILLEGAL_STATE_EXCEPTION, None, False)
                else (GF_NOERR, None, False))))"

section \<open>Tracking entries of the segment\<close>

definition addTrackerForEntry_seg ::
  "'k \<Rightarrow> bool \<Rightarrow> bool \<Rightarrow> bool \<Rightarrow> ('k, 'v) segment \<Rightarrow> int \<times> 'v ptr \<times> ('k, 'v) segment" where
  "addTrackerForEntry_seg key addIfAbsent failIfPresent incUpdateCount s =
     (if m_concurrencyChecksEnabled s then (-1, None, s)
      else
        let track = (\<lambda>entry. if incUpdateCount
                      then let (_, e1, n1) = addTracker entry;
                               (count, e2, n2) = incrementUpdateCount e1
                           in (count, (case n2 of
                                 Some n \<Rightarrow> n
                               | None \<Rightarrow> (case n1 of Some n \<Rightarrow> update_impl (\<lambda>_. getImplPtr e2) n | None \<Rightarrow> e2)))
                      else (fst (addTracker entry), rebound (addTracker entry)))
        in case al_find (m_map s) key of
             None \<Rightarrow>
               (if addIfAbsent then
                  let (e0, s1) = newMapEntry key s;
                      (count, e) = track (MapEntryT (setValueI (Some DestroyedToken) e0))
                  in (count, None, s1\<lparr>m_map := al_emplace key e (m_map s1)\<rparr>)
                else (-1, None, s))
           | Some entry \<Rightarrow>
               (if failIfPresent then (-1, getValueI (getImplPtr entry), s)
                else let (count, e) = track entry
                     in (count, getValueI (getImplPtr entry), bind_entry key e s)))"

definition removeTrackerForEntry_seg :: "'k \<Rightarrow> ('k, 'v) segment \<Rightarrow> ('k, 'v) segment" where
  "removeTrackerForEntry_seg key s =
     (if m_concurrencyChecksEnabled s then s
      else (case al_find (m_map s) key of None \<Rightarrow> s | Some entry \<Rightarrow> removeTracker_slot key entry s))"

text \<open>
  The loop over all entries: \<open>newEntry\<close> is declared outside of it, so an entry that one
  iteration sets is still there in the next.
\<close>

fun addTrackerForAllEntries_loop ::
  "('k, 'v) map_entry option \<Rightarrow> ('k \<times> ('k, 'v) map_entry) list \<Rightarrow> ('k \<times> int) list \<Rightarrow>
   ('k \<times> int) list \<times> ('k \<times> ('k, 'v) map_entry) list" where
  "addTrackerForAllEntries_loop newEntry [] counters = (counters, [])"
| "addTrackerForAllEntries_loop newEntry ((k, e) # m) counters =
     (let (count, e1, n) = addTracker e;
          newEntry1 = (case n of Some x \<Rightarrow> Some x | None \<Rightarrow> newEntry);
          slot = (case newEntry1 of Some x \<Rightarrow> x | None \<Rightarrow> e1);
          (counters1, m1) = addTrackerForAllEntries_loop newEntry1 m
             (al_emplace (e_key (getImplPtr e)) count counters)
      in (counters1, (k, slot) # m1))"

definition addTrackerForAllEntries_seg ::
  "('k \<times> int) list \<Rightarrow> ('k, 'v) segment \<Rightarrow> ('k \<times> int) list \<times> ('k, 'v) segment" where
  "addTrackerForAllEntries_seg counters s =
     (if m_concurrencyChecksEnabled s then (counters, s)
      else let (counters1, m1) = addTrackerForAllEntries_loop None (m_map s) counters
           in (counters1, s\<lparr>m_map := m1\<rparr>))"

definition removeDestroyTracking_seg :: "('k, 'v) segment \<Rightarrow> ('k, 'v) segment" where
  "removeDestroyTracking_seg s =
     (if m_concurrencyChecksEnabled s then s else s\<lparr>m_destroyedKeys := []\<rparr>)"

section \<open>The invariant with concurrency checks\<close>

text \<open>A value an entry may hold: not null and not the mark of a tracked absent entry.\<close>

definition stored :: "'v ptr \<Rightarrow> bool" where
  "stored v \<longleftrightarrow> v \<noteq> None \<and> v \<noteq> Some DestroyedToken"

definition storable :: "'v ptr \<Rightarrow> bool" where
  "storable v \<longleftrightarrow> stored v \<and> v \<noteq> Some TombstoneToken"

text \<open>
  A slot of the map is consistent: its entry belongs to the key, is not wrapped, and is
  listed as a tombstone exactly when its value is the tombstone token.
\<close>

definition slot_ok :: "('k, 'v) segment \<Rightarrow> 'k \<Rightarrow> bool" where
  "slot_ok s k \<longleftrightarrow>
     (case al_find (m_map s) k of
        None \<Rightarrow> al_find (tombstones s) k = None
      | Some (MapEntryT i) \<Rightarrow>
          e_key i = k \<and> stored (e_value i) \<and>
          (case al_find (tombstones s) k of
             None \<Rightarrow> e_value i \<noteq> Some TombstoneToken
           | Some t \<Rightarrow> e_value i = Some TombstoneToken \<and> t_entry t = i)
      | Some (TrackedMapEntry i t u) \<Rightarrow> False)"

definition conc_inv :: "('k, 'v) segment \<Rightarrow> bool" where
  "conc_inv s \<longleftrightarrow>
     m_concurrencyChecksEnabled s \<and> al_wf (m_map s) \<and> al_wf (tombstones s) \<and> (\<forall>k. slot_ok s k)"

text \<open>Two states that differ at one key only.\<close>

definition only_at :: "'k \<Rightarrow> ('k, 'v) segment \<Rightarrow> ('k, 'v) segment \<Rightarrow> bool" where
  "only_at k s s' \<longleftrightarrow>
     m_concurrencyChecksEnabled s' = m_concurrencyChecksEnabled s \<and>
     (al_wf (m_map s) \<longrightarrow> al_wf (m_map s')) \<and> (al_wf (tombstones s) \<longrightarrow> al_wf (tombstones s')) \<and>
     (\<forall>k'. k' \<noteq> k \<longrightarrow> al_find (m_map s') k' = al_find (m_map s) k' \<and>
                     al_find (tombstones s') k' = al_find (tombstones s) k')"

lemma only_at_refl [simp, intro]: "only_at k s s"
  by (simp add: only_at_def)

lemma only_at_trans: "only_at k s s' \<Longrightarrow> only_at k s' s'' \<Longrightarrow> only_at k s s''"
  by (simp add: only_at_def)

lemma only_at_find:
  assumes "only_at k s s'" "k' \<noteq> k"
  shows "al_find (m_map s') k' = al_find (m_map s) k'" "al_find (tombstones s') k' = al_find (tombstones s) k'"
  using assms by (simp_all add: only_at_def)

lemma slot_ok_only_at:
  assumes "only_at k s s'" "k' \<noteq> k"
  shows "slot_ok s' k' = slot_ok s k'"
  unfolding slot_ok_def only_at_find[OF assms] ..

lemma containsKey_only_at:
  assumes "only_at k s s'" "k' \<noteq> k"
  shows "containsKey_seg k' s' = containsKey_seg k' s"
  unfolding containsKey_seg_def only_at_find[OF assms] ..

lemma conc_inv_only_at:
  assumes "conc_inv s" "only_at k s s'" "slot_ok s' k"
  shows "conc_inv s'"
proof -
  have "slot_ok s' k'" for k'
    using assms slot_ok_only_at[OF assms(2), of k'] by (cases "k' = k") (auto simp: conc_inv_def)
  with assms show ?thesis by (auto simp: conc_inv_def only_at_def)
qed

lemma slot_ok_absent [simp]:
  "al_find (m_map s) k = None \<Longrightarrow> slot_ok s k \<longleftrightarrow> al_find (tombstones s) k = None"
  by (simp add: slot_ok_def)

lemma slot_ok_live [simp]:
  "al_find (m_map s) k = Some (MapEntryT i) \<Longrightarrow> al_find (tombstones s) k = None \<Longrightarrow>
   slot_ok s k \<longleftrightarrow> e_key i = k \<and> stored (e_value i) \<and> e_value i \<noteq> Some TombstoneToken"
  by (simp add: slot_ok_def)

lemma slot_ok_dead [simp]:
  "al_find (m_map s) k = Some (MapEntryT i) \<Longrightarrow> al_find (tombstones s) k = Some t \<Longrightarrow>
   slot_ok s k \<longleftrightarrow> e_key i = k \<and> e_value i = Some TombstoneToken \<and> t_entry t = i"
  by (auto simp: slot_ok_def stored_def)

text \<open>The three states of a key.\<close>

lemma conc_inv_cases:
  assumes "conc_inv s"
  obtains (absent) "al_find (m_map s) k = None" "al_find (tombstones s) k = None"
  | (live) i where "al_find (m_map s) k = Some (MapEntryT i)" "al_find (tombstones s) k = None"
      "e_key i = k" "storable (e_value i)"
  | (dead) i t where "al_find (m_map s) k = Some (MapEntryT i)" "al_find (tombstones s) k = Some t"
      "e_key i = k" "e_value i = Some TombstoneToken" "t_entry t = i"
proof -
  have "slot_ok s k" using assms by (simp add: conc_inv_def)
  with that show ?thesis
    by (cases "al_find (m_map s) k"; cases "al_find (tombstones s) k")
      (auto simp: slot_ok_def storable_def split: map_entry.splits)
qed

lemma conc_inv_D: "conc_inv s \<Longrightarrow> m_concurrencyChecksEnabled s"
  by (simp add: conc_inv_def)

section \<open>What the primitives do to a slot\<close>

lemma getValueI_stored: "stored (e_value i) \<Longrightarrow> getValueI i = e_value i"
  by (simp add: stored_def getValueI_def)

lemma getValueI_tomb: "e_value i = Some TombstoneToken \<Longrightarrow> getValueI i = Some TombstoneToken"
  by (simp add: getValueI_def)

lemma storable_stored: "storable v \<Longrightarrow> stored v"
  by (simp add: storable_def)

lemma stored_tokens [simp]: "stored (Some (Obj v))" "stored (Some InvalidToken)" "stored (Some TombstoneToken)"
    "storable (Some (Obj v))" "storable (Some InvalidToken)" "\<not> storable (Some TombstoneToken)" "\<not> storable None"
  by (simp_all add: stored_def storable_def)

lemma only_at_tombstone_add [intro, simp]: "only_at (e_key i) s (tombstone_add i s)"
  by (auto simp: only_at_def tombstone_add_def)

lemma only_at_tombstone_erase [intro, simp]: "only_at k s (snd (tombstone_erase k s))"
  by (auto simp: only_at_def tombstone_erase_def split: option.splits)

lemma only_at_bind_entry [intro, simp]: "only_at k s (bind_entry k e s)"
  by (auto simp: only_at_def bind_entry_def)

lemma only_at_remove_entry [intro, simp]: "only_at k s (remove_entry k s)"
  by (auto simp: only_at_def remove_entry_def tombstone_erase_def Let_def split: option.splits)

lemma slot_finds [simp]:
  "al_find (m_map (tombstone_add i s)) k' = al_find (m_map s) k'"
  "al_find (tombstones (tombstone_add i s)) (e_key i) = Some \<lparr>t_id = seg_next s, t_entry = i\<rparr>"
  "m_map (snd (tombstone_erase k s)) = m_map s"
  "al_find (tombstones (snd (tombstone_erase k s))) k = None"
  "al_find (m_map (bind_entry k e s)) k = Some e"
  "tombstones (bind_entry k e s) = tombstones s"
  "al_find (m_map (remove_entry k s)) k = None"
  "al_find (tombstones (remove_entry k s)) k = None"
  "m_concurrencyChecksEnabled (snd (tombstone_erase k s)) = m_concurrencyChecksEnabled s"
  "m_concurrencyChecksEnabled (remove_entry k s) = m_concurrencyChecksEnabled s"
  by (auto simp: tombstone_add_def tombstone_erase_def bind_entry_def remove_entry_def Let_def
      split: option.splits)

lemma conc_inv_remove_entry: "conc_inv s \<Longrightarrow> conc_inv (remove_entry k s)"
  by (rule conc_inv_only_at[OF _ only_at_remove_entry]) simp_all

lemma check_rehash_Inr:
  assumes "check_rehash s = Inr s1"
  shows "m_map s1 = m_map s" "tombstones s1 = tombstones s"
    "m_concurrencyChecksEnabled s1 = m_concurrencyChecksEnabled s" "m_destroyedKeys s1 = m_destroyedKeys s"
  using assms by (auto simp: check_rehash_def rehash_def andThen_Inr_conv split: if_splits)

lemma only_at_check_rehash: "check_rehash s = Inr s1 \<Longrightarrow> only_at k s s1"
  by (simp add: only_at_def check_rehash_Inr)

lemma conc_inv_check_rehash:
  assumes "check_rehash s = Inr s1" "conc_inv s"
  shows "conc_inv s1"
  using assms(2) unfolding conc_inv_def slot_ok_def check_rehash_Inr[OF assms(1)] .

lemma putNoEntry_conc:
  assumes conc: "m_concurrencyChecksEnabled s" and absent: "al_find (m_map s) k = None"
    and res: "putNoEntry n k v uc dt tag st s = (err, me, s')"
  obtains i where "err = GF_NOERR" "me = Some i" "e_key i = k" "e_value i = v"
    "e_stamp i = (case tag of Some t \<Rightarrow> setVersions t new_VersionStamp
       | None \<Rightarrow> (case st of Some st \<Rightarrow> setVersions_stamp st new_VersionStamp | None \<Rightarrow> new_VersionStamp))"
    "al_find (m_map s') k = Some (MapEntryT i)" "tombstones s' = tombstones s" "only_at k s s'"
proof -
  define e2 where "e2 = (case tag of
      Some t \<Rightarrow> (setValueI v (fst (newMapEntry k s)))\<lparr>e_stamp := setVersions t new_VersionStamp\<rparr>
    | None \<Rightarrow> (case st of Some st \<Rightarrow> (setValueI v (fst (newMapEntry k s)))\<lparr>e_stamp := setVersions_stamp st new_VersionStamp\<rparr>
        | None \<Rightarrow> setValueI v (fst (newMapEntry k s))))"
  have r: "err = GF_NOERR" "me = Some e2"
    "s' = s\<lparr>seg_next := seg_next s + 1, m_map := al_emplace k (MapEntryT e2) (m_map s)\<rparr>"
    using res conc
    by (auto simp: putNoEntry_def newMapEntry_def e2_def setValueI_def Let_def split: option.splits)
  show ?thesis
  proof (rule that[OF r(1,2)])
    show "e_key e2 = k" "e_value e2 = v"
      "e_stamp e2 = (case tag of Some t \<Rightarrow> setVersions t new_VersionStamp
       | None \<Rightarrow> (case st of Some st \<Rightarrow> setVersions_stamp st new_VersionStamp | None \<Rightarrow> new_VersionStamp))"
      by (simp_all add: e2_def newMapEntry_def setValueI_def split: option.splits)
    show "al_find (m_map s') k = Some (MapEntryT e2)" "tombstones s' = tombstones s" "only_at k s s'"
      using absent by (auto simp: r(3) only_at_def)
  qed
qed

lemma putForTrackedEntry_conc:
  assumes "m_concurrencyChecksEnabled s"
    and "i' = i\<lparr>e_value := v, e_stamp := setVersions_stamp stamp (e_stamp i)\<rparr>"
  shows "putForTrackedEntry env k v (MapEntryT i) uc stamp None s =
    Inr (GF_NOERR, v, i', bind_entry k (MapEntryT i') (snd (tombstone_erase k s)))"
  using assms
  by (simp add: putForTrackedEntry_def setValueI_def incrementUpdateCount_slot_def Let_def)

lemma apply_delta_Inr:
  assumes "apply_delta env k d i = Inr (err, nv, i')"
  shows "e_key i' = e_key i" "err = GF_NOERR \<Longrightarrow> \<exists>w. e_value i' = Some (Obj w)"
    "e_value i' = e_value i \<or> (\<exists>w. e_value i' = Some (Obj w))"
  using assms
  by (auto simp: apply_delta_def Let_def setValueI_def split: if_splits option.splits cacheable.splits prod.splits)

lemma putForTrackedEntry_delta_eq:
  assumes "m_concurrencyChecksEnabled s" "apply_delta env k d i = Inr (err, nv, i1)"
    and "i2 = i1\<lparr>e_stamp := setVersions_stamp stamp (e_stamp i1)\<rparr>"
  shows "putForTrackedEntry env k v (MapEntryT i) uc stamp (Some d) s =
    (if err \<noteq> GF_NOERR then Inr (err, v, i1, bind_entry k (MapEntryT i1) s)
     else Inr (GF_NOERR, nv, i2, bind_entry k (MapEntryT i2) (snd (tombstone_erase k s))))"
  using assms by (simp add: putForTrackedEntry_def incrementUpdateCount_slot_def)

lemma putForTrackedEntry_delta:
  assumes conc: "m_concurrencyChecksEnabled s" and tomb: "al_find (tombstones s) k = None"
    and res: "putForTrackedEntry env k v (MapEntryT i) uc stamp (Some d) s = Inr (err, nv, i', s')"
    and val: "storable (e_value i)"
  shows "only_at k s s' \<and> al_find (m_map s') k = Some (MapEntryT i') \<and>
    al_find (tombstones s') k = None \<and> e_key i' = e_key i \<and> storable (e_value i')"
proof (cases "apply_delta env k d i")
  case (Inl e)
  with res conc show ?thesis by (simp add: putForTrackedEntry_def)
next
  case (Inr p)
  obtain err0 nv0 i0 where p: "p = (err0, nv0, i0)" by (cases p)
  note d = Inr[unfolded p]
  note ad = apply_delta_Inr[OF d]
  have val0: "storable (e_value i0)" using ad(3) val by auto
  show ?thesis
  proof (cases "err0 = GF_NOERR")
    case True
    let ?i2 = "i0\<lparr>e_stamp := setVersions_stamp stamp (e_stamp i0)\<rparr>"
    from True res putForTrackedEntry_delta_eq[OF conc d refl, of v uc stamp]
    have "i' = ?i2" "s' = bind_entry k (MapEntryT ?i2) (snd (tombstone_erase k s))" by auto
    moreover have "only_at k s (bind_entry k (MapEntryT ?i2) (snd (tombstone_erase k s)))"
      by (rule only_at_trans[OF only_at_tombstone_erase only_at_bind_entry])
    ultimately show ?thesis using ad(1) val0 by simp
  next
    case False
    with res putForTrackedEntry_delta_eq[OF conc d refl, of v uc stamp]
    have "i' = i0" "s' = bind_entry k (MapEntryT i0) s" by auto
    then show ?thesis using ad(1) val0 tomb by simp
  qed
qed

lemma next_stamp_conc:
  "m_concurrencyChecksEnabled s \<Longrightarrow> next_stamp env tag dc (MapEntryT i) s =
   (case tag of None \<Rightarrow> Inr (GF_NOERR, e_stamp i)
    | Some t \<Rightarrow> andThen (checkForConflict (env_members env) t dc (e_stamp i)) (\<lambda>err.
        if err \<noteq> GF_NOERR then Inr (err, e_stamp i) else Inr (GF_NOERR, setVersions t (e_stamp i))))"
  by (simp add: next_stamp_def processVersionTag_def split: option.splits)

section \<open>The contract of the operations\<close>

text \<open>
  The abstract view of a segment: a partial map from keys to values. Tombstones and absent
  keys look the same.
\<close>

definition lookup_seg :: "'k \<Rightarrow> ('k, 'v) segment \<Rightarrow> 'v ptr" where
  "lookup_seg k s = map_option snd (getEntry_seg k s)"

text \<open>
  The effect an operation on a key may have: the invariant stays, no other key changes, and
  afterwards the key has the given value.
\<close>

definition op_effect :: "'k \<Rightarrow> ('k, 'v) segment \<Rightarrow> ('k, 'v) segment \<Rightarrow> 'v ptr \<Rightarrow> bool" where
  "op_effect k s s' w \<longleftrightarrow> conc_inv s' \<and> only_at k s s' \<and> lookup_seg k s' = w"

lemma lookup_only_at:
  assumes "only_at k s s'" "k' \<noteq> k"
  shows "lookup_seg k' s' = lookup_seg k' s"
  unfolding lookup_seg_def getEntry_seg_def only_at_find[OF assms] ..

lemma lookup_find:
  "al_find (m_map s) k = None \<Longrightarrow> lookup_seg k s = None"
  "al_find (m_map s) k = Some (MapEntryT i) \<Longrightarrow> storable (e_value i) \<Longrightarrow> lookup_seg k s = e_value i"
  "al_find (m_map s) k = Some (MapEntryT i) \<Longrightarrow> e_value i = Some TombstoneToken \<Longrightarrow> lookup_seg k s = None"
  by (auto simp: lookup_seg_def getEntry_seg_def getValueI_def storable_def stored_def split: option.splits)

lemma containsKey_lookup:
  assumes "conc_inv s"
  shows "containsKey_seg k s \<longleftrightarrow> lookup_seg k s \<noteq> None"
  using assms
proof (cases rule: conc_inv_cases[where k = k])
  case (live i)
  then show ?thesis
    using getValueI_stored[of i] lookup_find(2)[of s k i] by (auto simp: containsKey_seg_def storable_def stored_def)
qed (simp_all add: containsKey_seg_def lookup_find getValueI_tomb)

lemma op_effect_live:
  assumes "conc_inv s" "only_at k s s'" "al_find (m_map s') k = Some (MapEntryT i)"
    "al_find (tombstones s') k = None" "e_key i = k" "storable (e_value i)"
  shows "op_effect k s s' (e_value i)"
  using assms conc_inv_only_at[OF assms(1,2)] lookup_find(2)[OF assms(3)]
  by (simp add: op_effect_def storable_def)

lemma op_effect_dead:
  assumes "conc_inv s" "only_at k s s'" "al_find (m_map s') k = Some (MapEntryT i)"
    "al_find (tombstones s') k = Some t" "e_key i = k" "e_value i = Some TombstoneToken" "t_entry t = i"
  shows "op_effect k s s' None"
  using assms conc_inv_only_at[OF assms(1,2)] lookup_find(3)[OF assms(3)]
  by (simp add: op_effect_def)

lemma op_effect_same: "conc_inv s \<Longrightarrow> op_effect k s s (lookup_seg k s)"
  by (simp add: op_effect_def)

lemma op_effect_rehash:
  assumes "check_rehash s = Inr s1" "op_effect k s1 s' w"
  shows "op_effect k s s' w"
  using assms only_at_trans[OF only_at_check_rehash[OF assms(1)]] by (auto simp: op_effect_def)

lemma lookup_rehash: "check_rehash s = Inr s1 \<Longrightarrow> lookup_seg k s1 = lookup_seg k s"
  by (simp add: lookup_seg_def getEntry_seg_def check_rehash_Inr)

lemma op_effect_put_absent:
  assumes inv: "conc_inv s" and absent: "al_find (m_map s) k = None" and v: "storable v"
    and res: "putNoEntry n k v uc dt tag st s = (err, me, s')"
  shows "err = GF_NOERR \<and> op_effect k s s' v"
proof -
  from inv absent have "al_find (tombstones s) k = None"
    by (cases rule: conc_inv_cases[where k = k]) simp_all
  with putNoEntry_conc[OF conc_inv_D[OF inv] absent res] v op_effect_live[OF inv] show ?thesis
    by metis
qed

lemma op_effect_revive:
  assumes inv: "conc_inv s" and v: "storable v"
    and res: "putNoEntry n k v uc dt tag st (remove_entry k s) = (err, me, s')"
  shows "err = GF_NOERR \<and> op_effect k s s' v"
proof -
  have "op_effect k (remove_entry k s) s' v" "err = GF_NOERR"
    using op_effect_put_absent[OF conc_inv_remove_entry[OF inv] _ v res] by simp_all
  with only_at_trans[OF only_at_remove_entry] show ?thesis by (auto simp: op_effect_def)
qed

lemma op_effect_update:
  assumes inv: "conc_inv s" and v: "storable v" and k: "e_key i = k"
  shows "op_effect k s (bind_entry k (MapEntryT (i\<lparr>e_value := v, e_stamp := st\<rparr>)) (snd (tombstone_erase k s))) v"
  using op_effect_live[OF inv only_at_trans[OF only_at_tombstone_erase only_at_bind_entry],
        where i = "i\<lparr>e_value := v, e_stamp := st\<rparr>"] v k by simp

text \<open>The segment calls of an operation, by the state of its key.\<close>

lemma create_seg_effect:
  assumes inv: "conc_inv s" and v: "storable v"
    and res: "create_seg env n k v uc dt tag s = Inr (r, s')"
  shows "op_effect k s s' (if r_err r = GF_NOERR then v else lookup_seg k s) \<and>
    (r_err r = GF_NOERR \<longrightarrow> lookup_seg k s = None \<and> r_oldValue r = None)"
proof -
  from res obtain s1 where s1: "check_rehash s = Inr s1"
    by (auto simp: create_seg_def andThen_Inr_conv)
  note inv1 = conc_inv_check_rehash[OF s1 inv]
  from inv1 have "op_effect k s1 s' (if r_err r = GF_NOERR then v else lookup_seg k s1) \<and>
    (r_err r = GF_NOERR \<longrightarrow> lookup_seg k s1 = None \<and> r_oldValue r = None)"
  proof (cases rule: conc_inv_cases[where k = k])
    case absent
    obtain err me s2 where p: "putNoEntry n k v uc dt tag None s1 = (err, me, s2)"
      by (cases "putNoEntry n k v uc dt tag None s1")
    with res s1 absent have "r = result err me None v False" "s' = s2"
      by (auto simp: create_seg_def)
    with op_effect_put_absent[OF inv1 absent(1) v p] absent show ?thesis
      by (simp add: result_def lookup_find)
  next
    case (live i)
    then have val: "getValueI i = e_value i" "e_value i \<noteq> None" "e_value i \<noteq> Some TombstoneToken"
      using getValueI_stored[of i] by (auto simp: storable_def stored_def)
    with res s1 live have "r = result GF_CACHE_ENTRY_EXISTS None (e_value i) v False" "s' = s1"
      by (auto simp: create_seg_def Let_def)
    with op_effect_same[OF inv1, of k] live val show ?thesis by (simp add: result_def)
  next
    case (dead i t)
    then have val: "getValueI i = Some TombstoneToken" by (simp add: getValueI_tomb)
    from res s1 dead val obtain err st where st: "next_stamp env tag False (MapEntryT i) s1 = Inr (err, st)"
      by (auto simp: create_seg_def andThen_Inr_conv Let_def)
    show ?thesis
    proof (cases "err = GF_NOERR")
      case False
      with res s1 dead val st have "r = result err None (Some TombstoneToken) v False" "s' = s1"
        by (auto simp: create_seg_def Let_def)
      with False op_effect_same[OF inv1, of k] show ?thesis by (simp add: result_def)
    next
      case True
      obtain err1 me s2 where p: "putNoEntry n k v uc dt tag (Some st) (remove_entry k s1) = (err1, me, s2)"
        by (cases "putNoEntry n k v uc dt tag (Some st) (remove_entry k s1)")
      from op_effect_revive[OF inv1 v p] have e: "err1 = GF_NOERR" "op_effect k s1 s2 v" by simp_all
      with True res s1 dead val st p have "r = result GF_NOERR (Some i) None v False" "s' = s2"
        by (auto simp: create_seg_def Let_def)
      with e dead show ?thesis by (simp add: result_def lookup_find)
    qed
  qed
  then show ?thesis
    using op_effect_rehash[OF s1, of k s'] lookup_rehash[OF s1, of k] by auto
qed

lemma put_seg_effect:
  assumes inv: "conc_inv s" and v: "storable v"
    and res: "put_seg env n k v uc dt tag None s = Inr (r, s')"
  shows "op_effect k s s' (if r_err r = GF_NOERR then v else lookup_seg k s) \<and>
    (r_err r = GF_NOERR \<longrightarrow> r_flag r = (lookup_seg k s \<noteq> None) \<and> r_oldValue r = lookup_seg k s)"
proof -
  from res obtain s1 where s1: "check_rehash s = Inr s1"
    by (auto simp: put_seg_def andThen_Inr_conv)
  note inv1 = conc_inv_check_rehash[OF s1 inv]
  note conc = conc_inv_D[OF inv1]
  from inv1 have "op_effect k s1 s' (if r_err r = GF_NOERR then v else lookup_seg k s1) \<and>
    (r_err r = GF_NOERR \<longrightarrow> r_flag r = (lookup_seg k s1 \<noteq> None) \<and> r_oldValue r = lookup_seg k s1)"
  proof (cases rule: conc_inv_cases[where k = k])
    case absent
    obtain err me s2 where p: "putNoEntry n k v uc dt tag None s1 = (err, me, s2)"
      by (cases "putNoEntry n k v uc dt tag None s1")
    with res s1 absent have "r = result err me None v False" "s' = s2"
      by (auto simp: put_seg_def)
    with op_effect_put_absent[OF inv1 absent(1) v p] absent show ?thesis
      by (simp add: result_def lookup_find)
  next
    case (live i)
    then have val: "getValueI i = e_value i" "e_value i \<noteq> None" "e_value i \<noteq> Some TombstoneToken"
      using getValueI_stored[of i] by (auto simp: storable_def stored_def)
    from res s1 live val obtain err st where st: "next_stamp env tag False (MapEntryT i) s1 = Inr (err, st)"
      by (auto simp: put_seg_def andThen_Inr_conv Let_def)
    show ?thesis
    proof (cases "err = GF_NOERR")
      case False
      with res s1 live val st have "r = result err None None v False" "s' = s1"
        by (auto simp: put_seg_def Let_def)
      with False op_effect_same[OF inv1, of k] show ?thesis by (simp add: result_def)
    next
      case True
      note p = putForTrackedEntry_conc[OF conc refl, of env k v i uc st]
      from True res s1 live val st p obtain me where "r = result GF_NOERR me (e_value i) v True"
        "s' = bind_entry k (MapEntryT (i\<lparr>e_value := v, e_stamp := setVersions_stamp st (e_stamp i)\<rparr>)) (snd (tombstone_erase k s1))"
        by (auto simp: put_seg_def Let_def)
      with op_effect_update[OF inv1 v live(3)] live val show ?thesis by (simp add: result_def lookup_find)
    qed
  next
    case (dead i t)
    then have val: "getValueI i = Some TombstoneToken" by (simp add: getValueI_tomb)
    from res s1 dead val obtain err st where st: "next_stamp env tag False (MapEntryT i) s1 = Inr (err, st)"
      by (auto simp: put_seg_def andThen_Inr_conv Let_def)
    show ?thesis
    proof (cases "err = GF_NOERR")
      case False
      with res s1 dead val st have "r = result err None None v False" "s' = s1"
        by (auto simp: put_seg_def Let_def)
      with False op_effect_same[OF inv1, of k] show ?thesis by (simp add: result_def)
    next
      case True
      obtain err1 me s2 where p: "putNoEntry n k v uc dt tag (Some st) (remove_entry k s1) = (err1, me, s2)"
        by (cases "putNoEntry n k v uc dt tag (Some st) (remove_entry k s1)")
      from op_effect_revive[OF inv1 v p] have e: "err1 = GF_NOERR" "op_effect k s1 s2 v" by simp_all
      with True res s1 dead val st p have "r = result GF_NOERR me None v False" "s' = s2"
        by (auto simp: put_seg_def Let_def)
      with e dead show ?thesis by (simp add: result_def lookup_find)
    qed
  qed
  then show ?thesis
    using op_effect_rehash[OF s1, of k s'] lookup_rehash[OF s1, of k] by auto
qed

lemma invalidate_seg_effect:
  assumes inv: "conc_inv s" and res: "invalidate_seg env n k tag s = Inr (r, s')"
  shows "op_effect k s s' (if r_err r = GF_NOERR \<or> r_flag r then Some InvalidToken else lookup_seg k s) \<and>
    (r_err r = GF_NOERR \<longrightarrow> lookup_seg k s \<noteq> None \<and> r_oldValue r = lookup_seg k s) \<and>
    (r_flag r \<longrightarrow> lookup_seg k s = None)"
proof -
  note conc = conc_inv_D[OF inv]
  from inv show ?thesis
  proof (cases rule: conc_inv_cases[where k = k])
    case absent
    obtain err me s2 where p: "putNoEntry n k (Some InvalidToken) (-1) (-1) tag None s = (err, me, s2)"
      by (cases "putNoEntry n k (Some InvalidToken) (-1) (-1) tag None s")
    note e = op_effect_put_absent[OF inv absent(1) _ p]
    with p res conc absent have "r = result GF_CACHE_ENTRY_NOT_FOUND me None None True" "s' = s2"
      by (auto simp: invalidate_seg_def)
    with e absent show ?thesis by (simp add: result_def lookup_find)
  next
    case (live i)
    then have val: "getValueI i = e_value i" "e_value i \<noteq> None" "e_value i \<noteq> Some TombstoneToken"
      using getValueI_stored[of i] by (auto simp: storable_def stored_def)
    from res live obtain err st where st: "next_stamp env tag False (MapEntryT i) s = Inr (err, st)"
      by (auto simp: invalidate_seg_def andThen_Inr_conv)
    show ?thesis
    proof (cases "err = GF_NOERR")
      case False
      with res live st have "r = result err None None None False" "s' = s"
        by (auto simp: invalidate_seg_def)
      with False op_effect_same[OF inv, of k] show ?thesis by (simp add: result_def)
    next
      case True
      define i2 where "i2 = i\<lparr>e_value := Some InvalidToken, e_stamp := setVersions_stamp st (e_stamp i)\<rparr>"
      from True res conc live val st have "r = result GF_NOERR (Some i2) (e_value i) None False"
        "s' = bind_entry k (MapEntryT i2) s"
        by (auto simp: invalidate_seg_def Let_def setValueI_def incrementUpdateCount_copy_def i2_def)
      moreover have "op_effect k s (bind_entry k (MapEntryT i2) s) (Some InvalidToken)"
        using op_effect_live[OF inv only_at_bind_entry, of k "MapEntryT i2" i2] live by (simp add: i2_def)
      ultimately show ?thesis using live val by (simp add: result_def lookup_find)
    qed
  next
    case (dead i t)
    then have val: "getValueI i = Some TombstoneToken" by (simp add: getValueI_tomb)
    from res dead obtain err st where st: "next_stamp env tag False (MapEntryT i) s = Inr (err, st)"
      by (auto simp: invalidate_seg_def andThen_Inr_conv)
    with res dead val have "r = result (if err \<noteq> GF_NOERR then err else GF_CACHE_ENTRY_NOT_FOUND) None None None False"
      "s' = s" by (auto simp: invalidate_seg_def Let_def split: if_splits)
    with op_effect_same[OF inv, of k] show ?thesis by (simp add: result_def)
  qed
qed

lemma op_effect_bury:
  assumes inv: "conc_inv s" and at: "only_at k s s1" and m: "al_find (m_map s1) k = Some (MapEntryT i)"
    and k: "e_key i = k" and v: "e_value i = Some TombstoneToken"
  shows "op_effect k s (tombstone_add i s1) None"
proof (rule op_effect_dead[OF inv, where i = i])
  show "only_at k s (tombstone_add i s1)"
    using only_at_trans[OF at] only_at_tombstone_add[of i s1] k by simp
  show "al_find (m_map (tombstone_add i s1)) k = Some (MapEntryT i)" using m by simp
  show "al_find (tombstones (tombstone_add i s1)) k = Some \<lparr>t_id = seg_next s1, t_entry = i\<rparr>"
    using slot_finds(2)[of i s1] k by simp
qed (simp_all add: k v)

lemma remove_seg_effect:
  assumes inv: "conc_inv s" and res: "remove_seg env n k uc tag afterRemote s = Inr (r, s')"
  shows "op_effect k s s' (if r_err r = GF_NOERR then None else lookup_seg k s) \<and>
    (r_err r = GF_NOERR \<longrightarrow> r_oldValue r = lookup_seg k s \<and>
       r_flag r = (lookup_seg k s \<noteq> None \<or> al_find (m_map s) k \<noteq> None)) \<and>
    (r_err r = GF_NOERR \<longrightarrow> lookup_seg k s = None \<longrightarrow> afterRemote)"
proof -
  note conc = conc_inv_D[OF inv]
  with res have res': "removeWhenConcurrencyEnabled env n k uc tag afterRemote s = Inr (r, s')"
    by (simp add: remove_seg_def)
  from inv show ?thesis
  proof (cases rule: conc_inv_cases[where k = k])
    case absent
    have "r = result (if afterRemote then GF_NOERR else GF_CACHE_ENTRY_NOT_FOUND) None None None False"
      using res' absent by (auto simp: removeWhenConcurrencyEnabled_def Let_def)
    moreover have "op_effect k s s' None"
    proof (cases tag)
      case None
      with res' absent have "s' = s" by (simp add: removeWhenConcurrencyEnabled_def)
      with op_effect_same[OF inv, of k] absent show ?thesis by (simp add: lookup_find)
    next
      case (Some t)
      obtain err me s0 where p: "putNoEntry n k (Some TombstoneToken) (-1) 0 tag None s = (err, me, s0)"
        by (cases "putNoEntry n k (Some TombstoneToken) (-1) 0 tag None s")
      obtain i where i: "me = Some i" "e_key i = k" "e_value i = Some TombstoneToken"
        "al_find (m_map s0) k = Some (MapEntryT i)" "only_at k s s0"
        by (rule putNoEntry_conc[OF conc absent(1) p]) blast
      with res' absent p Some have "s' = tombstone_add i s0"
        by (auto simp: removeWhenConcurrencyEnabled_def)
      with op_effect_bury[OF inv i(5,4,2,3)] show ?thesis by simp
    qed
    ultimately show ?thesis using absent by (simp add: result_def lookup_find)
  next
    case (live i)
    then have val: "getValueI i = e_value i" "e_value i \<noteq> None" "e_value i \<noteq> Some TombstoneToken"
      using getValueI_stored[of i] by (auto simp: storable_def stored_def)
    from res' live obtain err st where st: "next_stamp env tag False (MapEntryT i) s = Inr (err, st)"
      by (auto simp: removeWhenConcurrencyEnabled_def andThen_Inr_conv)
    show ?thesis
    proof (cases "err = GF_NOERR")
      case False
      with res' live st have "r = result err None None None True" "s' = s"
        by (auto simp: removeWhenConcurrencyEnabled_def)
      with False op_effect_same[OF inv, of k] show ?thesis by (simp add: result_def)
    next
      case True
      define i2 where "i2 = i\<lparr>e_value := Some TombstoneToken, e_stamp := setVersions_stamp st (e_stamp i)\<rparr>"
      note p = putForTrackedEntry_conc[OF conc i2_def, of env k uc]
      from True res' live val st p have "r = result GF_NOERR (Some i2) (e_value i) None True"
        "s' = tombstone_add i2 (bind_entry k (MapEntryT i2) (snd (tombstone_erase k s)))"
        by (auto simp: removeWhenConcurrencyEnabled_def Let_def)
      with op_effect_bury[OF inv only_at_trans[OF only_at_tombstone_erase only_at_bind_entry], of k "MapEntryT i2" i2]
        live val show ?thesis by (auto simp: result_def lookup_find i2_def)
    qed
  next
    case (dead i t)
    then have val: "getValueI i = Some TombstoneToken" by (simp add: getValueI_tomb)
    from res' dead obtain err st where st: "next_stamp env tag False (MapEntryT i) s = Inr (err, st)"
      by (auto simp: removeWhenConcurrencyEnabled_def andThen_Inr_conv)
    show ?thesis
    proof (cases "err = GF_NOERR")
      case False
      with res' dead st have "r = result err None None None True" "s' = s"
        by (auto simp: removeWhenConcurrencyEnabled_def)
      with False op_effect_same[OF inv, of k] show ?thesis by (simp add: result_def)
    next
      case True
      define i2 where "i2 = i\<lparr>e_value := Some TombstoneToken, e_stamp := setVersions_stamp st (e_stamp i)\<rparr>"
      note p = putForTrackedEntry_conc[OF conc i2_def, of env k uc]
      from True res' dead val st p
      have "r = result (if afterRemote then GF_NOERR else GF_CACHE_ENTRY_NOT_FOUND) (Some i2) None None True"
        "s' = tombstone_add i2 (bind_entry k (MapEntryT i2) (snd (tombstone_erase k s)))"
        by (auto simp: removeWhenConcurrencyEnabled_def Let_def)
      with op_effect_bury[OF inv only_at_trans[OF only_at_tombstone_erase only_at_bind_entry], of k "MapEntryT i2" i2]
        dead val show ?thesis by (simp add: result_def lookup_find i2_def)
    qed
  qed
qed

section \<open>Reaping and expiry\<close>

lemma remove_entry_effect: "conc_inv s \<Longrightarrow> op_effect k s (remove_entry k s) None"
  by (simp add: op_effect_def conc_inv_remove_entry lookup_find)

lemma fold_remove_entry:
  "conc_inv s \<Longrightarrow> conc_inv (fold remove_entry ks s) \<and>
    lookup_seg k (fold remove_entry ks s) = (if k \<in> set ks then None else lookup_seg k s)"
proof (induction ks arbitrary: s)
  case (Cons a ks)
  from remove_entry_effect[OF Cons.prems, of a]
  have "conc_inv (remove_entry a s)" "only_at a s (remove_entry a s)" "lookup_seg a (remove_entry a s) = None"
    by (simp_all add: op_effect_def)
  with Cons.IH[OF this(1)] lookup_only_at[OF this(2), of k] show ?case by auto
qed simp

lemma lookup_tombstoned:
  assumes "conc_inv s" "al_find (tombstones s) k \<noteq> None"
  shows "lookup_seg k s = None"
  using assms(1) by (cases rule: conc_inv_cases[where k = k]) (use assms(2) in \<open>simp_all add: lookup_find\<close>)

lemma fold_remove_entry_keys:
  "al_find (m_map (fold remove_entry ks s)) k \<noteq> None \<Longrightarrow> al_find (m_map s) k \<noteq> None"
proof (induction ks arbitrary: s)
  case (Cons a ks)
  then have "al_find (m_map (remove_entry a s)) k \<noteq> None" by simp
  then show ?case
    by (auto simp: remove_entry_def tombstone_erase_def Let_def split: option.splits if_splits)
qed simp

lemma reapTombstones_versions_keys:
  "al_find (m_map (reapTombstones_versions gc s)) k \<noteq> None \<Longrightarrow> al_find (m_map s) k \<noteq> None"
  unfolding reapTombstones_versions_def Let_def by (rule fold_remove_entry_keys)

lemma on_expire_keys: "al_find (m_map (on_expire t s)) k \<noteq> None \<Longrightarrow> al_find (m_map s) k \<noteq> None"
  by (auto simp: on_expire_def remove_tomb_entry_def tombstone_erase_def Let_def split: option.splits if_splits)

lemma reapTombstones_versions_effect:
  assumes "conc_inv s"
  shows "conc_inv (reapTombstones_versions gc s) \<and> lookup_seg k (reapTombstones_versions gc s) = lookup_seg k s"
proof -
  let ?ks = "map fst (filter (\<lambda>(key, t).
            case al_find gc (m_memberID (e_stamp (t_entry t))) of
              None \<Rightarrow> False
            | Some version \<Rightarrow> sint (getRegionVersion (e_stamp (t_entry t))) \<le> sint version)
            (tombstones s))"
  have eq: "reapTombstones_versions gc s = fold remove_entry ?ks s"
    by (simp add: reapTombstones_versions_def)
  have "lookup_seg k s = None" if "k \<in> set ?ks"
  proof -
    from that have "k \<in> fst ` set (tombstones s)" by auto
    then have "al_find (tombstones s) k \<noteq> None" by (simp add: al_find_None_iff)
    with assms show ?thesis by (rule lookup_tombstoned)
  qed
  with fold_remove_entry[OF assms, of ?ks k] show ?thesis unfolding eq by (auto simp del: set_map)
qed

lemma on_expire_effect:
  assumes "conc_inv s"
  shows "conc_inv (on_expire t s) \<and> lookup_seg k (on_expire t s) = lookup_seg k s"
proof (cases "t_id t \<notin> set (seg_invalidated s) \<and> al_find (tombstones s) (e_key (t_entry t)) \<noteq> None")
  case True
  then have eq: "on_expire t s = remove_entry (e_key (t_entry t)) s"
    by (auto simp: on_expire_def remove_tomb_entry_def remove_entry_def tombstone_erase_def Let_def)
  from fold_remove_entry[OF assms, of "[e_key (t_entry t)]" k] lookup_tombstoned[OF assms] True
  show ?thesis by (auto simp: eq split: if_splits)
next
  case False
  then have "on_expire t s = s"
    by (auto simp: on_expire_def remove_tomb_entry_def tombstone_erase_def split: option.splits)
  with assms show ?thesis by simp
qed

end
