(* ===== verification/Entries_Map.thy ===== *)
theory Entries_Map
  imports Map_Segment
begin

text \<open>
  The entry map of a region (\<open>ConcurrentEntriesMap.cpp\<close>, \<open>ConcurrentEntriesMap.hpp\<close>):
  a fixed array of segments, a key living in the segment its hash code selects, and one
  counter for the number of entries. Every call into a segment is one step under that
  segment's lock, and the update of the counter belongs to the same step.

  The contract a segment operation has to keep for the counter to be right is the locale
  \<open>accounted_op\<close>; it is interpreted for create, put, invalidate and remove.
\<close>

section \<open>State\<close>

text \<open>
  \<open>m_size\<close> and \<open>m_numDestroyTrackers\<close> are atomic 32 bit integers; the second is
  signed. Before \<open>open\<close> the segment array is null, which is the empty list.
\<close>

record ('k, 'v) entries_map =
  m_concurrency :: nat
  m_segments :: "('k, 'v) segment list"
  m_size :: u32
  m_numDestroyTrackers :: u32
  cem_concurrencyChecksEnabled :: bool

type_synonym ('k, 'v) map_op = "('k, 'v) entries_map \<Rightarrow> gf_exn + (('k, 'v) op_result \<times> ('k, 'v) entries_map)"

definition new_ConcurrentEntriesMap :: "bool \<Rightarrow> nat \<Rightarrow> gf_exn + ('k, 'v) entries_map" where
  "new_ConcurrentEntriesMap concurrencyChecksEnabled concurrency =
     andThen
       (if getMaxPrimeForConcurrency < concurrency then Inr getMaxPrimeForConcurrency
        else nextLargerPrimeForConcurrency concurrency)
       (\<lambda>c. Inr \<lparr>m_concurrency = c, m_segments = [], m_size = 0, m_numDestroyTrackers = 0,
                 cem_concurrencyChecksEnabled = concurrencyChecksEnabled\<rparr>)"

fun open_all :: "nat \<Rightarrow> nat \<Rightarrow> bool \<Rightarrow> gf_exn + ('k, 'v) segment list" where
  "open_all 0 segSize cc = Inr []"
| "open_all (Suc n) segSize cc =
     andThen (open_segment segSize cc) (\<lambda>s. andThen (open_all n segSize cc) (\<lambda>ss. Inr (s # ss)))"

definition open_map :: "u32 \<Rightarrow> ('k, 'v) entries_map \<Rightarrow> gf_exn + ('k, 'v) entries_map" where
  "open_map initialCapacity M =
     (let segSize = 1 + (initialCapacity - 1) div of_nat (m_concurrency M) in
      andThen (open_all (m_concurrency M) (unat segSize) (cem_concurrencyChecksEnabled M))
        (\<lambda>ss. Inr (M\<lparr>m_segments := ss\<rparr>)))"

definition clear_map :: "('k, 'v) entries_map \<Rightarrow> ('k, 'v) entries_map" where
  "clear_map M = M\<lparr>m_segments := map clear_segment (m_segments M), m_size := 0\<rparr>"

section \<open>The segment of a key\<close>

text \<open>The hash code of a key is that of the key's class: a parameter.\<close>

definition segmentIdx :: "('k \<Rightarrow> u32) \<Rightarrow> 'k \<Rightarrow> ('k, 'v) entries_map \<Rightarrow> nat" where
  "segmentIdx hashcode key M = unat (hashcode key) mod m_concurrency M"

definition segmentFor :: "('k \<Rightarrow> u32) \<Rightarrow> 'k \<Rightarrow> ('k, 'v) entries_map \<Rightarrow> gf_exn + ('k, 'v) segment" where
  "segmentFor hashcode key M =
     (if segmentIdx hashcode key M < length (m_segments M)
      then Inr (m_segments M ! segmentIdx hashcode key M) else Inl MemoryFault)"

text \<open>A call of an operation of the key's segment.\<close>

definition on_segment :: "('k \<Rightarrow> u32) \<Rightarrow> 'k \<Rightarrow> ('k, 'v) seg_op \<Rightarrow> ('k, 'v) map_op" where
  "on_segment hashcode key op M =
     andThen (segmentFor hashcode key M) (\<lambda>s.
       andThen (op s) (\<lambda>(r, s').
         Inr (r, M\<lparr>m_segments := (m_segments M)[segmentIdx hashcode key M := s']\<rparr>)))"

definition add_size :: "u32 \<Rightarrow> ('k, 'v) entries_map \<Rightarrow> ('k, 'v) entries_map" where
  "add_size d M = M\<lparr>m_size := m_size M + d\<rparr>"

section \<open>The operations\<close>

definition create_map ::
  "('k \<Rightarrow> u32) \<Rightarrow> ('k, 'v) seg_env \<Rightarrow> 'k \<Rightarrow> 'v ptr \<Rightarrow> int \<Rightarrow> int \<Rightarrow> version_tag option \<Rightarrow> ('k, 'v) map_op" where
  "create_map hashcode env key newValue updateCount destroyTracker tag M =
     andThen (on_segment hashcode key
         (create_seg env (sint (m_numDestroyTrackers M)) key newValue updateCount destroyTracker tag) M)
       (\<lambda>(r, M'). Inr (r, if r_err r = GF_NOERR \<and> r_oldValue r = None then add_size 1 M' else M'))"

definition invalidate_map ::
  "('k \<Rightarrow> u32) \<Rightarrow> ('k, 'v) seg_env \<Rightarrow> 'k \<Rightarrow> version_tag option \<Rightarrow> ('k, 'v) map_op" where
  "invalidate_map hashcode env key tag M =
     andThen (on_segment hashcode key (invalidate_seg env (sint (m_numDestroyTrackers M)) key tag) M)
       (\<lambda>(r, M'). Inr (r, if r_flag r then add_size 1 M' else M'))"

definition put_map ::
  "('k \<Rightarrow> u32) \<Rightarrow> ('k, 'v) seg_env \<Rightarrow> 'k \<Rightarrow> 'v ptr \<Rightarrow> int \<Rightarrow> int \<Rightarrow> version_tag option \<Rightarrow> data_input option \<Rightarrow>
   ('k, 'v) map_op" where
  "put_map hashcode env key newValue updateCount destroyTracker tag delta M =
     andThen (on_segment hashcode key
         (put_seg env (sint (m_numDestroyTrackers M)) key newValue updateCount destroyTracker tag delta) M)
       (\<lambda>(r, M'). Inr (r, if r_err r \<noteq> GF_NOERR then M' else if \<not> r_flag r then add_size 1 M' else M'))"

definition remove_map ::
  "('k \<Rightarrow> u32) \<Rightarrow> ('k, 'v) seg_env \<Rightarrow> 'k \<Rightarrow> int \<Rightarrow> version_tag option \<Rightarrow> bool \<Rightarrow> ('k, 'v) map_op" where
  "remove_map hashcode env key updateCount tag afterRemote M =
     andThen (on_segment hashcode key
         (remove_seg env (sint (m_numDestroyTrackers M)) key updateCount tag afterRemote) M)
       (\<lambda>(r, M'). Inr (r, if r_err r = GF_NOERR \<and> r_flag r then add_size (- 1) M' else M'))"

definition get_map ::
  "('k \<Rightarrow> u32) \<Rightarrow> 'k \<Rightarrow> ('k, 'v) entries_map \<Rightarrow> gf_exn + (('k, 'v) entry_impl \<times> 'v cacheable) option" where
  "get_map hashcode key M = andThen (segmentFor hashcode key M) (\<lambda>s. Inr (getEntry_seg key s))"

definition containsKey_map :: "('k \<Rightarrow> u32) \<Rightarrow> 'k \<Rightarrow> ('k, 'v) entries_map \<Rightarrow> gf_exn + bool" where
  "containsKey_map hashcode key M = andThen (segmentFor hashcode key M) (\<lambda>s. Inr (containsKey_seg key s))"

definition getKeys_map :: "('k, 'v) entries_map \<Rightarrow> 'k list" where
  "getKeys_map M = concat (map getKeys_seg (m_segments M))"

definition getEntries_map :: "('k, 'v) entries_map \<Rightarrow> ('k \<times> 'v ptr) list" where
  "getEntries_map M = concat (map getEntries_seg (m_segments M))"

definition getValues_map :: "('k, 'v) seg_env \<Rightarrow> ('k, 'v) entries_map \<Rightarrow> 'v ptr list \<times> ('k, 'v) entries_map" where
  "getValues_map env M =
     (let rs = map (getValues_seg env) (m_segments M)
      in (concat (map fst rs), M\<lparr>m_segments := map snd rs\<rparr>))"

definition empty_map :: "('k, 'v) entries_map \<Rightarrow> bool" where
  "empty_map M = (m_size M = 0)"

definition size_map :: "('k, 'v) entries_map \<Rightarrow> u32" where
  "size_map M = m_size M"

definition addTrackerForEntry_map ::
  "('k \<Rightarrow> u32) \<Rightarrow> 'k \<Rightarrow> bool \<Rightarrow> bool \<Rightarrow> bool \<Rightarrow> ('k, 'v) entries_map \<Rightarrow>
   gf_exn + (int \<times> 'v ptr \<times> ('k, 'v) entries_map)" where
  "addTrackerForEntry_map hashcode key addIfAbsent failIfPresent incUpdateCount M =
     (if cem_concurrencyChecksEnabled M then Inr (-1, None, M)
      else
        andThen (segmentFor hashcode key M) (\<lambda>s.
          let (count, oldValue, s') = addTrackerForEntry_seg key addIfAbsent failIfPresent incUpdateCount s
          in Inr (count, oldValue, M\<lparr>m_segments := (m_segments M)[segmentIdx hashcode key M := s']\<rparr>)))"

definition removeTrackerForEntry_map ::
  "('k \<Rightarrow> u32) \<Rightarrow> 'k \<Rightarrow> ('k, 'v) entries_map \<Rightarrow> gf_exn + ('k, 'v) entries_map" where
  "removeTrackerForEntry_map hashcode key M =
     (if cem_concurrencyChecksEnabled M then Inr M
      else
        andThen (segmentFor hashcode key M) (\<lambda>s.
          Inr (M\<lparr>m_segments := (m_segments M)[segmentIdx hashcode key M := removeTrackerForEntry_seg key s]\<rparr>)))"

fun addTrackerForAll_segments ::
  "('k \<times> int) list \<Rightarrow> ('k, 'v) segment list \<Rightarrow> ('k \<times> int) list \<times> ('k, 'v) segment list" where
  "addTrackerForAll_segments counters [] = (counters, [])"
| "addTrackerForAll_segments counters (s # ss) =
     (let (counters1, s') = addTrackerForAllEntries_seg counters s;
          (counters2, ss') = addTrackerForAll_segments counters1 ss
      in (counters2, s' # ss'))"

definition addTrackerForAllEntries_map ::
  "('k \<times> int) list \<Rightarrow> bool \<Rightarrow> ('k, 'v) entries_map \<Rightarrow> int \<times> ('k \<times> int) list \<times> ('k, 'v) entries_map" where
  "addTrackerForAllEntries_map updateCounterMap addDestroyTracking M =
     (if cem_concurrencyChecksEnabled M then (-1, updateCounterMap, M)
      else
        let (counters, ss) = addTrackerForAll_segments updateCounterMap (m_segments M);
            M1 = M\<lparr>m_segments := ss\<rparr>
        in if addDestroyTracking
           then let n = m_numDestroyTrackers M + 1 in (sint n, counters, M1\<lparr>m_numDestroyTrackers := n\<rparr>)
           else (0, counters, M1))"

definition removeDestroyTracking_map :: "('k, 'v) entries_map \<Rightarrow> ('k, 'v) entries_map" where
  "removeDestroyTracking_map M =
     (if cem_concurrencyChecksEnabled M then M
      else
        let n = m_numDestroyTrackers M - 1; M1 = M\<lparr>m_numDestroyTrackers := n\<rparr>
        in if n = 0 then M1\<lparr>m_segments := map removeDestroyTracking_seg (m_segments M1)\<rparr> else M1)"

definition totalSegmentRehashes :: "('k, 'v) entries_map \<Rightarrow> u32" where
  "totalSegmentRehashes M = sum_list (map (\<lambda>s. of_nat (m_rehashCount s)) (m_segments M))"

text \<open>Reaping runs over all segments, in the second form with all keys in every segment.\<close>

definition reapTombstones_versions_map :: "(u16 \<times> u64) list \<Rightarrow> ('k, 'v) entries_map \<Rightarrow> ('k, 'v) entries_map" where
  "reapTombstones_versions_map gcVersions M =
     M\<lparr>m_segments := map (reapTombstones_versions gcVersions) (m_segments M)\<rparr>"

definition reapTombstones_keys_map :: "'k list \<Rightarrow> ('k, 'v) entries_map \<Rightarrow> ('k, 'v) entries_map" where
  "reapTombstones_keys_map removedKeys M =
     M\<lparr>m_segments := map (reapTombstones_keys removedKeys) (m_segments M)\<rparr>"

definition isTombstone_map ::
  "('k \<Rightarrow> u32) \<Rightarrow> 'k \<Rightarrow> ('k, 'v) entries_map \<Rightarrow> gf_exn + (gf_err \<times> ('k, 'v) entry_impl option \<times> bool)" where
  "isTombstone_map hashcode key M = andThen (segmentFor hashcode key M) (\<lambda>s. Inr (isTombstone_seg key s))"

text \<open>The timer runs the expiry task of a tombstone on the segment that made it.\<close>

definition expire_map :: "nat \<Rightarrow> ('k, 'v) tombstone \<Rightarrow> ('k, 'v) entries_map \<Rightarrow> ('k, 'v) entries_map" where
  "expire_map i t M = M\<lparr>m_segments := (m_segments M)[i := on_expire t (m_segments M ! i)]\<rparr>"

section \<open>The abstract map and the invariant\<close>

text \<open>What the map stores, as a partial function.\<close>

definition lookup_map :: "('k \<Rightarrow> u32) \<Rightarrow> ('k, 'v) entries_map \<Rightarrow> 'k \<rightharpoonup> 'v cacheable" where
  "lookup_map hashcode M k =
     (case segmentFor hashcode k M of Inl _ \<Rightarrow> None | Inr s \<Rightarrow> lookup_seg k s)"

text \<open>
  The invariant with concurrency checks: every segment is consistent and holds only keys that
  hash to it.
\<close>

definition map_inv :: "('k \<Rightarrow> u32) \<Rightarrow> ('k, 'v) entries_map \<Rightarrow> bool" where
  "map_inv hashcode M \<longleftrightarrow>
     cem_concurrencyChecksEnabled M \<and> 0 < m_concurrency M \<and> length (m_segments M) = m_concurrency M \<and>
     (\<forall>i < length (m_segments M). conc_inv (m_segments M ! i) \<and>
        (\<forall>k. al_find (m_map (m_segments M ! i)) k \<noteq> None \<longrightarrow> segmentIdx hashcode k M = i))"

text \<open>The counter is right: it is the number of stored keys.\<close>

definition sized :: "('k \<Rightarrow> u32) \<Rightarrow> ('k, 'v) entries_map \<Rightarrow> bool" where
  "sized hashcode M \<longleftrightarrow> m_size M = of_nat (card (dom (lookup_map hashcode M)))"

lemma map_inv_segment: "map_inv hashcode M \<Longrightarrow> i < length (m_segments M) \<Longrightarrow> conc_inv (m_segments M ! i)"
  by (simp add: map_inv_def)

lemma segmentFor_inv:
  assumes "map_inv hashcode M"
  shows "segmentIdx hashcode k M < length (m_segments M)"
    "segmentFor hashcode k M = Inr (m_segments M ! segmentIdx hashcode k M)"
    "conc_inv (m_segments M ! segmentIdx hashcode k M)"
  using assms by (simp_all add: map_inv_def segmentFor_def segmentIdx_def)

lemma lookup_map_inv:
  "map_inv hashcode M \<Longrightarrow> lookup_map hashcode M k = lookup_seg k (m_segments M ! segmentIdx hashcode k M)"
  by (simp add: lookup_map_def segmentFor_inv)

lemma lookup_seg_bound: "lookup_seg k s \<noteq> None \<Longrightarrow> k \<in> fst ` set (m_map s)"
  using al_find_None_iff[of "m_map s" k]
  by (cases "al_find (m_map s) k") (auto simp: lookup_seg_def getEntry_seg_def)

lemma finite_lookup_map:
  assumes "map_inv hashcode M"
  shows "finite (dom (lookup_map hashcode M))"
proof (rule finite_subset)
  show "dom (lookup_map hashcode M) \<subseteq> (\<Union>s \<in> set (m_segments M). fst ` set (m_map s))"
  proof
    fix k
    assume "k \<in> dom (lookup_map hashcode M)"
    then have "k \<in> fst ` set (m_map (m_segments M ! segmentIdx hashcode k M))"
      using lookup_seg_bound by (metis assms domIff lookup_map_inv)
    with segmentFor_inv(1)[OF assms, of k]
    show "k \<in> (\<Union>s \<in> set (m_segments M). fst ` set (m_map s))" by (meson UN_I nth_mem)
  qed
qed simp

lemma card_dom_update:
  fixes f :: "'k \<rightharpoonup> 'v"
  assumes "finite (dom f)"
  shows "(of_nat (card (dom (f(k := w)))) :: u32) =
    of_nat (card (dom f)) + (of_bool (w \<noteq> None) - of_bool (f k \<noteq> None))"
proof (cases "f k")
  case None
  then have "k \<notin> dom f" by auto
  with assms None show ?thesis by (cases w) (auto simp: dom_fun_upd)
next
  case (Some v)
  then have k: "k \<in> dom f" by auto
  then obtain n where "card (dom f) = Suc n" using assms by (metis card_Suc_Diff1)
  with k show ?thesis
    using assms Some by (cases w) (auto simp: dom_fun_upd insert_absorb card_Diff_singleton)
qed

text \<open>Replacing the segment of a key after an operation on that key.\<close>

lemma on_segment_effect:
  assumes inv: "map_inv hashcode M" and run: "on_segment hashcode key op M = Inr (r, M')"
    and eff: "\<And>s s'. \<lbrakk>s = m_segments M ! segmentIdx hashcode key M; conc_inv s; op s = Inr (r, s')\<rbrakk> \<Longrightarrow> op_effect key s s' w"
  shows "map_inv hashcode M' \<and> lookup_map hashcode M' = (lookup_map hashcode M)(key := w) \<and> m_size M' = m_size M"
proof -
  let ?i = "segmentIdx hashcode key M"
  let ?s = "m_segments M ! ?i"
  note at = segmentFor_inv[OF inv, of key]
  from run at obtain s' where s': "op ?s = Inr (r, s')" "M' = M\<lparr>m_segments := (m_segments M)[?i := s']\<rparr>"
    by (auto simp: on_segment_def andThen_Inr_conv)
  from eff[OF refl at(3) s'(1)]
  have e: "conc_inv s'" "only_at key ?s s'" "lookup_seg key s' = w" by (simp_all add: op_effect_def)
  have idx: "segmentIdx hashcode k M' = segmentIdx hashcode k M" for k
    by (simp add: s'(2) segmentIdx_def)
  have inv': "map_inv hashcode M'"
    unfolding map_inv_def
  proof (intro conjI allI impI)
    fix i
    assume i: "i < length (m_segments M')"
    show "conc_inv (m_segments M' ! i)"
      using i inv e(1) by (cases "i = ?i") (auto simp: s'(2) map_inv_def)
    fix k
    assume k: "al_find (m_map (m_segments M' ! i)) k \<noteq> None"
    show "segmentIdx hashcode k M' = i"
    proof (cases "i = ?i \<and> k = key")
      case False
      then have "al_find (m_map (m_segments M ! i)) k \<noteq> None"
        using k i at(1) only_at_find(1)[OF e(2), of k] by (cases "i = ?i") (auto simp: s'(2))
      with inv i show ?thesis unfolding idx by (auto simp: s'(2) map_inv_def)
    qed (simp add: idx)
  qed (use inv in \<open>simp_all add: s'(2) map_inv_def\<close>)
  have "lookup_map hashcode M' k = ((lookup_map hashcode M)(key := w)) k" for k
    unfolding lookup_map_inv[OF inv'] idx fun_upd_apply lookup_map_inv[OF inv]
    using lookup_only_at[OF e(2), of k] e(3) at(1)
    by (cases "segmentIdx hashcode k M = ?i") (auto simp: s'(2))
  with inv' show ?thesis by (auto simp: s'(2))
qed

section \<open>The contract between a segment and the counter\<close>

text \<open>
  An operation of a segment on a key is accounted for by an amount the map adds to its
  counter when the amount is the change in whether the key is stored.
\<close>

locale accounted_op =
  fixes key :: 'k and run :: "('k, 'v) seg_op" and ok :: "('k, 'v) segment \<Rightarrow> bool"
    and delta :: "('k, 'v) op_result \<Rightarrow> u32" and after :: "('k, 'v) op_result \<Rightarrow> 'v ptr \<Rightarrow> 'v ptr"
  assumes effect: "\<lbrakk>conc_inv s; run s = Inr (r, s'); ok s\<rbrakk> \<Longrightarrow>
    op_effect key s s' (after r (lookup_seg key s))"
    and account: "\<lbrakk>conc_inv s; run s = Inr (r, s'); ok s\<rbrakk> \<Longrightarrow>
    delta r = of_bool (after r (lookup_seg key s) \<noteq> None) - of_bool (lookup_seg key s \<noteq> None)"
begin

lemma refines:
  assumes inv: "map_inv hashcode M" and ok: "ok (m_segments M ! segmentIdx hashcode key M)"
    and call: "andThen (on_segment hashcode key run M) (\<lambda>(r, M1). Inr (r, add_size (delta r) M1)) = Inr (r, M')"
  shows "map_inv hashcode M'" and "sized hashcode M \<Longrightarrow> sized hashcode M'"
    and "lookup_map hashcode M' = (lookup_map hashcode M)(key := after r (lookup_map hashcode M key))"
proof -
  from call obtain M1 where run: "on_segment hashcode key run M = Inr (r, M1)" and M': "M' = add_size (delta r) M1"
    by (auto simp: andThen_Inr_conv)
  have same: "map_inv hashcode M' = map_inv hashcode M1"
    "lookup_map hashcode M' = lookup_map hashcode M1" "m_size M' = m_size M1 + delta r"
    by (auto simp: M' add_size_def map_inv_def segmentIdx_def lookup_map_def segmentFor_def)
  have e: "map_inv hashcode M1 \<and> lookup_map hashcode M1 =
      (lookup_map hashcode M)(key := after r (lookup_map hashcode M key)) \<and> m_size M1 = m_size M"
    by (rule on_segment_effect[OF inv run]) (simp add: effect ok lookup_map_inv[OF inv])
  then show "map_inv hashcode M'"
    "lookup_map hashcode M' = (lookup_map hashcode M)(key := after r (lookup_map hashcode M key))"
    by (simp_all add: same)
  let ?s = "m_segments M ! segmentIdx hashcode key M"
  obtain s' where "run ?s = Inr (r, s')"
    using run segmentFor_inv[OF inv, of key] by (auto simp: on_segment_def andThen_Inr_conv)
  with account[OF segmentFor_inv(3)[OF inv]] ok
  have d: "delta r = of_bool (after r (lookup_map hashcode M key) \<noteq> None) - of_bool (lookup_map hashcode M key \<noteq> None)"
    by (simp add: lookup_map_inv[OF inv])
  show "sized hashcode M'" if "sized hashcode M"
    using that e card_dom_update[OF finite_lookup_map[OF inv], of key "after r (lookup_map hashcode M key)"]
    unfolding sized_def same d by (simp del: dom_fun_upd)
qed

end

interpretation create_op: accounted_op k "create_seg env n k v uc dt tag" "\<lambda>_. storable v"
  "\<lambda>r. if r_err r = GF_NOERR \<and> r_oldValue r = None then 1 else 0"
  "\<lambda>r w. if r_err r = GF_NOERR then v else w" for env n k v uc dt tag
proof
  fix s r s'
  assume a: "conc_inv s" "create_seg env n k v uc dt tag s = Inr (r, s')" "storable v"
  note e = create_seg_effect[OF a(1,3,2)]
  then show "op_effect k s s' (if r_err r = GF_NOERR then v else lookup_seg k s)" by simp
  show "(if r_err r = GF_NOERR \<and> r_oldValue r = None then 1 else 0) =
     of_bool ((if r_err r = GF_NOERR then v else lookup_seg k s) \<noteq> None) - (of_bool (lookup_seg k s \<noteq> None) :: u32)"
    using e a(3) by (auto simp: storable_def stored_def)
qed

interpretation put_op: accounted_op k "put_seg env n k v uc dt tag None" "\<lambda>_. storable v"
  "\<lambda>r. if r_err r \<noteq> GF_NOERR then 0 else if \<not> r_flag r then 1 else 0"
  "\<lambda>r w. if r_err r = GF_NOERR then v else w" for env n k v uc dt tag
proof
  fix s r s'
  assume a: "conc_inv s" "put_seg env n k v uc dt tag None s = Inr (r, s')" "storable v"
  note e = put_seg_effect[OF a(1,3,2)]
  then show "op_effect k s s' (if r_err r = GF_NOERR then v else lookup_seg k s)" by simp
  show "(if r_err r \<noteq> GF_NOERR then 0 else if \<not> r_flag r then 1 else 0) =
     of_bool ((if r_err r = GF_NOERR then v else lookup_seg k s) \<noteq> None) - (of_bool (lookup_seg k s \<noteq> None) :: u32)"
    using e a(3) by (auto simp: storable_def stored_def)
qed

interpretation invalidate_op: accounted_op k "invalidate_seg env n k tag" "\<lambda>_. True"
  "\<lambda>r. if r_flag r then 1 else 0"
  "\<lambda>r w. if r_err r = GF_NOERR \<or> r_flag r then Some InvalidToken else w" for env n k tag
proof
  fix s r s'
  assume a: "conc_inv s" "invalidate_seg env n k tag s = Inr (r, s')"
  note e = invalidate_seg_effect[OF a]
  then show "op_effect k s s' (if r_err r = GF_NOERR \<or> r_flag r then Some InvalidToken else lookup_seg k s)" by simp
  show "(if r_flag r then 1 else 0) =
     of_bool ((if r_err r = GF_NOERR \<or> r_flag r then Some InvalidToken else lookup_seg k s) \<noteq> None)
     - (of_bool (lookup_seg k s \<noteq> None) :: u32)"
    using e by auto
qed

interpretation remove_op: accounted_op k "remove_seg env n k uc tag afterRemote"
  "\<lambda>s. afterRemote \<longrightarrow> \<not> tombstone_exists k s"
  "\<lambda>r. if r_err r = GF_NOERR \<and> r_flag r then - 1 else 0"
  "\<lambda>r w. if r_err r = GF_NOERR then None else w" for env n k uc tag afterRemote
proof
  fix s r s'
  assume a: "conc_inv s" "remove_seg env n k uc tag afterRemote s = Inr (r, s')"
    "afterRemote \<longrightarrow> \<not> tombstone_exists k s"
  note e = remove_seg_effect[OF a(1,2)]
  then show "op_effect k s s' (if r_err r = GF_NOERR then None else lookup_seg k s)" by simp
  have "afterRemote \<Longrightarrow> lookup_seg k s = None \<Longrightarrow> al_find (m_map s) k = None"
    using a(1) by (cases rule: conc_inv_cases[where k = k])
      (use a(3) in \<open>auto simp: tombstone_exists_def lookup_find storable_def stored_def\<close>)
  with a(3) show "(if r_err r = GF_NOERR \<and> r_flag r then - 1 else 0) =
     of_bool ((if r_err r = GF_NOERR then None else lookup_seg k s) \<noteq> None) - (of_bool (lookup_seg k s \<noteq> None) :: u32)"
    using e by (cases "lookup_seg k s") auto
qed

section \<open>The operations refine updates of a partial map\<close>

lemma add_size_if: "(if b then add_size d M else M) = add_size (if b then d else 0) M"
  by (simp add: add_size_def)

lemma add_size_unless: "(if b then M else add_size d M) = add_size (if b then 0 else d) M"
  by (simp add: add_size_def)

lemma create_map_refines:
  assumes "map_inv hashcode M" "storable v" "create_map hashcode env k v uc dt tag M = Inr (r, M')"
  shows "map_inv hashcode M'" "sized hashcode M \<Longrightarrow> sized hashcode M'"
    "lookup_map hashcode M' = (if r_err r = GF_NOERR then (lookup_map hashcode M)(k := v) else lookup_map hashcode M)"
  using create_op.refines[OF assms(1,2) assms(3)[unfolded create_map_def add_size_if]] by simp_all

lemma put_map_refines:
  assumes "map_inv hashcode M" "storable v" "put_map hashcode env k v uc dt tag None M = Inr (r, M')"
  shows "map_inv hashcode M'" "sized hashcode M \<Longrightarrow> sized hashcode M'"
    "lookup_map hashcode M' = (if r_err r = GF_NOERR then (lookup_map hashcode M)(k := v) else lookup_map hashcode M)"
  using put_op.refines[OF assms(1,2) assms(3)[unfolded put_map_def add_size_if add_size_unless]] by simp_all

lemma invalidate_map_refines:
  assumes "map_inv hashcode M" "invalidate_map hashcode env k tag M = Inr (r, M')"
  shows "map_inv hashcode M'" "sized hashcode M \<Longrightarrow> sized hashcode M'"
    "lookup_map hashcode M' = (if r_err r = GF_NOERR \<or> r_flag r
       then (lookup_map hashcode M)(k \<mapsto> InvalidToken) else lookup_map hashcode M)"
  using invalidate_op.refines[OF assms(1) TrueI assms(2)[unfolded invalidate_map_def add_size_if]] by simp_all

lemma remove_map_refines:
  assumes "map_inv hashcode M" "afterRemote \<longrightarrow> \<not> tombstone_exists k (m_segments M ! segmentIdx hashcode k M)"
    "remove_map hashcode env k uc tag afterRemote M = Inr (r, M')"
  shows "map_inv hashcode M'" "sized hashcode M \<Longrightarrow> sized hashcode M'"
    "lookup_map hashcode M' = (if r_err r = GF_NOERR then (lookup_map hashcode M)(k := None) else lookup_map hashcode M)"
  using remove_op.refines[OF assms(1,2) assms(3)[unfolded remove_map_def add_size_if]] by simp_all

text \<open>Steps that leave what every segment stores.\<close>

lemma segments_unchanged:
  assumes inv: "map_inv hashcode M" and len: "length ss = length (m_segments M)"
    and seg: "\<And>i k. i < length ss \<Longrightarrow> conc_inv (ss ! i) \<and> lookup_seg k (ss ! i) = lookup_seg k (m_segments M ! i) \<and>
      (al_find (m_map (ss ! i)) k \<noteq> None \<longrightarrow> al_find (m_map (m_segments M ! i)) k \<noteq> None)"
  shows "map_inv hashcode (M\<lparr>m_segments := ss\<rparr>)"
    "lookup_map hashcode (M\<lparr>m_segments := ss\<rparr>) = lookup_map hashcode M"
    "sized hashcode M \<Longrightarrow> sized hashcode (M\<lparr>m_segments := ss\<rparr>)"
proof -
  have idx: "segmentIdx hashcode k (M\<lparr>m_segments := ss\<rparr>) = segmentIdx hashcode k M" for k
    by (simp add: segmentIdx_def)
  show inv': "map_inv hashcode (M\<lparr>m_segments := ss\<rparr>)"
    using inv len seg unfolding map_inv_def idx by auto
  show l: "lookup_map hashcode (M\<lparr>m_segments := ss\<rparr>) = lookup_map hashcode M"
  proof
    fix k
    show "lookup_map hashcode (M\<lparr>m_segments := ss\<rparr>) k = lookup_map hashcode M k"
      unfolding lookup_map_inv[OF inv] lookup_map_inv[OF inv'] idx
      using seg[of "segmentIdx hashcode k M" k] segmentFor_inv(1)[OF inv, of k] len by simp
  qed
  show "sized hashcode (M\<lparr>m_segments := ss\<rparr>)" if "sized hashcode M"
    using that unfolding sized_def l by simp
qed

lemma expire_map_unchanged:
  assumes inv: "map_inv hashcode M" and i: "i < length (m_segments M)"
  shows "map_inv hashcode (expire_map i t M)" "lookup_map hashcode (expire_map i t M) = lookup_map hashcode M"
    "sized hashcode M \<Longrightarrow> sized hashcode (expire_map i t M)"
proof -
  have eff: "conc_inv (on_expire t (m_segments M ! i)) \<and>
      lookup_seg k (on_expire t (m_segments M ! i)) = lookup_seg k (m_segments M ! i) \<and>
      (al_find (m_map (on_expire t (m_segments M ! i))) k \<noteq> None \<longrightarrow> al_find (m_map (m_segments M ! i)) k \<noteq> None)" for k
    using inv i on_expire_effect[of "m_segments M ! i" t k] on_expire_keys[of t "m_segments M ! i" k]
    by (auto simp: map_inv_def)
  have seg: "conc_inv ((m_segments M)[i := on_expire t (m_segments M ! i)] ! j) \<and>
      lookup_seg k ((m_segments M)[i := on_expire t (m_segments M ! i)] ! j) = lookup_seg k (m_segments M ! j) \<and>
      (al_find (m_map ((m_segments M)[i := on_expire t (m_segments M ! i)] ! j)) k \<noteq> None \<longrightarrow>
       al_find (m_map (m_segments M ! j)) k \<noteq> None)"
    if "j < length ((m_segments M)[i := on_expire t (m_segments M ! i)])" for j k
    using eff[of k] that inv by (cases "j = i") (auto simp: map_inv_def)
  note u = segments_unchanged[OF inv _ seg]
  show "map_inv hashcode (expire_map i t M)" "lookup_map hashcode (expire_map i t M) = lookup_map hashcode M"
    "sized hashcode M \<Longrightarrow> sized hashcode (expire_map i t M)"
    using u by (simp_all add: expire_map_def)
qed

lemma reapTombstones_versions_map_unchanged:
  assumes inv: "map_inv hashcode M"
  shows "map_inv hashcode (reapTombstones_versions_map gc M)"
    "lookup_map hashcode (reapTombstones_versions_map gc M) = lookup_map hashcode M"
    "sized hashcode M \<Longrightarrow> sized hashcode (reapTombstones_versions_map gc M)"
proof -
  have seg: "conc_inv (map (reapTombstones_versions gc) (m_segments M) ! j) \<and>
      lookup_seg k (map (reapTombstones_versions gc) (m_segments M) ! j) = lookup_seg k (m_segments M ! j) \<and>
      (al_find (m_map (map (reapTombstones_versions gc) (m_segments M) ! j)) k \<noteq> None \<longrightarrow>
       al_find (m_map (m_segments M ! j)) k \<noteq> None)"
    if "j < length (map (reapTombstones_versions gc) (m_segments M))" for j k
    using that inv reapTombstones_versions_effect[of "m_segments M ! j" gc k]
      reapTombstones_versions_keys[of gc "m_segments M ! j" k] by (auto simp: map_inv_def)
  note u = segments_unchanged[OF inv _ seg]
  show "map_inv hashcode (reapTombstones_versions_map gc M)"
    "lookup_map hashcode (reapTombstones_versions_map gc M) = lookup_map hashcode M"
    "sized hashcode M \<Longrightarrow> sized hashcode (reapTombstones_versions_map gc M)"
    using u by (simp_all add: reapTombstones_versions_map_def)
qed

section \<open>Steps of a region's map\<close>

text \<open>
  One step of the map of a region with concurrency checks. The guard of a remove is the case
  in which the counter is right (\<open>remove_of_tombstone_miscounts\<close> is about the other one).
\<close>

inductive map_step ::
  "('k \<Rightarrow> u32) \<Rightarrow> ('k, 'v) seg_env \<Rightarrow> ('k, 'v) entries_map \<Rightarrow> ('k, 'v) entries_map \<Rightarrow> bool"
  for hashcode env where
  step_create: "\<lbrakk>create_map hashcode env k v uc dt tag M = Inr (r, M'); storable v\<rbrakk> \<Longrightarrow> map_step hashcode env M M'"
| step_put: "\<lbrakk>put_map hashcode env k v uc dt tag None M = Inr (r, M'); storable v\<rbrakk> \<Longrightarrow> map_step hashcode env M M'"
| step_invalidate: "invalidate_map hashcode env k tag M = Inr (r, M') \<Longrightarrow> map_step hashcode env M M'"
| step_remove: "\<lbrakk>remove_map hashcode env k uc tag afterRemote M = Inr (r, M');
    afterRemote \<longrightarrow> \<not> tombstone_exists k (m_segments M ! segmentIdx hashcode k M)\<rbrakk> \<Longrightarrow> map_step hashcode env M M'"
| step_reap: "map_step hashcode env M (reapTombstones_versions_map gc M)"
| step_expire: "i < length (m_segments M) \<Longrightarrow> map_step hashcode env M (expire_map i t M)"

inductive_cases map_step_cases: "map_step hashcode env M M'"

definition opened :: "('k, 'v) entries_map \<Rightarrow> bool" where
  "opened M \<longleftrightarrow> (\<exists>c cap M0. new_ConcurrentEntriesMap True c = Inr M0 \<and> open_map cap M0 = Inr M)"

definition reachable :: "('k \<Rightarrow> u32) \<Rightarrow> ('k, 'v) seg_env \<Rightarrow> ('k, 'v) entries_map \<Rightarrow> bool" where
  "reachable hashcode env M \<longleftrightarrow> (\<exists>M0. opened M0 \<and> (map_step hashcode env)\<^sup>*\<^sup>* M0 M)"

lemma map_step_inv:
  assumes "map_step hashcode env M M'" "map_inv hashcode M"
  shows "map_inv hashcode M' \<and> (sized hashcode M \<longrightarrow> sized hashcode M')"
  using assms
  by (induction rule: map_step.induct)
     (blast dest: create_map_refines put_map_refines invalidate_map_refines remove_map_refines
        expire_map_unchanged reapTombstones_versions_map_unchanged)+

lemma lower_bound_mem: "lower_bound ps v i = Some (j, p) \<Longrightarrow> p \<in> set ps \<and> v \<le> p"
  by (induction ps v i rule: lower_bound.induct) (auto split: if_splits)

lemma g_primeConcurTable_pos: "p \<in> set g_primeConcurTable \<Longrightarrow> 1 < p"
  unfolding g_primeConcurTable_def by auto

lemma open_segment_Inr:
  assumes "open_segment n cc = Inr s"
  shows "m_map s = []" "tombstones s = []" "m_concurrencyChecksEnabled s = cc"
  using assms by (auto simp: open_segment_def andThen_Inr_conv)

lemma open_all_Inr:
  "open_all n sz cc = Inr ss \<Longrightarrow> length ss = n \<and>
    (\<forall>s \<in> set ss. m_map s = [] \<and> tombstones s = [] \<and> m_concurrencyChecksEnabled s = cc)"
  by (induction n arbitrary: ss) (auto simp: andThen_Inr_conv dest: open_segment_Inr)

lemma opened_inv:
  assumes "opened M"
  shows "map_inv hashcode M \<and> sized hashcode M"
proof -
  from assms obtain c cap M0 where o: "new_ConcurrentEntriesMap True c = Inr M0" "open_map cap M0 = Inr M"
    by (auto simp: opened_def)
  then obtain n ss where n: "M0 = \<lparr>m_concurrency = n, m_segments = [], m_size = 0, m_numDestroyTrackers = 0,
      cem_concurrencyChecksEnabled = True\<rparr>" "n \<in> set g_primeConcurTable"
    by (auto simp: new_ConcurrentEntriesMap_def andThen_Inr_conv nextLargerPrimeForConcurrency_def
        getMaxPrimeForConcurrency_def g_primeConcurTable_def dest: lower_bound_mem split: if_splits option.splits)
  with o obtain ss where ss: "open_all n (unat (1 + (cap - 1) div (of_nat n :: u32))) True = Inr ss"
    "M = M0\<lparr>m_segments := ss\<rparr>" by (auto simp: open_map_def andThen_Inr_conv)
  note all = open_all_Inr[OF ss(1)]
  have empty: "lookup_map hashcode M = Map.empty"
  proof
    fix k
    show "lookup_map hashcode M k = None"
      using all by (auto simp: lookup_map_def segmentFor_def ss(2) lookup_find)
  qed
  have "conc_inv s" if "s \<in> set ss" for s
    using all that by (simp add: conc_inv_def slot_ok_def al_wf_def)
  then have "map_inv hashcode M"
    using all g_primeConcurTable_pos[OF n(2)] by (simp add: map_inv_def ss(2) n(1))
  moreover have "m_size M = 0" by (simp add: ss(2) n(1))
  ultimately show ?thesis by (simp add: sized_def empty)
qed

lemma reachable_inv:
  assumes "reachable hashcode env M"
  shows "map_inv hashcode M \<and> sized hashcode M"
proof -
  from assms obtain M0 where "opened M0" "(map_step hashcode env)\<^sup>*\<^sup>* M0 M" by (auto simp: reachable_def)
  from this(2) opened_inv[OF this(1)] show ?thesis
    by (induction rule: rtranclp_induct) (auto dest: map_step_inv)
qed

lemma getKeys_seg_set:
  assumes "conc_inv s"
  shows "set (getKeys_seg s) = {k. containsKey_seg k s}" "distinct (getKeys_seg s)"
proof -
  have wf: "al_wf (m_map s)" using assms by (simp add: conc_inv_def)
  then have "(k, e) \<in> set (m_map s) \<longleftrightarrow> al_find (m_map s) k = Some e" for k e
    by (simp add: al_wf_def al_find_def)
  then show "set (getKeys_seg s) = {k. containsKey_seg k s}"
    by (force simp: getKeys_seg_def containsKey_seg_def split: option.splits)
  from wf show "distinct (getKeys_seg s)"
    by (simp add: getKeys_seg_def al_wf_def distinct_map_filter)
qed

lemma getKeys_map_keys:
  assumes inv: "map_inv hashcode M"
  shows "set (getKeys_map M) = dom (lookup_map hashcode M)" "distinct (getKeys_map M)"
proof -
  have c: "containsKey_seg k (m_segments M ! i) \<longleftrightarrow> lookup_seg k (m_segments M ! i) \<noteq> None"
    if "i < length (m_segments M)" for i k
    using inv that by (intro containsKey_lookup) (simp add: map_inv_def)
  have own: "segmentIdx hashcode k M = i" if "i < length (m_segments M)" "containsKey_seg k (m_segments M ! i)" for i k
    using inv that by (auto simp: map_inv_def containsKey_seg_def split: option.splits)
  have keys: "set (getKeys_seg (m_segments M ! i)) = {k. containsKey_seg k (m_segments M ! i)}"
    "distinct (getKeys_seg (m_segments M ! i))" if "i < length (m_segments M)" for i
    using getKeys_seg_set[OF map_inv_segment[OF inv that]] .
  show "set (getKeys_map M) = dom (lookup_map hashcode M)"
  proof (intro set_eqI iffI)
    fix k
    assume "k \<in> set (getKeys_map M)"
    then obtain s where "s \<in> set (m_segments M)" "k \<in> set (getKeys_seg s)" by (auto simp: getKeys_map_def)
    then obtain i where i: "i < length (m_segments M)" "k \<in> set (getKeys_seg (m_segments M ! i))"
      by (metis in_set_conv_nth)
    then show "k \<in> dom (lookup_map hashcode M)"
      using keys(1)[OF i(1)] own[OF i(1), of k] c[OF i(1), of k] by (auto simp: lookup_map_inv[OF inv])
  next
    fix k
    assume k: "k \<in> dom (lookup_map hashcode M)"
    note i = segmentFor_inv(1)[OF inv, of k]
    from k have "k \<in> set (getKeys_seg (m_segments M ! segmentIdx hashcode k M))"
      using keys(1)[OF i] c[OF i, of k] by (auto simp: lookup_map_inv[OF inv])
    with i show "k \<in> set (getKeys_map M)" by (auto simp: getKeys_map_def)
  qed
  show "distinct (getKeys_map M)"
    unfolding getKeys_map_def
  proof (rule distinct_concat_nth)
    show "distinct (getKeys_seg (m_segments M ! i))" if "i < length (m_segments M)" for i
      using keys(2)[OF that] .
    show "set (getKeys_seg (m_segments M ! i)) \<inter> set (getKeys_seg (m_segments M ! j)) = {}"
      if "i < length (m_segments M)" "j < length (m_segments M)" "i \<noteq> j" for i j
      using keys(1)[OF that(1)] keys(1)[OF that(2)] that(3) by (auto dest: own[OF that(1)] own[OF that(2)])
  qed
qed

lemma get_map_lookup:
  assumes "map_inv hashcode M"
  obtains x where "get_map hashcode k M = Inr x" "map_option snd x = lookup_map hashcode M k"
  using segmentFor_inv(2)[OF assms, of k] by (simp add: get_map_def lookup_map_inv[OF assms] lookup_seg_def)

lemma containsKey_map_lookup:
  "map_inv hashcode M \<Longrightarrow> containsKey_map hashcode k M = Inr (lookup_map hashcode M k \<noteq> None)"
  using containsKey_lookup[OF segmentFor_inv(3)]
  by (simp add: containsKey_map_def segmentFor_inv(2) lookup_map_inv)

section \<open>A small map\<close>

text \<open>A map with two segments and keys that are their own hash codes.\<close>

definition small_env :: "(nat, nat) seg_env" where
  "small_env = \<lparr>env_members = new_MemberList, isDelta = (\<lambda>_. False), fromDelta = (\<lambda>_ v. (v, False)),
     cloningEnabled = False, getFromDisc = (\<lambda>_ _. None)\<rparr>"

definition small_segment :: "(nat, nat) segment" where
  "small_segment = \<lparr>m_map = [], m_primeIndex = 0, m_concurrencyChecksEnabled = True, m_destroyedKeys = [],
     m_rehashCount = 0, tombstones = [], seg_invalidated = [], seg_next = 0\<rparr>"

definition small_map :: "(nat, nat) entries_map" where
  "small_map = \<lparr>m_concurrency = 2, m_segments = [small_segment, small_segment], m_size = 0,
     m_numDestroyTrackers = 0, cem_concurrencyChecksEnabled = True\<rparr>"

lemma opened_small_map: "opened small_map"
proof -
  have o: "open_segment 8 True = Inr small_segment"
    by (simp add: open_segment_def nextLargerPrime_def g_primeTable_def small_segment_def)
  have o2: "open_all 2 8 True = Inr [small_segment, small_segment]"
    using o by (simp add: numeral_2_eq_2)
  have "new_ConcurrentEntriesMap True 2 = Inr (small_map\<lparr>m_segments := []\<rparr>)"
    by (simp add: new_ConcurrentEntriesMap_def getMaxPrimeForConcurrency_def nextLargerPrimeForConcurrency_def
        g_primeConcurTable_def small_map_def)
  moreover have "open_map 16 (small_map\<lparr>m_segments := []\<rparr>) = Inr small_map"
    using o2 by (simp add: open_map_def small_map_def Let_def)
  ultimately show ?thesis unfolding opened_def by blast
qed

lemma reachable_small_map: "reachable hashcode env small_map"
  unfolding reachable_def using opened_small_map by blast

text \<open>The same map after a put of the value 7 under the key 1.\<close>

definition small_entry :: "(nat, nat) entry_impl" where
  "small_entry = \<lparr>e_id = 0, e_key = 1, e_value = Some (Obj 7), e_stamp = new_VersionStamp, e_trackers = 0,
     e_updates = 0\<rparr>"

definition small_map1 :: "(nat, nat) entries_map" where
  "small_map1 = small_map\<lparr>m_segments := [small_segment, small_segment\<lparr>m_map := [(1, MapEntryT small_entry)], seg_next := 1\<rparr>],
     m_size := 1\<rparr>"

lemma small_put:
  "put_map of_nat small_env 1 (Some (Obj 7)) (-1) (-1) None None small_map =
   Inr (result GF_NOERR (Some small_entry) None (Some (Obj 7)) False, small_map1)"
  by (simp add: put_map_def on_segment_def segmentFor_def segmentIdx_def small_map_def put_seg_def check_rehash_def
      getPrime_def g_primeTable_def small_segment_def putNoEntry_def newMapEntry_def setValueI_def small_entry_def
      small_map1_def result_def add_size_def al_emplace_def Let_def)

lemma reachable_small_map1: "reachable of_nat small_env small_map1"
proof -
  have "map_step of_nat small_env small_map small_map1"
    by (rule step_put[OF small_put]) simp
  with opened_small_map show ?thesis unfolding reachable_def by blast
qed

text \<open>The small map after the removal of its only entry, which leaves a tombstone.\<close>

definition small_tomb :: "(nat, nat) entry_impl" where
  "small_tomb = small_entry\<lparr>e_value := Some TombstoneToken\<rparr>"

definition small_map2 :: "(nat, nat) entries_map" where
  "small_map2 = small_map\<lparr>m_segments := [small_segment, small_segment\<lparr>m_map := [(1, MapEntryT small_tomb)],
     tombstones := [(1, \<lparr>t_id = 1, t_entry = small_tomb\<rparr>)], seg_next := 2\<rparr>], m_size := 0\<rparr>"

lemmas remove_eval = remove_map_def on_segment_def segmentFor_def segmentIdx_def remove_seg_def
  removeWhenConcurrencyEnabled_def next_stamp_def putForTrackedEntry_def incrementUpdateCount_slot_def
  setValueI_def getValueI_def bind_entry_def tombstone_add_def tombstone_erase_def al_find_def al_erase_def
  setVersions_stamp_def new_VersionStamp_def add_size_def result_def Let_def

lemma small_remove:
  "remove_map of_nat small_env 1 (-1) None False small_map1 =
   Inr (result GF_NOERR (Some small_tomb) (Some (Obj 7)) None True, small_map2)"
  by (simp add: remove_eval small_map_def small_map1_def small_map2_def small_segment_def small_entry_def small_tomb_def)

lemma reachable_small_map2: "reachable of_nat small_env small_map2"
proof -
  have "map_step of_nat small_env small_map1 small_map2" by (rule step_remove[OF small_remove]) simp
  with reachable_small_map1 show ?thesis unfolding reachable_def by (meson rtranclp.rtrancl_into_rtrancl)
qed

lemma small_map2_tomb: "tombstone_exists 1 (m_segments small_map2 ! segmentIdx of_nat 1 small_map2)"
  by (simp add: tombstone_exists_def segmentIdx_def small_map2_def small_map_def al_find_def)

section \<open>Properties\<close>





text \<open>
  In a reachable map the check whether a key is a tombstone never reports an illegal state:
  a key has a listed tombstone exactly when its entry holds the tombstone token. A tombstone
  is not a stored key.
\<close>

lemma tombstones_consistent:
  assumes "reachable hashcode env M"
  shows "\<exists>me b. isTombstone_map hashcode k M = Inr (GF_NOERR, me, b) \<and>
    (if b then containsKey_map hashcode k M = Inr False \<and> me \<noteq> None else me = None)"
proof -
  note inv = conjunct1[OF reachable_inv[OF assms]]
  note s = segmentFor_inv[OF inv, of k]
  from s(3) show ?thesis
  proof (cases rule: conc_inv_cases[where k = k])
    case (live i)
    then obtain v where "getValueI i = Some v" "v \<noteq> TombstoneToken"
      using getValueI_stored[of i] by (auto simp: storable_def stored_def)
    with live(1,2) s(2) show ?thesis
      by (auto simp: isTombstone_map_def isTombstone_seg_def tombstone_exists_def)
  next
    case (dead i t)
    with s(2) have "isTombstone_map hashcode k M = Inr (GF_NOERR, Some i, True)" "containsKey_map hashcode k M = Inr False"
      by (simp_all add: isTombstone_map_def isTombstone_seg_def tombstone_exists_def getValueI_tomb
          containsKey_map_def containsKey_seg_def)
    then show ?thesis by auto
  next
    case absent
    with s(2) have "isTombstone_map hashcode k M = Inr (GF_NOERR, None, False)"
      by (simp add: isTombstone_map_def isTombstone_seg_def)
    then show ?thesis by auto
  qed
qed

text \<open>
  C35. Removing, after the servers have removed it, a key that is already a tombstone counts
  down once more: the key was not stored and the counter ends one below the number of
  stored keys.
\<close>

theorem remove_of_tombstone_miscounts:
  assumes inv: "map_inv hashcode M" and sz: "sized hashcode M"
    and tomb: "tombstone_exists k (m_segments M ! segmentIdx hashcode k M)"
    and res: "remove_map hashcode env k uc tag True M = Inr (r, M')" and ok: "r_err r = GF_NOERR"
  shows "lookup_map hashcode M' = lookup_map hashcode M \<and>
    size_map M' = of_nat (card (dom (lookup_map hashcode M'))) - 1"
proof -
  let ?s = "m_segments M ! segmentIdx hashcode k M"
  note seg = segmentFor_inv[OF inv, of k]
  have dead: "lookup_seg k ?s = None" "al_find (m_map ?s) k \<noteq> None"
    using seg(3) by (cases rule: conc_inv_cases[where k = k];
      use tomb in \<open>simp add: tombstone_exists_def lookup_find\<close>)+
  from res obtain M1 where run: "on_segment hashcode k (remove_seg env (sint (m_numDestroyTrackers M)) k uc tag True) M = Inr (r, M1)"
    and M': "M' = (if r_err r = GF_NOERR \<and> r_flag r then add_size (- 1) M1 else M1)"
    by (auto simp: remove_map_def andThen_Inr_conv)
  have e: "map_inv hashcode M1 \<and> lookup_map hashcode M1 = (lookup_map hashcode M)(k := None) \<and> m_size M1 = m_size M"
    by (rule on_segment_effect[OF inv run]) (use remove_seg_effect ok in fastforce)
  have "lookup_map hashcode M k = None" using dead(1) by (simp add: lookup_map_inv[OF inv])
  then have same: "lookup_map hashcode M1 = lookup_map hashcode M" using e by auto
  obtain s' where "remove_seg env (sint (m_numDestroyTrackers M)) k uc tag True ?s = Inr (r, s')"
    using run seg(2) by (auto simp: on_segment_def andThen_Inr_conv)
  with remove_seg_effect[OF seg(3) this] ok dead have "r_flag r" by simp
  with ok have M'': "M' = add_size (- 1) M1" by (simp add: M')
  have "lookup_map hashcode M' = lookup_map hashcode M1"
    by (auto simp: M'' lookup_map_def segmentFor_def segmentIdx_def add_size_def)
  moreover have "size_map M' = m_size M - 1" using e by (simp add: M'' size_map_def add_size_def)
  ultimately show ?thesis using sz same by (simp add: sized_def)
qed

theorem remove_of_tombstone_miscounts_witness:
  "\<exists>r M'. remove_map of_nat small_env 1 (-1) None True small_map2 = Inr (r, M') \<and> r_err r = GF_NOERR \<and>
     lookup_map of_nat M' = lookup_map of_nat small_map2 \<and> size_map M' = of_nat (card (dom (lookup_map of_nat M'))) - 1"
proof -
  obtain r M' where r: "remove_map of_nat small_env 1 (-1) None True small_map2 = Inr (r, M')" "r_err r = GF_NOERR"
    by (simp add: remove_eval small_map_def small_map2_def small_segment_def small_entry_def small_tomb_def)
  have inv: "map_inv of_nat small_map2" "sized of_nat small_map2"
    using reachable_inv[OF reachable_small_map2] by simp_all
  from remove_of_tombstone_miscounts[OF inv small_map2_tomb r] r show ?thesis by blast
qed

text \<open>
  Reaping a list of removed keys, as the server's garbage collection message asks for,
  also drops a listed key that is stored, and leaves the counter one above the number of
  stored keys.
\<close>

lemma reap_of_live_key_miscounts:
  assumes inv: "map_inv hashcode M" and sz: "sized hashcode M" and live: "lookup_map hashcode M k \<noteq> None"
  shows "lookup_map hashcode (reapTombstones_keys_map [k] M) = (lookup_map hashcode M)(k := None) \<and>
    size_map (reapTombstones_keys_map [k] M) =
      of_nat (card (dom (lookup_map hashcode (reapTombstones_keys_map [k] M)))) + 1"
proof -
  let ?M = "reapTombstones_keys_map [k] M"
  have reap: "conc_inv s \<Longrightarrow> lookup_seg k' (reapTombstones_keys [k] s) = (if k' = k then None else lookup_seg k' s)" for s k'
    using fold_remove_entry[of s "[k]" k'] by (simp add: reapTombstones_keys_def)
  have idx: "segmentIdx hashcode k' ?M = segmentIdx hashcode k' M" "length (m_segments ?M) = length (m_segments M)" for k'
    by (simp_all add: segmentIdx_def reapTombstones_keys_map_def)
  have l: "lookup_map hashcode ?M = (lookup_map hashcode M)(k := None)"
  proof
    fix k'
    note s = segmentFor_inv[OF inv, of k']
    have "m_segments ?M ! segmentIdx hashcode k' M = reapTombstones_keys [k] (m_segments M ! segmentIdx hashcode k' M)"
      using s(1) by (simp add: reapTombstones_keys_map_def)
    then have "lookup_map hashcode ?M k' = (if k' = k then None else lookup_seg k' (m_segments M ! segmentIdx hashcode k' M))"
      using s(1) reap[OF s(3), of k'] by (simp add: lookup_map_def segmentFor_def idx)
    then show "lookup_map hashcode ?M k' = ((lookup_map hashcode M)(k := None)) k'"
      by (simp add: lookup_map_inv[OF inv])
  qed
  have "m_size ?M = m_size M" by (simp add: reapTombstones_keys_map_def)
  with card_dom_update[OF finite_lookup_map[OF inv], of k None] sz live l show ?thesis
    by (simp add: sized_def size_map_def del: dom_fun_upd)
qed

end
