(* ===== verification/LRU_Queue.thy ===== *)
theory LRU_Queue
  imports Geode_Prelude
begin

text \<open>
  The queue that orders the entries of a region by their last use (\<open>LRUQueue.cpp\<close>,
  \<open>LRUEntryProperties.hpp\<close>). The code keeps a doubly linked list and stores in every
  entry an iterator to the entry's node, so that an entry can be taken out or moved without
  a search. Nodes are numbered here, and an iterator is a node number, the end of the list,
  or the singular value a new entry has; using one that does not point to a node of the list
  is undefined in C++ and a fault of the model.

  What the queue promises is the locale \<open>recency\<close>: a sequence of entries with the
  operations of a list. Its lemma that a history of uses leaves the entries in the order of
  their last use is proved from the laws alone, and the linked list is shown to keep them.
\<close>

section \<open>The linked list\<close>

datatype lru_iter = Singular | End | Node nat

record 'e lru_queue =
  container :: "(nat \<times> 'e) list"
  iterator :: "'e \<Rightarrow> lru_iter"
  next_node :: nat

definition new_LRUQueue :: "'e lru_queue" where
  "new_LRUQueue = \<lparr>container = [], iterator = (\<lambda>e. Singular), next_node = 0\<rparr>"

definition push :: "'e \<Rightarrow> 'e lru_queue \<Rightarrow> 'e lru_queue" where
  "push entry q =
     q\<lparr>container := container q @ [(next_node q, entry)],
       iterator := (iterator q)(entry := Node (next_node q)), next_node := next_node q + 1\<rparr>"

definition pop :: "'e lru_queue \<Rightarrow> 'e option \<times> 'e lru_queue" where
  "pop q =
     (case container q of
        [] \<Rightarrow> (None, q)
      | (n, entry) # c \<Rightarrow> (Some entry, q\<lparr>iterator := (iterator q)(entry := End), container := c\<rparr>))"

definition remove_lru_entry :: "'e \<Rightarrow> 'e lru_queue \<Rightarrow> gf_exn + 'e lru_queue" where
  "remove_lru_entry entry q =
     (case iterator q entry of
        End \<Rightarrow> Inr q
      | Singular \<Rightarrow> Inl MemoryFault
      | Node n \<Rightarrow>
          if al_find (container q) n = None then Inl MemoryFault
          else Inr (q\<lparr>container := al_erase n (container q), iterator := (iterator q)(entry := End)\<rparr>))"

definition move_to_end :: "'e \<Rightarrow> 'e lru_queue \<Rightarrow> gf_exn + 'e lru_queue" where
  "move_to_end entry q =
     (case iterator q entry of
        End \<Rightarrow> Inl MemoryFault
      | Singular \<Rightarrow> Inl MemoryFault
      | Node n \<Rightarrow>
          (case al_find (container q) n of
             None \<Rightarrow> Inl MemoryFault
           | Some x \<Rightarrow> Inr (q\<lparr>container := al_erase n (container q) @ [(n, x)],
                             iterator := (iterator q)(entry := Node n)\<rparr>)))"

fun clear_nodes :: "(nat \<times> 'e) list \<Rightarrow> ('e \<Rightarrow> lru_iter) \<Rightarrow> ('e \<Rightarrow> lru_iter)" where
  "clear_nodes [] it = it"
| "clear_nodes ((n, entry) # c) it = clear_nodes c (it(entry := End))"

definition clear_queue :: "'e lru_queue \<Rightarrow> 'e lru_queue" where
  "clear_queue q = q\<lparr>container := [], iterator := clear_nodes (container q) (iterator q)\<rparr>"

definition size_queue :: "'e lru_queue \<Rightarrow> nat" where
  "size_queue q = length (container q)"

section \<open>The promise\<close>

text \<open>
  \<open>touch\<close> moves an entry to the end of the sequence; \<open>drop\<close> takes one out. Both may
  only be called for entries of the sequence.
\<close>

locale recency =
  fixes empty :: 'q and add :: "'e \<Rightarrow> 'q \<Rightarrow> 'q" and take :: "'q \<Rightarrow> 'e option \<times> 'q"
    and drop :: "'e \<Rightarrow> 'q \<Rightarrow> 'x + 'q" and touch :: "'e \<Rightarrow> 'q \<Rightarrow> 'x + 'q"
    and order :: "'q \<Rightarrow> 'e list" and invar :: "'q \<Rightarrow> bool"
  assumes empty: "invar empty" "order empty = []"
    and distinct: "invar q \<Longrightarrow> distinct (order q)"
    and add: "invar q \<Longrightarrow> e \<notin> set (order q) \<Longrightarrow> invar (add e q) \<and> order (add e q) = order q @ [e]"
    and take: "invar q \<Longrightarrow> case order q of
        [] \<Rightarrow> take q = (None, q)
      | e # es \<Rightarrow> \<exists>q'. take q = (Some e, q') \<and> invar q' \<and> order q' = es"
    and drop: "invar q \<Longrightarrow> e \<in> set (order q) \<Longrightarrow>
      \<exists>q'. drop e q = Inr q' \<and> invar q' \<and> order q' = remove1 e (order q)"
    and touch: "invar q \<Longrightarrow> e \<in> set (order q) \<Longrightarrow>
      \<exists>q'. touch e q = Inr q' \<and> invar q' \<and> order q' = remove1 e (order q) @ [e]"
begin

text \<open>A use of an entry: it is added the first time and touched later.\<close>

definition used :: "'e \<Rightarrow> 'q \<Rightarrow> 'x + 'q" where
  "used e q = (if e \<in> set (order q) then touch e q else Inr (add e q))"

fun uses :: "'e list \<Rightarrow> 'q \<Rightarrow> 'x + 'q" where
  "uses [] q = Inr q"
| "uses (e # es) q = andThen (used e q) (uses es)"

fun take_all :: "nat \<Rightarrow> 'q \<Rightarrow> 'e list" where
  "take_all 0 q = []"
| "take_all (Suc n) q = (case take q of (None, q') \<Rightarrow> [] | (Some e, q') \<Rightarrow> e # take_all n q')"

lemma used_spec:
  assumes "invar q"
  shows "\<exists>q'. used e q = Inr q' \<and> invar q' \<and> order q' = filter (\<lambda>x. x \<noteq> e) (order q) @ [e]"
proof (cases "e \<in> set (order q)")
  case True
  then show ?thesis
    using touch[OF assms True] distinct_remove1_removeAll[OF distinct[OF assms], of e]
    by (auto simp: used_def removeAll_filter_not_eq neq_commute)
next
  case False
  then have "filter (\<lambda>x. x \<noteq> e) (order q) = order q" by (auto simp: filter_id_conv)
  then show ?thesis using add[OF assms False] False by (simp add: used_def)
qed

lemma uses_spec:
  assumes "invar q"
  shows "\<exists>q'. uses es q = Inr q' \<and> invar q' \<and>
    order q' = filter (\<lambda>x. x \<notin> set es) (order q) @ remdups es"
  using assms
proof (induction es arbitrary: q)
  case (Cons e es)
  from used_spec[OF Cons.prems, of e] obtain q1 where q1: "used e q = Inr q1" "invar q1"
    "order q1 = filter (\<lambda>x. x \<noteq> e) (order q) @ [e]" by blast
  from Cons.IH[OF q1(2)] show ?case
    by (auto simp: q1 intro!: filter_cong)
qed simp

lemma take_all_spec: "invar q \<Longrightarrow> take_all n q = List.take n (order q)"
proof (induction n arbitrary: q)
  case (Suc n)
  show ?case
    using take[OF Suc.prems] Suc.IH by (cases "order q") auto
qed simp

text \<open>Entries are taken in the order of their last use.\<close>

lemma taken_by_last_use:
  "\<exists>q. uses es empty = Inr q \<and> take_all n q = List.take n (remdups es)"
  using uses_spec[OF empty(1), of es] take_all_spec by (auto simp: empty(2))

end

section \<open>The linked list keeps the promise\<close>

text \<open>
  An entry of the list has an iterator to its node, and an iterator to a node belongs to the
  entry in that node.
\<close>

definition queue_inv :: "'e lru_queue \<Rightarrow> bool" where
  "queue_inv q \<longleftrightarrow> al_wf (container q) \<and>
     (\<forall>(n, e) \<in> set (container q). n < next_node q) \<and>
     (\<forall>e n. iterator q e = Node n \<longleftrightarrow> (n, e) \<in> set (container q))"

definition queue_order :: "'e lru_queue \<Rightarrow> 'e list" where
  "queue_order q = map snd (container q)"

lemma queue_inv_new [simp]: "queue_inv new_LRUQueue"
  by (simp add: queue_inv_def new_LRUQueue_def)

lemma queue_order_new [simp]: "queue_order new_LRUQueue = []"
  by (simp add: queue_order_def new_LRUQueue_def)

lemma in_queue_order: "e \<in> set (queue_order q) \<longleftrightarrow> (\<exists>n. (n, e) \<in> set (container q))"
  by (force simp: queue_order_def)

lemma in_order_iterator:
  "queue_inv q \<Longrightarrow> e \<in> set (queue_order q) \<longleftrightarrow> (\<exists>n. iterator q e = Node n)"
  by (simp add: queue_inv_def in_queue_order)

lemma node_unique:
  assumes "queue_inv q"
  shows "(m, e) \<in> set (container q) \<Longrightarrow> (n, e) \<in> set (container q) \<Longrightarrow> m = n"
    and "(n, a) \<in> set (container q) \<Longrightarrow> (n, b) \<in> set (container q) \<Longrightarrow> a = b"
  using assms by (auto simp: queue_inv_def al_find_in_set) (metis lru_iter.inject)

lemma queue_order_distinct:
  assumes "queue_inv q"
  shows "distinct (queue_order q)"
proof -
  have "inj_on snd (set (container q))"
    by (rule inj_onI) (auto dest: node_unique(1)[OF assms])
  moreover have "distinct (container q)"
    using assms by (auto simp: queue_inv_def al_wf_def distinct_map)
  ultimately show ?thesis by (simp add: queue_order_def distinct_map)
qed

lemma erase_node_order:
  assumes "queue_inv q" "(n, e) \<in> set (container q)"
  shows "map snd (al_erase n (container q)) = remove1 e (queue_order q)"
proof -
  have "fst p \<noteq> n \<longleftrightarrow> snd p \<noteq> e" if "p \<in> set (container q)" for p
    using assms that by (cases p) (auto dest: node_unique)
  then have "map snd (al_erase n (container q)) = removeAll e (queue_order q)"
    by (auto simp: al_erase_def queue_order_def removeAll_filter_not_eq filter_map o_def neq_commute
        intro!: arg_cong[where f = "map snd"] filter_cong)
  then show ?thesis
    using distinct_remove1_removeAll[OF queue_order_distinct[OF assms(1)], of e] by simp
qed

lemma push_spec:
  assumes "queue_inv q" "e \<notin> set (queue_order q)"
  shows "queue_inv (push e q)" "queue_order (push e q) = queue_order q @ [e]"
  using assms
  by (auto simp: queue_inv_def push_def queue_order_def al_wf_def image_iff Ball_def)

lemma pop_empty: "queue_order q = [] \<Longrightarrow> pop q = (None, q)"
  by (simp add: pop_def queue_order_def)

lemma pop_spec:
  assumes "queue_inv q" "queue_order q = e # es"
  shows "\<exists>q'. pop q = (Some e, q') \<and> queue_inv q' \<and> queue_order q' = es \<and> iterator q' = (iterator q)(e := End)"
proof -
  from assms obtain n c where c: "container q = (n, e) # c" "map snd c = es"
    by (auto simp: queue_order_def)
  have "distinct (e # es)" using queue_order_distinct[OF assms(1)] assms(2) by simp
  then have "(m, e) \<notin> set c" for m using c(2) by (force simp: image_iff)
  then have "(m, a) \<in> set c \<longleftrightarrow> ((iterator q)(e := End)) a = Node m" for a m
    using assms(1) c(1) by (auto simp: queue_inv_def)
  then have "queue_inv (q\<lparr>iterator := (iterator q)(e := End), container := c\<rparr>)"
    using assms(1) c(1) unfolding queue_inv_def by (auto simp: al_wf_def)
  with c show ?thesis by (simp add: pop_def queue_order_def)
qed

lemma remove_lru_entry_spec:
  assumes inv: "queue_inv q" and it: "iterator q e \<noteq> Singular"
  shows "\<exists>q'. remove_lru_entry e q = Inr q' \<and> queue_inv q' \<and> queue_order q' = remove1 e (queue_order q) \<and>
    iterator q' = (iterator q)(e := End)"
proof (cases "iterator q e")
  case End
  with inv in_order_iterator[OF inv, of e] show ?thesis
    by (auto simp: remove_lru_entry_def remove1_idem)
next
  case (Node n)
  then have n: "(n, e) \<in> set (container q)" using inv by (simp add: queue_inv_def)
  then have f: "al_find (container q) n = Some e" using inv by (simp add: queue_inv_def al_find_in_set)
  have "(m, a) \<in> set (al_erase n (container q)) \<longleftrightarrow> ((iterator q)(e := End)) a = Node m" for m a
    using inv n node_unique[OF inv] by (auto simp: queue_inv_def al_erase_def)
  then have "queue_inv (q\<lparr>container := al_erase n (container q), iterator := (iterator q)(e := End)\<rparr>)"
    using inv unfolding queue_inv_def by (auto simp: al_erase_def al_wf_def distinct_map_filter)
  with f Node show ?thesis
    using erase_node_order[OF inv n] by (simp add: remove_lru_entry_def queue_order_def)
qed (use it in simp)

lemma move_to_end_spec:
  assumes inv: "queue_inv q" and e: "e \<in> set (queue_order q)"
  shows "\<exists>q'. move_to_end e q = Inr q' \<and> queue_inv q' \<and> queue_order q' = remove1 e (queue_order q) @ [e] \<and>
    iterator q' = iterator q"
proof -
  from in_order_iterator[OF inv] e obtain n where it: "iterator q e = Node n" by blast
  then have n: "(n, e) \<in> set (container q)" using inv by (simp add: queue_inv_def)
  then have f: "al_find (container q) n = Some e" using inv by (simp add: queue_inv_def al_find_in_set)
  have same: "(iterator q)(e := Node n) = iterator q" using it by auto
  have "set (al_erase n (container q) @ [(n, e)]) = set (container q)"
    using n f inv by (auto simp: al_erase_def queue_inv_def al_find_in_set)
  moreover have "al_wf (al_erase n (container q) @ [(n, e)])"
    using inv by (auto simp: queue_inv_def al_erase_def al_wf_def distinct_map_filter)
  ultimately have "queue_inv (q\<lparr>container := al_erase n (container q) @ [(n, e)]\<rparr>)"
    using inv by (simp add: queue_inv_def)
  with f it show ?thesis
    using erase_node_order[OF inv n] by (simp add: move_to_end_def queue_order_def same)
qed

text \<open>Touching an entry that is not in the list is undefined.\<close>

lemma move_to_end_absent:
  "queue_inv q \<Longrightarrow> e \<notin> set (queue_order q) \<Longrightarrow> move_to_end e q = Inl MemoryFault"
  by (auto simp: move_to_end_def in_order_iterator split: lru_iter.splits)

lemma clear_nodes_iterator:
  "clear_nodes c it e = (if e \<in> snd ` set c then End else it e)"
  by (induction c arbitrary: it) force+

lemma clear_queue_spec:
  assumes "queue_inv q"
  shows "queue_inv (clear_queue q)" "queue_order (clear_queue q) = []"
  using assms
  by (auto simp: clear_queue_def queue_order_def queue_inv_def clear_nodes_iterator image_iff split: if_splits)

interpretation lruq: recency new_LRUQueue push pop remove_lru_entry move_to_end queue_order queue_inv
proof (unfold_locales, goal_cases)
  case (5 q)
  then show ?case using pop_empty[of q] pop_spec[of q] by (auto split: list.splits)
next
  case (6 q e)
  then show ?case using remove_lru_entry_spec[of q e] in_order_iterator[of q e] by auto
next
  case (7 q e)
  then show ?case using move_to_end_spec[of q e] by blast
qed (simp_all add: queue_order_distinct push_spec)

text \<open>One use of an entry by the map: a push when it is new, a move to the end when it is not.\<close>

fun use_entries :: "'e list \<Rightarrow> 'e lru_queue \<Rightarrow> gf_exn + 'e lru_queue" where
  "use_entries [] q = Inr q"
| "use_entries (e # es) q =
     andThen (if iterator q e \<in> {Singular, End} then Inr (push e q) else move_to_end e q) (use_entries es)"

fun pop_entries :: "nat \<Rightarrow> 'e lru_queue \<Rightarrow> 'e list" where
  "pop_entries 0 q = []"
| "pop_entries (Suc n) q = (case pop q of (None, q') \<Rightarrow> [] | (Some e, q') \<Rightarrow> e # pop_entries n q')"

lemma use_entries_uses: "queue_inv q \<Longrightarrow> use_entries es q = lruq.uses es q"
proof (induction es arbitrary: q)
  case (Cons e es)
  have step: "(if iterator q e \<in> {Singular, End} then Inr (push e q) else move_to_end e q) = lruq.used e q"
    by (cases "iterator q e") (simp_all add: lruq.used_def in_order_iterator[OF Cons.prems])
  obtain q1 where "lruq.used e q = Inr q1" "queue_inv q1"
    using lruq.used_spec[OF Cons.prems, of e] by blast
  with Cons.IH[of q1] show ?case
    unfolding use_entries.simps lruq.uses.simps step by (metis andThen.simps(2))
qed simp

lemma pop_entries_take_all: "pop_entries n q = lruq.take_all n q"
  by (induction n arbitrary: q) (auto split: prod.splits option.splits)

text \<open>
  C21. Whatever the history of uses, evicting n entries evicts the n entries whose last use lies
  furthest back, in that order (\<open>remdups\<close> keeps the last occurrence of each entry).
\<close>

theorem eviction_by_last_use:
  "\<exists>q. use_entries es new_LRUQueue = Inr q \<and> pop_entries n q = take n (remdups es)"
  unfolding use_entries_uses[OF queue_inv_new] pop_entries_take_all by (rule lruq.taken_by_last_use)

end
