(* ===== verification/LRU_Map.thy ===== *)
theory LRU_Map
  imports Entries_Map LRU_Queue
begin

text \<open>
  The entry map of a region with eviction (\<open>LRUEntriesMap.cpp\<close>, \<open>LRUEntriesMap.hpp\<close>,
  \<open>LRUAction.cpp\<close>): the segments of the entry map, a queue of the entries that hold a
  value in memory, and the loop that evicts from it until the map is within its limit.
  Two of the eviction actions are here: the one the map uses outside of a region, which
  removes the entry, and the overflow to disk. The others call back into the region.

  An entry object is named by its key and number. The persistence manager belongs to the
  application and the sizes of values to their classes; both are parameters.
\<close>

section \<open>State and environment\<close>

datatype lru_action = TestMapAction | LRUOverFlowToDiskAction

type_synonym 'k ref = "'k \<times> nat"

text \<open>
  \<open>heap_size\<close> is the counter of the eviction controller, when there is one.
  \<open>detached\<close> has the values of entry objects that are no longer in the map: the queue
  may still hold such an object.
\<close>

record ('k, 'v, 'p, 'd) lru_map =
  lm_entries :: "('k, 'v) entries_map"
  lm_queue :: "'k ref lru_queue"
  persistence_info :: "'k ref \<Rightarrow> 'p option"
  detached :: "('k ref \<times> 'v ptr) list"
  m_action :: lru_action
  m_limit :: u32
  m_currentMapSize :: u64
  m_validEntries :: u32
  m_heapLRUEnabled :: bool
  heap_size :: "u64 option"
  disk :: 'd

text \<open>
  The persistence manager: writing gives whether it succeeded and the information the
  manager wants to see again; reading and destroying may throw.
\<close>

record ('k, 'v, 'p, 'd) lru_env =
  le_hash :: "'k \<Rightarrow> u32"
  le_seg :: "('k, 'v) seg_env"
  pm_write :: "'k \<Rightarrow> 'v cacheable \<Rightarrow> 'p option \<Rightarrow> 'd \<Rightarrow> bool \<times> 'p option \<times> 'd"
  pm_read :: "'k \<Rightarrow> 'p option \<Rightarrow> 'd \<Rightarrow> gf_exn + 'v ptr"
  pm_destroy :: "'k \<Rightarrow> 'p option \<Rightarrow> 'd \<Rightarrow> gf_exn + 'd"
  objectSize_key :: "'k \<Rightarrow> u64"
  objectSize_obj :: "'v \<Rightarrow> u64"
  region_isDestroyed :: bool

type_synonym ('k, 'v, 'p, 'd) lru_op =
  "('k, 'v, 'p, 'd) lru_map \<Rightarrow> gf_exn + (('k, 'v) op_result \<times> ('k, 'v, 'p, 'd) lru_map)"

definition new_LRUEntriesMap ::
  "lru_action \<Rightarrow> u32 \<Rightarrow> bool \<Rightarrow> nat \<Rightarrow> bool \<Rightarrow> u64 option \<Rightarrow> 'd \<Rightarrow> gf_exn + ('k, 'v, 'p, 'd) lru_map" where
  "new_LRUEntriesMap action limit concurrencyChecksEnabled concurrency heapLRUEnabled controller d =
     andThen (new_ConcurrentEntriesMap concurrencyChecksEnabled concurrency) (\<lambda>M.
       Inr \<lparr>lm_entries = M, lm_queue = new_LRUQueue, persistence_info = (\<lambda>e. None), detached = [],
            m_action = action, m_limit = limit, m_currentMapSize = 0, m_validEntries = 0,
            m_heapLRUEnabled = heapLRUEnabled, heap_size = controller, disk = d\<rparr>)"

section \<open>Values\<close>

fun isToken :: "'v ptr \<Rightarrow> bool" where
  "isToken None = False"
| "isToken (Some (Obj v)) = False"
| "isToken (Some token) = True"

text \<open>A token is an object around its 32 bit value.\<close>

fun objectSize :: "('k, 'v, 'p, 'd) lru_env \<Rightarrow> 'v cacheable \<Rightarrow> u64" where
  "objectSize env (Obj v) = objectSize_obj env v"
| "objectSize env token = 4"

definition checkAndGetObjectSize :: "('k, 'v, 'p, 'd) lru_env \<Rightarrow> 'v ptr \<Rightarrow> gf_exn + u64" where
  "checkAndGetObjectSize env v = (case v of None \<Rightarrow> Inl MemoryFault | Some x \<Rightarrow> Inr (objectSize env x))"

definition sizeof_ptr :: u64 where
  "sizeof_ptr = 8"

definition size_or_pointer :: "('k, 'v, 'p, 'd) lru_env \<Rightarrow> 'v ptr \<Rightarrow> u64" where
  "size_or_pointer env v = (case v of None \<Rightarrow> sizeof_ptr | Some x \<Rightarrow> objectSize env x)"

definition ref_of :: "('k, 'v) entry_impl \<Rightarrow> 'k ref" where
  "ref_of i = (e_key i, e_id i)"

text \<open>The object in the slot of a key.\<close>

definition slot_impl :: "('k \<Rightarrow> u32) \<Rightarrow> 'k \<Rightarrow> ('k, 'v) entries_map \<Rightarrow> ('k, 'v) entry_impl option" where
  "slot_impl hashcode key M =
     (case segmentFor hashcode key M of
        Inl _ \<Rightarrow> None
      | Inr s \<Rightarrow> map_option getImplPtr (al_find (m_map s) key))"

definition entry_value :: "('k, 'v, 'p, 'd) lru_env \<Rightarrow> 'k ref \<Rightarrow> ('k, 'v, 'p, 'd) lru_map \<Rightarrow> 'v ptr" where
  "entry_value env e m =
     (case slot_impl (le_hash env) (fst e) (lm_entries m) of
        Some i \<Rightarrow> if ref_of i = e then getValueI i
                 else (case al_find (detached m) e of None \<Rightarrow> None | Some v \<Rightarrow> v)
      | None \<Rightarrow> (case al_find (detached m) e of None \<Rightarrow> None | Some v \<Rightarrow> v))"

definition set_entry_value ::
  "('k, 'v, 'p, 'd) lru_env \<Rightarrow> 'k ref \<Rightarrow> 'v ptr \<Rightarrow> ('k, 'v, 'p, 'd) lru_map \<Rightarrow> ('k, 'v, 'p, 'd) lru_map" where
  "set_entry_value env e v m =
     (let M = lm_entries m; i = segmentIdx (le_hash env) (fst e) M in
      case slot_impl (le_hash env) (fst e) M of
        Some impl \<Rightarrow>
          if ref_of impl = e then
            let s = m_segments M ! i in
            (case al_find (m_map s) (fst e) of
               Some entry \<Rightarrow>
                 m\<lparr>lm_entries := M\<lparr>m_segments :=
                     (m_segments M)[i := bind_entry (fst e) (update_impl (setValueI v) entry) s]\<rparr>\<rparr>
             | None \<Rightarrow> m)
          else m\<lparr>detached := al_assign e v (detached m)\<rparr>
      | None \<Rightarrow> m\<lparr>detached := al_assign e v (detached m)\<rparr>)"

text \<open>
  A call of a segment operation. An object that leaves its slot keeps the value it had.
\<close>

definition lru_on_segment :: "('k, 'v, 'p, 'd) lru_env \<Rightarrow> 'k \<Rightarrow> ('k, 'v) seg_op \<Rightarrow> ('k, 'v, 'p, 'd) lru_op" where
  "lru_on_segment env key op m =
     andThen (on_segment (le_hash env) key op (lm_entries m)) (\<lambda>(r, M).
       let old = slot_impl (le_hash env) key (lm_entries m);
           new = slot_impl (le_hash env) key M
       in Inr (r, m\<lparr>lm_entries := M,
                   detached := (case old of
                     Some i \<Rightarrow> if map_option ref_of new = Some (ref_of i) then detached m
                              else al_assign (ref_of i) (getValueI i) (detached m)
                   | None \<Rightarrow> detached m)\<rparr>))"

definition updateMapSize :: "u64 \<Rightarrow> ('k, 'v, 'p, 'd) lru_map \<Rightarrow> ('k, 'v, 'p, 'd) lru_map" where
  "updateMapSize sz m =
     (case heap_size m of
        None \<Rightarrow> m
      | Some h \<Rightarrow> m\<lparr>m_currentMapSize := m_currentMapSize m + sz, heap_size := Some (h + sz)\<rparr>)"

definition lru_add_size :: "u32 \<Rightarrow> ('k, 'v, 'p, 'd) lru_map \<Rightarrow> ('k, 'v, 'p, 'd) lru_map" where
  "lru_add_size d m = m\<lparr>lm_entries := add_size d (lm_entries m)\<rparr>"

definition add_valid :: "u32 \<Rightarrow> ('k, 'v, 'p, 'd) lru_map \<Rightarrow> ('k, 'v, 'p, 'd) lru_map" where
  "add_valid d m = m\<lparr>m_validEntries := m_validEntries m + d\<rparr>"

definition lru_push :: "'k ref \<Rightarrow> ('k, 'v, 'p, 'd) lru_map \<Rightarrow> ('k, 'v, 'p, 'd) lru_map" where
  "lru_push e m = m\<lparr>lm_queue := push e (lm_queue m)\<rparr>"

definition lru_getEntry ::
  "('k, 'v, 'p, 'd) lru_env \<Rightarrow> 'k \<Rightarrow> ('k, 'v, 'p, 'd) lru_map \<Rightarrow> gf_exn + (('k, 'v) entry_impl \<times> 'v cacheable) option" where
  "lru_getEntry env key m = get_map (le_hash env) key (lm_entries m)"

text \<open>
  The value of an overflowed entry is read back and then destroyed on disk. This is the part
  that put, invalidate and remove have in common.
\<close>

definition take_from_disk ::
  "('k, 'v, 'p, 'd) lru_env \<Rightarrow> 'k \<Rightarrow> ('k, 'v) entry_impl option \<Rightarrow> ('k, 'v, 'p, 'd) lru_map \<Rightarrow>
   gf_exn + ('v ptr \<times> ('k, 'v, 'p, 'd) lru_map)" where
  "take_from_disk env key me m =
     (case me of
        None \<Rightarrow> Inl MemoryFault
      | Some i \<Rightarrow>
          let info = persistence_info m (ref_of i) in
          andThen (pm_read env key info (disk m)) (\<lambda>v.
            if v = None then Inr (None, m)
            else andThen (pm_destroy env key info (disk m)) (\<lambda>d. Inr (v, m\<lparr>disk := d\<rparr>))))"

definition old_from_disk ::
  "('k, 'v, 'p, 'd) lru_env \<Rightarrow> 'k \<Rightarrow> ('k, 'v) entry_impl option \<Rightarrow> 'v ptr \<Rightarrow> ('k, 'v, 'p, 'd) lru_map \<Rightarrow>
   gf_exn + ('v ptr \<times> ('k, 'v, 'p, 'd) lru_map)" where
  "old_from_disk env key me oldValue m =
     (if oldValue = Some OverflowedToken then take_from_disk env key me m else Inr (oldValue, m))"

definition getFromDisk :: "('k, 'v, 'p, 'd) lru_env \<Rightarrow> 'k \<Rightarrow> ('k, 'v) entry_impl \<Rightarrow> ('k, 'v, 'p, 'd) lru_map \<Rightarrow> 'v ptr" where
  "getFromDisk env key me m =
     (case pm_read env key (persistence_info m (ref_of me)) (disk m) of Inl _ \<Rightarrow> None | Inr v \<Rightarrow> v)"

section \<open>Remove\<close>

text \<open>The part after the segment has removed the entry: queue, counters, disk and sizes.\<close>

definition remove_account ::
  "('k, 'v, 'p, 'd) lru_env \<Rightarrow> 'k \<Rightarrow> ('k, 'v) entry_impl \<Rightarrow> 'v cacheable \<Rightarrow> ('k, 'v) op_result \<Rightarrow> ('k, 'v, 'p, 'd) lru_op" where
  "remove_account env key me v r m =
     andThen (remove_lru_entry (ref_of me) (lm_queue m)) (\<lambda>q.
       let m1 = m\<lparr>lm_queue := q\<rparr>;
           m2 = (if r_flag r then lru_add_size (-1) m1 else m1);
           m3 = (if \<not> isToken (Some v) then add_valid (-1) m2 else m2)
       in andThen (old_from_disk env key (Some me) (Some v) m3) (\<lambda>(res, m4).
            if heap_size m4 = None then Inr (r\<lparr>r_oldValue := res\<rparr>, m4)
            else andThen (checkAndGetObjectSize env res) (\<lambda>sz.
                   Inr (r\<lparr>r_oldValue := res\<rparr>, updateMapSize (- (objectSize_key env key + sz)) m4))))"

definition remove_lru ::
  "('k, 'v, 'p, 'd) lru_env \<Rightarrow> 'k \<Rightarrow> int \<Rightarrow> version_tag option \<Rightarrow> bool \<Rightarrow> ('k, 'v, 'p, 'd) lru_op" where
  "remove_lru env key updateCount tag afterRemote m =
     andThen (lru_on_segment env key
         (remove_seg (le_seg env) (sint (m_numDestroyTrackers (lm_entries m))) key updateCount tag afterRemote) m)
       (\<lambda>(r, m1).
         if r_err r \<noteq> GF_NOERR then Inr (r, m1)
         else
           (case (r_oldValue r, r_me r) of
              (Some v, Some me) \<Rightarrow> remove_account env key me v r m1
            | _ \<Rightarrow> Inr (r, m1)))"

section \<open>Eviction\<close>

definition overflows :: "lru_action \<Rightarrow> bool" where
  "overflows action = (action = LRUOverFlowToDiskAction)"

definition evict_test :: "('k, 'v, 'p, 'd) lru_env \<Rightarrow> 'k ref \<Rightarrow> ('k, 'v, 'p, 'd) lru_map \<Rightarrow> gf_exn + (bool \<times> ('k, 'v, 'p, 'd) lru_map)" where
  "evict_test env e m =
     andThen (remove_lru env (fst e) 0 None False m) (\<lambda>(r, m'). Inr (r_err r = GF_NOERR, m'))"

definition evict_overflow :: "('k, 'v, 'p, 'd) lru_env \<Rightarrow> 'k ref \<Rightarrow> ('k, 'v, 'p, 'd) lru_map \<Rightarrow> gf_exn + (bool \<times> ('k, 'v, 'p, 'd) lru_map)" where
  "evict_overflow env e m =
     (if region_isDestroyed env then Inr (False, m)
      else
        (case entry_value env e m of
           None \<Rightarrow> Inl FatalInternalException
         | Some v \<Rightarrow>
             let (ok, info, d) = pm_write env (fst e) v (persistence_info m e) (disk m);
                 m1 = m\<lparr>disk := d\<rparr>
             in if \<not> ok then Inr (False, m1)
                else
                  let m2 = (if persistence_info m e = None
                            then m1\<lparr>persistence_info := (persistence_info m1)(e := info)\<rparr> else m1);
                      m3 = set_entry_value env e (Some OverflowedToken) m2
                  in Inr (True, updateMapSize (objectSize env OverflowedToken - objectSize env v) m3)))"

definition evict :: "('k, 'v, 'p, 'd) lru_env \<Rightarrow> 'k ref \<Rightarrow> ('k, 'v, 'p, 'd) lru_map \<Rightarrow> gf_exn + (bool \<times> ('k, 'v, 'p, 'd) lru_map)" where
  "evict env e m = (case m_action m of TestMapAction \<Rightarrow> evict_test env e m | LRUOverFlowToDiskAction \<Rightarrow> evict_overflow env e m)"

definition mustEvict :: "('k, 'v, 'p, 'd) lru_map \<Rightarrow> bool" where
  "mustEvict m =
     (if overflows (m_action m) then m_limit m < m_validEntries m
      else if m_heapLRUEnabled m \<and> m_limit m = 0 then False
      else m_limit m < size_map (lm_entries m))"

definition evictionHelper :: "('k, 'v, 'p, 'd) lru_env \<Rightarrow> ('k, 'v, 'p, 'd) lru_map \<Rightarrow> gf_exn + (gf_err \<times> ('k, 'v, 'p, 'd) lru_map)" where
  "evictionHelper env m =
     (case pop (lm_queue m) of
        (None, q) \<Rightarrow> Inr (GF_ENOENT, m\<lparr>lm_queue := q\<rparr>)
      | (Some e, q) \<Rightarrow>
          andThen (evict env e (m\<lparr>lm_queue := q\<rparr>)) (\<lambda>(isEvictDone, m1).
            let m2 = (if overflows (m_action m1) \<and> isEvictDone then add_valid (-1) m1 else m1)
            in Inr (if isEvictDone then GF_NOERR else GF_DISKFULL, m2)))"

text \<open>Every round takes one entry out of the queue and none puts one in, so the loop ends.\<close>

lemma andThen_cong [fundef_cong]:
  "x = y \<Longrightarrow> (\<And>a. y = Inr a \<Longrightarrow> f a = g a) \<Longrightarrow> andThen x f = andThen y g"
  by (cases y) simp_all

lemma updateMapSize_same [simp]:
  "lm_queue (updateMapSize sz m) = lm_queue m" "lm_entries (updateMapSize sz m) = lm_entries m"
  "m_action (updateMapSize sz m) = m_action m" "m_limit (updateMapSize sz m) = m_limit m"
  "m_validEntries (updateMapSize sz m) = m_validEntries m" "m_heapLRUEnabled (updateMapSize sz m) = m_heapLRUEnabled m"
  "disk (updateMapSize sz m) = disk m" "heap_size (updateMapSize sz m) = None \<longleftrightarrow> heap_size m = None"
  by (auto simp: updateMapSize_def split: option.splits)

lemma lru_add_size_same [simp]:
  "lm_queue (lru_add_size d m) = lm_queue m" "lm_entries (lru_add_size d m) = add_size d (lm_entries m)"
  "m_action (lru_add_size d m) = m_action m" "m_limit (lru_add_size d m) = m_limit m"
  "m_validEntries (lru_add_size d m) = m_validEntries m" "m_heapLRUEnabled (lru_add_size d m) = m_heapLRUEnabled m"
  "heap_size (lru_add_size d m) = heap_size m"
  by (simp_all add: lru_add_size_def)

lemma add_valid_same [simp]:
  "lm_queue (add_valid d m) = lm_queue m" "lm_entries (add_valid d m) = lm_entries m"
  "m_action (add_valid d m) = m_action m" "m_limit (add_valid d m) = m_limit m"
  "m_validEntries (add_valid d m) = m_validEntries m + d" "m_heapLRUEnabled (add_valid d m) = m_heapLRUEnabled m"
  "heap_size (add_valid d m) = heap_size m"
  by (simp_all add: add_valid_def)

lemma set_entry_value_queue [simp]: "lm_queue (set_entry_value env e v m) = lm_queue m"
  by (simp add: set_entry_value_def Let_def split: option.splits)

lemma lru_on_segment_same:
  assumes "lru_on_segment env key op m = Inr (r, m')"
  shows "lm_queue m' = lm_queue m" "m_action m' = m_action m" "m_limit m' = m_limit m"
    "m_validEntries m' = m_validEntries m" "m_heapLRUEnabled m' = m_heapLRUEnabled m" "heap_size m' = heap_size m"
    "on_segment (le_hash env) key op (lm_entries m) = Inr (r, lm_entries m')"
  using assms by (auto simp: lru_on_segment_def andThen_Inr_conv Let_def)

lemma old_from_disk_same:
  assumes "old_from_disk env key me v m = Inr (v', m')"
  shows "lm_queue m' = lm_queue m" "lm_entries m' = lm_entries m" "m_action m' = m_action m"
    "m_limit m' = m_limit m" "m_validEntries m' = m_validEntries m" "m_heapLRUEnabled m' = m_heapLRUEnabled m"
    "heap_size m' = heap_size m"
  using assms
  by (auto simp: old_from_disk_def take_from_disk_def andThen_Inr_conv Let_def split: if_splits option.splits)

lemma remove_lru_entry_shrinks: "remove_lru_entry e q = Inr q' \<Longrightarrow> length (container q') \<le> length (container q)"
  by (auto simp: remove_lru_entry_def al_erase_def split: lru_iter.splits if_splits)

lemma remove_account_Inr:
  assumes "remove_account env key me v r m = Inr (r', m')"
  shows "remove_lru_entry (ref_of me) (lm_queue m) = Inr (lm_queue m')"
    "lm_entries m' = (if r_flag r then add_size (-1) (lm_entries m) else lm_entries m)"
    "m_validEntries m' = (if isToken (Some v) then m_validEntries m else m_validEntries m - 1)"
    "m_action m' = m_action m" "m_limit m' = m_limit m" "m_heapLRUEnabled m' = m_heapLRUEnabled m"
    "r_err r' = r_err r" "heap_size m' = None \<longleftrightarrow> heap_size m = None"
proof -
  from assms obtain q where q: "remove_lru_entry (ref_of me) (lm_queue m) = Inr q"
    by (auto simp: remove_account_def andThen_Inr_conv)
  define m3 where "m3 = (let m1 = m\<lparr>lm_queue := q\<rparr>; m2 = (if r_flag r then lru_add_size (-1) m1 else m1)
    in if \<not> isToken (Some v) then add_valid (-1) m2 else m2)"
  from assms q obtain res m4 where d: "old_from_disk env key (Some me) (Some v) m3 = Inr (res, m4)"
    and e: "r' = r\<lparr>r_oldValue := res\<rparr>" "m' = m4 \<or> (\<exists>sz. m' = updateMapSize sz m4)"
    by (auto simp: remove_account_def andThen_Inr_conv Let_def m3_def simp del: isToken.simps split: if_splits)
  note same = old_from_disk_same[OF d]
  from e(2) same have eqs: "lm_queue m' = lm_queue m3" "lm_entries m' = lm_entries m3" "m_action m' = m_action m3"
    "m_limit m' = m_limit m3" "m_validEntries m' = m_validEntries m3" "m_heapLRUEnabled m' = m_heapLRUEnabled m3"
    "heap_size m' = None \<longleftrightarrow> heap_size m3 = None"
    by auto
  show "remove_lru_entry (ref_of me) (lm_queue m) = Inr (lm_queue m')"
    "lm_entries m' = (if r_flag r then add_size (-1) (lm_entries m) else lm_entries m)"
    "m_validEntries m' = (if isToken (Some v) then m_validEntries m else m_validEntries m - 1)"
    "m_action m' = m_action m" "m_limit m' = m_limit m" "m_heapLRUEnabled m' = m_heapLRUEnabled m"
    "r_err r' = r_err r" "heap_size m' = None \<longleftrightarrow> heap_size m = None"
    unfolding eqs by (simp_all add: m3_def Let_def q e(1) del: isToken.simps)
qed

lemma remove_lru_cases:
  assumes "remove_lru env key uc tag ar m = Inr (r, m')"
  obtains (same) "lru_on_segment env key
      (remove_seg (le_seg env) (sint (m_numDestroyTrackers (lm_entries m))) key uc tag ar) m = Inr (r, m')"
      "r_err r \<noteq> GF_NOERR \<or> r_oldValue r = None \<or> r_me r = None"
  | (removed) r1 m1 v i where "lru_on_segment env key
      (remove_seg (le_seg env) (sint (m_numDestroyTrackers (lm_entries m))) key uc tag ar) m = Inr (r1, m1)"
      "r_err r1 = GF_NOERR" "r_oldValue r1 = Some v" "r_me r1 = Some i" "remove_account env key i v r1 m1 = Inr (r, m')"
  using assms unfolding remove_lru_def
  by (auto simp: andThen_Inr_conv split: if_splits option.splits)

lemma remove_lru_shrinks:
  assumes "remove_lru env key uc tag ar m = Inr (r, m')"
  shows "length (container (lm_queue m')) \<le> length (container (lm_queue m))"
  using assms
proof (cases rule: remove_lru_cases)
  case same
  then show ?thesis using lru_on_segment_same(1) by fastforce
next
  case (removed r1 m1 v i)
  then show ?thesis
    using remove_lru_entry_shrinks[OF remove_account_Inr(1)[OF removed(5)]] lru_on_segment_same(1)[OF removed(1)] by simp
qed

lemma evict_shrinks:
  assumes "evict env e m = Inr (b, m')"
  shows "length (container (lm_queue m')) \<le> length (container (lm_queue m))"
proof (cases "m_action m")
  case TestMapAction
  with assms show ?thesis by (auto simp: evict_def evict_test_def andThen_Inr_conv dest: remove_lru_shrinks)
next
  case LRUOverFlowToDiskAction
  with assms show ?thesis
    by (auto simp: evict_def evict_overflow_def Let_def split: if_splits option.splits prod.splits)
qed

lemma evictionHelper_shrinks:
  assumes "evictionHelper env m = Inr (GF_NOERR, m')"
  shows "length (container (lm_queue m')) < length (container (lm_queue m))"
  using assms
  by (auto simp: evictionHelper_def pop_def andThen_Inr_conv Let_def less_Suc_eq_le
      split: list.splits if_splits dest!: evict_shrinks)

function processLRU :: "('k, 'v, 'p, 'd) lru_env \<Rightarrow> ('k, 'v, 'p, 'd) lru_map \<Rightarrow> gf_exn + (gf_err \<times> ('k, 'v, 'p, 'd) lru_map)" where
  "processLRU env m =
     (if \<not> mustEvict m then Inr (GF_NOERR, m)
      else andThen (evictionHelper env m) (\<lambda>(canEvict, m1).
             if canEvict = GF_NOERR then processLRU env m1 else Inr (canEvict, m1)))"
  by pat_completeness auto

termination
  by (relation "measure (\<lambda>(env, m). length (container (lm_queue m)))")
    (auto dest: evictionHelper_shrinks)

declare processLRU.simps [simp del]

text \<open>
  Evicting a given number of entries, at the order of the eviction controller. The count and
  the sizes are compared as the code does, before every entry.
\<close>

fun processLRU_n :: "('k, 'v, 'p, 'd) lru_env \<Rightarrow> nat \<Rightarrow> ('k, 'v, 'p, 'd) lru_map \<Rightarrow> gf_exn + ('k, 'v, 'p, 'd) lru_map" where
  "processLRU_n env 0 m = Inr m"
| "processLRU_n env (Suc n) m =
     (if 0 < m_validEntries m \<and> 0 < size_map (lm_entries m)
      then andThen (evictionHelper env m) (\<lambda>(err, m1). processLRU_n env n m1)
      else Inr m)"

section \<open>Create, put, invalidate, get\<close>

definition create_lru ::
  "('k, 'v, 'p, 'd) lru_env \<Rightarrow> 'k \<Rightarrow> 'v ptr \<Rightarrow> int \<Rightarrow> int \<Rightarrow> version_tag option \<Rightarrow> ('k, 'v, 'p, 'd) lru_op" where
  "create_lru env key newValue updateCount destroyTracker tag m =
     andThen (lru_on_segment env key
         (create_seg (le_seg env) (sint (m_numDestroyTrackers (lm_entries m))) key newValue updateCount destroyTracker tag) m)
       (\<lambda>(r, m1).
         if r_err r \<noteq> GF_NOERR then Inr (r, m1)
         else
           let m2 = (if \<not> isToken newValue then add_valid 1 m1 else m1);
               m3 = (if r_oldValue r \<noteq> Some InvalidToken then lru_add_size 1 m2 else m2)
           in andThen (lru_getEntry env key m3) (\<lambda>found.
                case found of
                  None \<Rightarrow> Inr (r, m3)
                | Some (i, v) \<Rightarrow>
                    let m4 = lru_push (ref_of i) m3; r1 = r\<lparr>r_me := Some i\<rparr> in
                    andThen
                      (if heap_size m4 = None then Inr m4
                       else andThen (checkAndGetObjectSize env newValue) (\<lambda>sz.
                              Inr (updateMapSize
                                (sz + objectSize_key env key - size_or_pointer env (r_oldValue r)) m4)))
                      (\<lambda>m5. andThen (processLRU env m5) (\<lambda>(err, m6). Inr (r1\<lparr>r_err := err\<rparr>, m6)))))"

text \<open>The part of put after the segment has been updated: counters, queue and sizes.\<close>

definition put_account ::
  "('k, 'v, 'p, 'd) lru_env \<Rightarrow> 'k \<Rightarrow> bool \<Rightarrow> 'v ptr \<Rightarrow> ('k, 'v) op_result \<Rightarrow> ('k, 'v, 'p, 'd) lru_op" where
  "put_account env key isOldValueToken oldValue r m =
     (let newValue = r_newValue r; isUpdate = r_flag r;
          m1 = (if isToken newValue \<and> \<not> isOldValueToken then add_valid (-1) m else m);
          m2 = (if \<not> isToken newValue \<and> isOldValueToken then add_valid 1 m1 else m1);
          m3 = (if \<not> isUpdate then add_valid 1 (lru_add_size 1 m2) else m2)
      in andThen
           (if \<not> isUpdate \<or> \<not> isToken newValue \<and> isOldValueToken then
              andThen (lru_getEntry env key m3) (\<lambda>found.
                case found of None \<Rightarrow> Inl MemoryFault
                | Some (i, v) \<Rightarrow> Inr (r\<lparr>r_me := Some i\<rparr>, lru_push (ref_of i) m3))
            else Inr (r, m3))
           (\<lambda>(r1, m4).
              if heap_size m4 = None then Inr (r1\<lparr>r_oldValue := oldValue\<rparr>, m4)
              else andThen (checkAndGetObjectSize env newValue) (\<lambda>sz.
                     Inr (r1\<lparr>r_oldValue := oldValue\<rparr>,
                       updateMapSize (if \<not> isUpdate then sz + objectSize_key env key
                                      else sz - size_or_pointer env oldValue) m4))))"

definition put_lru ::
  "('k, 'v, 'p, 'd) lru_env \<Rightarrow> 'k \<Rightarrow> 'v ptr \<Rightarrow> int \<Rightarrow> int \<Rightarrow> version_tag option \<Rightarrow> data_input option \<Rightarrow>
   ('k, 'v, 'p, 'd) lru_op" where
  "put_lru env key newValue updateCount destroyTracker tag delta m =
     andThen (lru_on_segment env key
         (put_seg (le_seg env) (sint (m_numDestroyTrackers (lm_entries m))) key newValue updateCount destroyTracker tag delta) m)
       (\<lambda>(r, m1).
         if r_err r \<noteq> GF_NOERR then Inr (r, m1)
         else
           andThen (old_from_disk env key (r_me r) (r_oldValue r) m1) (\<lambda>(oldValue, m2).
             andThen (put_account env key (isToken (r_oldValue r)) oldValue r m2) (\<lambda>(r1, m3).
               andThen (processLRU env m3) (\<lambda>(err, m4). Inr (r1\<lparr>r_err := err\<rparr>, m4)))))"

definition invalidate_lru ::
  "('k, 'v, 'p, 'd) lru_env \<Rightarrow> 'k \<Rightarrow> version_tag option \<Rightarrow> ('k, 'v, 'p, 'd) lru_op" where
  "invalidate_lru env key tag m =
     andThen (lru_on_segment env key
         (invalidate_seg (le_seg env) (sint (m_numDestroyTrackers (lm_entries m))) key tag) m)
       (\<lambda>(r, m1).
         let m2 = (if r_flag r then lru_add_size 1 m1 else m1) in
         if r_err r \<noteq> GF_NOERR then Inr (r, m2)
         else
           andThen (old_from_disk env key (r_me r) (r_oldValue r) m2) (\<lambda>(oldValue, m3).
             if isToken (r_oldValue r) then Inr (r\<lparr>r_oldValue := oldValue\<rparr>, m3)
             else
               let m4 = add_valid (-1) m3 in
               (case r_me r of
                  None \<Rightarrow> Inl MemoryFault
                | Some i \<Rightarrow>
                    andThen (remove_lru_entry (ref_of i) (lm_queue m4)) (\<lambda>q.
                      let m5 = m4\<lparr>lm_queue := q\<rparr>;
                          newSize = objectSize env InvalidToken - size_or_pointer env oldValue
                      in Inr (r\<lparr>r_oldValue := oldValue\<rparr>,
                              if heap_size m5 \<noteq> None \<and> newSize \<noteq> 0 then updateMapSize newSize m5 else m5)))))"

definition get_lru ::
  "('k, 'v, 'p, 'd) lru_env \<Rightarrow> 'k \<Rightarrow> ('k, 'v, 'p, 'd) lru_map \<Rightarrow>
   gf_exn + (bool \<times> 'v ptr \<times> ('k, 'v, 'p, 'd) lru_map)" where
  "get_lru env key m =
     andThen (lru_getEntry env key m) (\<lambda>found.
       case found of
         None \<Rightarrow> Inr (False, None, m)
       | Some (i, v) \<Rightarrow>
           if v = OverflowedToken then
             (case pm_read env key (persistence_info m (ref_of i)) (disk m) of
                Inl _ \<Rightarrow> Inr (False, Some v, m)
              | Inr val \<Rightarrow>
                  andThen (lru_on_segment env key
                      (put_seg (le_seg env) (sint (m_numDestroyTrackers (lm_entries m))) key val 0 0 None None) m)
                    (\<lambda>(r, m1).
                      if r_err r \<noteq> GF_NOERR then Inr (False, val, m1)
                      else
                        let e = (case r_me r of Some i1 \<Rightarrow> ref_of i1 | None \<Rightarrow> ref_of i);
                            m2 = lru_push e (add_valid 1 m1);
                            m3 = updateMapSize (case val of Some x \<Rightarrow> objectSize env x - objectSize env InvalidToken
                                                | None \<Rightarrow> sizeof_ptr) m2
                        in andThen (processLRU env m3) (\<lambda>(err, m4). Inr (err = GF_NOERR, val, m4))))
           else andThen (move_to_end (ref_of i) (lm_queue m)) (\<lambda>q. Inr (True, Some v, m\<lparr>lm_queue := q\<rparr>)))"

text \<open>Clearing empties the segments. The queue and the count of values stay as they are.\<close>

definition clear_lru :: "('k, 'v, 'p, 'd) lru_map \<Rightarrow> ('k, 'v, 'p, 'd) lru_map" where
  "clear_lru m =
     (let m1 = updateMapSize (- m_currentMapSize m) m;
          objects = concat (map (\<lambda>s. map (\<lambda>(k, e). (ref_of (getImplPtr e), getValueI (getImplPtr e))) (m_map s))
                      (m_segments (lm_entries m)))
      in m1\<lparr>lm_entries := clear_map (lm_entries m),
            detached := fold (\<lambda>(e, v). al_assign e v) objects (detached m)\<rparr>)"

definition adjustLimit :: "u32 \<Rightarrow> ('k, 'v, 'p, 'd) lru_map \<Rightarrow> ('k, 'v, 'p, 'd) lru_map" where
  "adjustLimit limit m = m\<lparr>m_limit := limit\<rparr>"

section \<open>Entry objects and their numbers\<close>

text \<open>The number of the object that holds the value of a key, when the key is stored.\<close>

definition entry_id :: "'k \<Rightarrow> ('k, 'v) segment \<Rightarrow> nat option" where
  "entry_id k s = map_option (\<lambda>p. e_id (fst p)) (getEntry_seg k s)"

lemma entry_id_absent: "al_find (m_map s) k = None \<Longrightarrow> entry_id k s = None"
  by (simp add: entry_id_def getEntry_seg_def)

lemma entry_id_live: "al_find (m_map s) k = Some (MapEntryT i) \<Longrightarrow> storable (e_value i) \<Longrightarrow> entry_id k s = Some (e_id i)"
  by (auto simp: entry_id_def getEntry_seg_def getValueI_def storable_def stored_def split: option.splits)

lemma entry_id_dead: "al_find (m_map s) k = Some (MapEntryT i) \<Longrightarrow> e_value i = Some TombstoneToken \<Longrightarrow> entry_id k s = None"
  by (simp add: entry_id_def getEntry_seg_def getValueI_def)

lemmas entry_id_simps = entry_id_absent entry_id_live entry_id_dead

lemma seg_next_simps [simp]:
  "seg_next (snd (tombstone_erase k s)) = seg_next s" "seg_next (remove_entry k s) = seg_next s"
  "seg_next (bind_entry k e s) = seg_next s" "seg_next (tombstone_add i s) = seg_next s + 1"
  by (simp_all add: tombstone_erase_def remove_entry_def bind_entry_def tombstone_add_def Let_def split: option.splits)

lemma entry_id_tombstone_add [simp]: "entry_id k (tombstone_add i s) = entry_id k s"
  by (simp add: entry_id_def getEntry_seg_def tombstone_add_def)

lemma check_rehash_same:
  assumes "check_rehash s = Inr s1"
  shows "seg_next s1 = seg_next s" "entry_id k s1 = entry_id k s"
  using assms
  by (auto simp: check_rehash_def rehash_def entry_id_def getEntry_seg_def andThen_Inr_conv split: if_splits)

lemma putNoEntry_id:
  assumes "m_concurrencyChecksEnabled s" "al_find (m_map s) k = None" "storable v"
    "putNoEntry n k v uc dt tag st s = (err, me, s')"
  shows "err = GF_NOERR" "entry_id k s' = Some (seg_next s)" "seg_next s' = seg_next s + 1"
proof -
  obtain i where i: "err = GF_NOERR" "me = Some i" "e_value i = v" "al_find (m_map s') k = Some (MapEntryT i)"
    by (rule putNoEntry_conc[OF assms(1,2,4)]) blast
  have "e_id i = seg_next s" "seg_next s' = seg_next s + 1"
    using assms(1,4) i(1,2)
    by (auto simp: putNoEntry_def newMapEntry_def setValueI_def Let_def split: option.splits)
  with i assms(3) show "err = GF_NOERR" "entry_id k s' = Some (seg_next s)" "seg_next s' = seg_next s + 1"
    by (simp_all add: entry_id_live)
qed

text \<open>
  What an update does to the object of a key: an object in use stays, otherwise there is a
  new one. Numbers are never reused.
\<close>

definition renews :: "'k \<Rightarrow> ('k, 'v) segment \<Rightarrow> ('k, 'v) segment \<Rightarrow> bool" where
  "renews k s s' \<longleftrightarrow> seg_next s \<le> seg_next s' \<and>
     (case entry_id k s of
        Some n \<Rightarrow> entry_id k s' = Some n
      | None \<Rightarrow> (\<exists>n. entry_id k s' = Some n \<and> seg_next s \<le> n \<and> n < seg_next s'))"

lemma put_seg_renews:
  assumes inv: "conc_inv s" and v: "storable v"
    and res: "put_seg env n k v uc dt tag None s = Inr (r, s')"
  shows "r_newValue r = v" "r_err r = GF_NOERR \<Longrightarrow> renews k s s'"
    "r_err r \<noteq> GF_NOERR \<Longrightarrow> seg_next s' = seg_next s \<and> entry_id k s' = entry_id k s"
proof -
  from res obtain s1 where s1: "check_rehash s = Inr s1"
    by (auto simp: put_seg_def andThen_Inr_conv)
  note inv1 = conc_inv_check_rehash[OF s1 inv] and same = check_rehash_same[OF s1]
  note conc = conc_inv_D[OF inv1]
  from inv1 have "r_newValue r = v \<and> (if r_err r = GF_NOERR then renews k s1 s'
    else seg_next s' = seg_next s1 \<and> entry_id k s' = entry_id k s1)"
  proof (cases rule: conc_inv_cases[where k = k])
    case absent
    obtain err me s2 where p: "putNoEntry n k v uc dt tag None s1 = (err, me, s2)"
      by (cases "putNoEntry n k v uc dt tag None s1")
    with res s1 absent have "r = result err me None v False" "s' = s2"
      by (auto simp: put_seg_def)
    with putNoEntry_id[OF conc absent(1) v p] absent show ?thesis
      by (simp add: result_def renews_def entry_id_simps)
  next
    case (live i)
    then have val: "getValueI i = e_value i" "e_value i \<noteq> None" "e_value i \<noteq> Some TombstoneToken"
      using getValueI_stored[of i] by (auto simp: storable_def stored_def)
    from res s1 live val obtain err st where st: "next_stamp env tag False (MapEntryT i) s1 = Inr (err, st)"
      by (auto simp: put_seg_def andThen_Inr_conv Let_def)
    note p = putForTrackedEntry_conc[OF conc refl, of env k v i uc st]
    show ?thesis
      using res s1 live val st p v by (cases "err = GF_NOERR")
        (auto simp: put_seg_def Let_def result_def renews_def entry_id_simps)
  next
    case (dead i t)
    then have val: "getValueI i = Some TombstoneToken" by (simp add: getValueI_tomb)
    from res s1 dead val obtain err st where st: "next_stamp env tag False (MapEntryT i) s1 = Inr (err, st)"
      by (auto simp: put_seg_def andThen_Inr_conv Let_def)
    obtain err1 me s2 where p: "putNoEntry n k v uc dt tag (Some st) (remove_entry k s1) = (err1, me, s2)"
      by (cases "putNoEntry n k v uc dt tag (Some st) (remove_entry k s1)")
    have "m_concurrencyChecksEnabled (remove_entry k s1)"
      using conc_inv_D[OF conc_inv_remove_entry[OF inv1]] by simp
    from putNoEntry_id[OF this _ v p] dead
    have "err1 = GF_NOERR" "entry_id k s2 = Some (seg_next s1)" "seg_next s2 = seg_next s1 + 1" by simp_all
    then show ?thesis
      using res s1 dead val st p by (cases "err = GF_NOERR")
        (auto simp: put_seg_def Let_def result_def renews_def entry_id_simps)
  qed
  then show "r_newValue r = v" "r_err r = GF_NOERR \<Longrightarrow> renews k s s'"
    "r_err r \<noteq> GF_NOERR \<Longrightarrow> seg_next s' = seg_next s \<and> entry_id k s' = entry_id k s"
    unfolding renews_def same by (simp_all split: if_splits)
qed

lemma create_seg_renews:
  assumes inv: "conc_inv s" and v: "storable v"
    and res: "create_seg env n k v uc dt tag s = Inr (r, s')"
  shows "r_err r = GF_NOERR \<Longrightarrow> renews k s s' \<and> entry_id k s = None"
    "r_err r \<noteq> GF_NOERR \<Longrightarrow> seg_next s' = seg_next s \<and> entry_id k s' = entry_id k s"
proof -
  from res obtain s1 where s1: "check_rehash s = Inr s1"
    by (auto simp: create_seg_def andThen_Inr_conv)
  note inv1 = conc_inv_check_rehash[OF s1 inv] and same = check_rehash_same[OF s1]
  note conc = conc_inv_D[OF inv1]
  from inv1 have "if r_err r = GF_NOERR then renews k s1 s' \<and> entry_id k s1 = None
    else seg_next s' = seg_next s1 \<and> entry_id k s' = entry_id k s1"
  proof (cases rule: conc_inv_cases[where k = k])
    case absent
    obtain err me s2 where p: "putNoEntry n k v uc dt tag None s1 = (err, me, s2)"
      by (cases "putNoEntry n k v uc dt tag None s1")
    with res s1 absent have "r = result err me None v False" "s' = s2"
      by (auto simp: create_seg_def)
    with putNoEntry_id[OF conc absent(1) v p] absent show ?thesis
      by (simp add: result_def renews_def entry_id_simps)
  next
    case (live i)
    then have "getValueI i = e_value i" "e_value i \<noteq> None" "e_value i \<noteq> Some TombstoneToken"
      using getValueI_stored[of i] by (auto simp: storable_def stored_def)
    with res s1 live show ?thesis by (auto simp: create_seg_def Let_def result_def)
  next
    case (dead i t)
    then have val: "getValueI i = Some TombstoneToken" by (simp add: getValueI_tomb)
    from res s1 dead val obtain err st where st: "next_stamp env tag False (MapEntryT i) s1 = Inr (err, st)"
      by (auto simp: create_seg_def andThen_Inr_conv Let_def)
    obtain err1 me s2 where p: "putNoEntry n k v uc dt tag (Some st) (remove_entry k s1) = (err1, me, s2)"
      by (cases "putNoEntry n k v uc dt tag (Some st) (remove_entry k s1)")
    have "m_concurrencyChecksEnabled (remove_entry k s1)"
      using conc_inv_D[OF conc_inv_remove_entry[OF inv1]] by simp
    from putNoEntry_id[OF this _ v p] dead
    have "err1 = GF_NOERR" "entry_id k s2 = Some (seg_next s1)" "seg_next s2 = seg_next s1 + 1" by simp_all
    then show ?thesis
      using res s1 dead val st p by (cases "err = GF_NOERR")
        (auto simp: create_seg_def Let_def result_def renews_def entry_id_simps)
  qed
  then show "r_err r = GF_NOERR \<Longrightarrow> renews k s s' \<and> entry_id k s = None"
    "r_err r \<noteq> GF_NOERR \<Longrightarrow> seg_next s' = seg_next s \<and> entry_id k s' = entry_id k s"
    unfolding renews_def same by (auto split: if_splits)
qed

text \<open>A removal hands out the object that held the value.\<close>

lemma remove_seg_object:
  assumes inv: "conc_inv s" and res: "remove_seg env n k uc tag ar s = Inr (r, s')"
  shows "seg_next s \<le> seg_next s'"
    "r_err r = GF_NOERR \<Longrightarrow> r_oldValue r \<noteq> None \<Longrightarrow> \<exists>i. r_me r = Some i \<and> e_key i = k \<and> entry_id k s = Some (e_id i)"
    "r_err r \<noteq> GF_NOERR \<Longrightarrow> entry_id k s' = entry_id k s"
proof -
  note conc = conc_inv_D[OF inv]
  with res have res': "removeWhenConcurrencyEnabled env n k uc tag ar s = Inr (r, s')"
    by (simp add: remove_seg_def)
  from inv have "seg_next s \<le> seg_next s' \<and>
    (r_err r = GF_NOERR \<longrightarrow> r_oldValue r \<noteq> None \<longrightarrow> (\<exists>i. r_me r = Some i \<and> e_key i = k \<and> entry_id k s = Some (e_id i))) \<and>
    (r_err r \<noteq> GF_NOERR \<longrightarrow> entry_id k s' = entry_id k s)"
  proof (cases rule: conc_inv_cases[where k = k])
    case absent
    show ?thesis
    proof (cases tag)
      case None
      with res' absent show ?thesis by (auto simp: removeWhenConcurrencyEnabled_def result_def)
    next
      case (Some t)
      obtain err me s0 where p: "putNoEntry n k (Some TombstoneToken) (-1) 0 tag None s = (err, me, s0)"
        by (cases "putNoEntry n k (Some TombstoneToken) (-1) 0 tag None s")
      obtain i where i: "me = Some i" "e_value i = Some TombstoneToken" "al_find (m_map s0) k = Some (MapEntryT i)"
        by (rule putNoEntry_conc[OF conc absent(1) p]) blast
      have "seg_next s0 = seg_next s + 1"
        using p conc by (auto simp: putNoEntry_def newMapEntry_def Let_def)
      with res' absent p i Some show ?thesis
        by (auto simp: removeWhenConcurrencyEnabled_def result_def entry_id_simps)
    qed
  next
    case (live i)
    then have val: "getValueI i = e_value i" "e_value i \<noteq> None" "e_value i \<noteq> Some TombstoneToken"
      using getValueI_stored[of i] by (auto simp: storable_def stored_def)
    from res' live obtain err st where st: "next_stamp env tag False (MapEntryT i) s = Inr (err, st)"
      by (auto simp: removeWhenConcurrencyEnabled_def andThen_Inr_conv)
    show ?thesis
      using res' live val st putForTrackedEntry_conc[OF conc refl, of env k "Some TombstoneToken" i uc st]
      by (cases "err = GF_NOERR")
        (auto simp: removeWhenConcurrencyEnabled_def Let_def result_def entry_id_simps)
  next
    case (dead i t)
    then have val: "getValueI i = Some TombstoneToken" by (simp add: getValueI_tomb)
    from res' dead obtain err st where st: "next_stamp env tag False (MapEntryT i) s = Inr (err, st)"
      by (auto simp: removeWhenConcurrencyEnabled_def andThen_Inr_conv)
    show ?thesis
      using res' dead val st putForTrackedEntry_conc[OF conc refl, of env k "Some TombstoneToken" i uc st]
      by (cases "err = GF_NOERR")
        (auto simp: removeWhenConcurrencyEnabled_def Let_def result_def entry_id_simps)
  qed
  then show "seg_next s \<le> seg_next s'"
    "r_err r = GF_NOERR \<Longrightarrow> r_oldValue r \<noteq> None \<Longrightarrow> \<exists>i. r_me r = Some i \<and> e_key i = k \<and> entry_id k s = Some (e_id i)"
    "r_err r \<noteq> GF_NOERR \<Longrightarrow> entry_id k s' = entry_id k s"
    by blast+
qed

text \<open>Without a version tag, removing a stored key succeeds.\<close>

lemma remove_seg_untagged:
  assumes inv: "conc_inv s" and k: "lookup_seg k s \<noteq> None"
  shows "\<exists>r s'. remove_seg env n k uc None ar s = Inr (r, s') \<and> r_err r = GF_NOERR"
proof -
  note conc = conc_inv_D[OF inv]
  from inv show ?thesis
  proof (cases rule: conc_inv_cases[where k = k])
    case (live i)
    then show ?thesis
      using putForTrackedEntry_conc[OF conc refl, of env k "Some TombstoneToken" i uc "e_stamp i"]
        next_stamp_conc[OF conc, of env None False i] conc
      by (auto simp: remove_seg_def removeWhenConcurrencyEnabled_def Let_def result_def getValueI_def storable_def)
  qed (use k in \<open>simp_all add: lookup_find\<close>)
qed

section \<open>The invariant\<close>

definition map_id :: "('k \<Rightarrow> u32) \<Rightarrow> ('k, 'v) entries_map \<Rightarrow> 'k \<rightharpoonup> nat" where
  "map_id hashcode M k = entry_id k (m_segments M ! segmentIdx hashcode k M)"

definition map_next :: "('k \<Rightarrow> u32) \<Rightarrow> ('k, 'v) entries_map \<Rightarrow> 'k \<Rightarrow> nat" where
  "map_next hashcode M k = seg_next (m_segments M ! segmentIdx hashcode k M)"

text \<open>
  A map whose entries all hold a value and whose action removes them: the queue has exactly
  the objects of the stored keys, both counters are its length, and an object that has not
  been made yet has never been in it.
\<close>

definition lru_inv :: "('k, 'v, 'p, 'd) lru_env \<Rightarrow> ('k, 'v, 'p, 'd) lru_map \<Rightarrow> bool" where
  "lru_inv env m \<longleftrightarrow>
     map_inv (le_hash env) (lm_entries m) \<and> sized (le_hash env) (lm_entries m) \<and>
     queue_inv (lm_queue m) \<and> m_action m = TestMapAction \<and>
     (\<forall>k n. (k, n) \<in> set (queue_order (lm_queue m)) \<longleftrightarrow> map_id (le_hash env) (lm_entries m) k = Some n) \<and>
     (\<forall>k v. lookup_map (le_hash env) (lm_entries m) k = Some v \<longrightarrow> \<not> isToken (Some v)) \<and>
     (\<forall>k n. iterator (lm_queue m) (k, n) \<noteq> Singular \<longrightarrow> n < map_next (le_hash env) (lm_entries m) k) \<and>
     m_validEntries m = of_nat (length (queue_order (lm_queue m)))"

lemma map_id_lookup:
  "map_inv h M \<Longrightarrow> map_id h M k = None \<longleftrightarrow> lookup_map h M k = None"
  by (simp add: map_id_def entry_id_def lookup_map_inv lookup_seg_def)

lemma add_size_views [simp]:
  "map_id h (add_size d M) = map_id h M" "map_next h (add_size d M) = map_next h M"
  "map_inv h (add_size d M) = map_inv h M" "lookup_map h (add_size d M) = lookup_map h M"
  "m_size (add_size d M) = m_size M + d" "m_numDestroyTrackers (add_size d M) = m_numDestroyTrackers M"
  by (auto simp: add_size_def map_id_def map_next_def map_inv_def segmentIdx_def lookup_map_def segmentFor_def fun_eq_iff)

lemma entry_id_only_at: "only_at k s s' \<Longrightarrow> k' \<noteq> k \<Longrightarrow> entry_id k' s' = entry_id k' s"
  by (simp add: entry_id_def getEntry_seg_def only_at_find)

lemma on_segment_ids:
  assumes inv: "map_inv h M" and run: "on_segment h key op M = Inr (r, M')"
    and eff: "\<And>s s'. \<lbrakk>s = m_segments M ! segmentIdx h key M; conc_inv s; op s = Inr (r, s')\<rbrakk> \<Longrightarrow>
      only_at key s s' \<and> seg_next s \<le> seg_next s' \<and> P (entry_id key s) (seg_next s) (entry_id key s') (seg_next s')"
  shows "(\<forall>k. k \<noteq> key \<longrightarrow> map_id h M' k = map_id h M k) \<and> (\<forall>k. map_next h M k \<le> map_next h M' k) \<and>
    P (map_id h M key) (map_next h M key) (map_id h M' key) (map_next h M' key)"
proof -
  let ?i = "segmentIdx h key M"
  note at = segmentFor_inv[OF inv, of key]
  from run at obtain s' where s': "op (m_segments M ! ?i) = Inr (r, s')" "M' = M\<lparr>m_segments := (m_segments M)[?i := s']\<rparr>"
    by (auto simp: on_segment_def andThen_Inr_conv)
  note e = eff[OF refl at(3) s'(1)]
  have idx: "segmentIdx h k M' = segmentIdx h k M" for k by (simp add: s'(2) segmentIdx_def)
  have nth: "m_segments M' ! j = (if j = ?i then s' else m_segments M ! j)" for j
    using at(1) by (auto simp: s'(2) nth_list_update)
  show ?thesis
    using e entry_id_only_at[of key "m_segments M ! ?i" s'] by (simp add: map_id_def map_next_def idx nth)
qed

lemma lru_inv_keys:
  assumes "lru_inv env m"
  shows "distinct (map fst (queue_order (lm_queue m)))"
    "fst ` set (queue_order (lm_queue m)) = dom (lookup_map (le_hash env) (lm_entries m))"
    "m_size (lm_entries m) = of_nat (length (queue_order (lm_queue m)))"
proof -
  let ?o = "queue_order (lm_queue m)" and ?M = "lm_entries m"
  have mem: "(k, n) \<in> set ?o \<longleftrightarrow> map_id (le_hash env) ?M k = Some n" for k n
    using assms by (simp add: lru_inv_def)
  have inj: "inj_on fst (set ?o)"
    by (rule inj_onI) (auto simp: mem)
  have d: "distinct ?o" using assms by (auto simp: lru_inv_def intro: queue_order_distinct)
  from inj d show dm: "distinct (map fst ?o)" by (simp add: distinct_map)
  have inv: "map_inv (le_hash env) ?M" using assms by (simp add: lru_inv_def)
  show dom: "fst ` set ?o = dom (lookup_map (le_hash env) ?M)"
  proof (intro set_eqI iffI)
    fix k
    assume "k \<in> fst ` set ?o"
    then obtain n where "map_id (le_hash env) ?M k = Some n" using mem by auto
    then show "k \<in> dom (lookup_map (le_hash env) ?M)" using map_id_lookup[OF inv, of k] by auto
  next
    fix k
    assume "k \<in> dom (lookup_map (le_hash env) ?M)"
    then obtain n where "map_id (le_hash env) ?M k = Some n"
      using map_id_lookup[OF inv, of k] by fastforce
    then show "k \<in> fst ` set ?o" using mem[of k n] by force
  qed
  show "m_size ?M = of_nat (length ?o)"
    using assms distinct_card[OF dm] dom by (auto simp: lru_inv_def sized_def)
qed

section \<open>Removal and eviction keep the invariant\<close>

lemma lru_on_segment_total:
  assumes "on_segment (le_hash env) key op (lm_entries m) = Inr (r, M')"
  shows "\<exists>m1. lru_on_segment env key op m = Inr (r, m1) \<and> lm_entries m1 = M'"
  using assms by (simp add: lru_on_segment_def Let_def)

lemma isToken_overflowed: "\<not> isToken v \<Longrightarrow> v \<noteq> Some OverflowedToken"
  by auto

lemma remove_account_total:
  assumes "remove_lru_entry (ref_of me) (lm_queue m) = Inr q" "\<not> isToken (Some v)"
  shows "\<exists>r' m'. remove_account env key me v r m = Inr (r', m')"
  using assms isToken_overflowed[OF assms(2)]
  by (auto simp: remove_account_def old_from_disk_def checkAndGetObjectSize_def Let_def simp del: isToken.simps)

lemma on_segment_remove:
  assumes inv: "map_inv h M" and run: "on_segment h k (remove_seg senv d k uc tag ar) M = Inr (r, M')"
    and ok: "r_err r = GF_NOERR" and n: "map_id h M k = Some n"
  shows "map_inv h M'" "lookup_map h M' = (lookup_map h M)(k := None)" "m_size M' = m_size M"
    "map_id h M' = (map_id h M)(k := None)" "\<forall>k'. map_next h M k' \<le> map_next h M' k'"
    "r_oldValue r = lookup_map h M k" "r_flag r" "\<exists>i. r_me r = Some i \<and> ref_of i = (k, n)"
proof -
  let ?s = "m_segments M ! segmentIdx h k M"
  note at = segmentFor_inv[OF inv, of k]
  from run at obtain s' where s': "remove_seg senv d k uc tag ar ?s = Inr (r, s')"
    by (auto simp: on_segment_def andThen_Inr_conv)
  note eff = remove_seg_effect[OF at(3) s']
  have "map_inv h M' \<and> lookup_map h M' = (lookup_map h M)(k := None) \<and> m_size M' = m_size M"
    by (rule on_segment_effect[OF inv run]) (use remove_seg_effect ok in \<open>fastforce\<close>)
  then show inv': "map_inv h M'" and look: "lookup_map h M' = (lookup_map h M)(k := None)" and "m_size M' = m_size M"
    by simp_all
  have ids: "(\<forall>k'. k' \<noteq> k \<longrightarrow> map_id h M' k' = map_id h M k') \<and> (\<forall>k'. map_next h M k' \<le> map_next h M' k') \<and> True"
    by (rule on_segment_ids[OF inv run])
      (auto simp: remove_seg_effect[unfolded op_effect_def] dest: remove_seg_object(1))
  moreover have "map_id h M' k = None" using map_id_lookup[OF inv', of k] look by simp
  ultimately show "map_id h M' = (map_id h M)(k := None)" by auto
  from ids show "\<forall>k'. map_next h M k' \<le> map_next h M' k'" by blast
  have live: "lookup_map h M k \<noteq> None" using map_id_lookup[OF inv, of k] n by simp
  show old: "r_oldValue r = lookup_map h M k" and "r_flag r"
    using eff ok live by (auto simp: lookup_map_inv[OF inv])
  with live remove_seg_object(2)[OF at(3) s' ok] n show "\<exists>i. r_me r = Some i \<and> ref_of i = (k, n)"
    by (auto simp: map_id_def ref_of_def)
qed

lemma remove_lru_live:
  assumes inv: "map_inv (le_hash env) (lm_entries m)" and n: "map_id (le_hash env) (lm_entries m) k = Some n"
    and q: "queue_inv (lm_queue m)" "iterator (lm_queue m) (k, n) \<noteq> Singular"
    and v: "lookup_map (le_hash env) (lm_entries m) k = Some v" "\<not> isToken (Some v)"
    and run: "on_segment (le_hash env) k (remove_seg (le_seg env) (sint (m_numDestroyTrackers (lm_entries m))) k uc tag ar)
      (lm_entries m) = Inr (r0, M1)" and ok: "r_err r0 = GF_NOERR"
  shows "\<exists>r m'. remove_lru env k uc tag ar m = Inr (r, m') \<and> r_err r = GF_NOERR \<and>
    lm_entries m' = add_size (-1) M1 \<and> queue_inv (lm_queue m') \<and>
    queue_order (lm_queue m') = remove1 (k, n) (queue_order (lm_queue m)) \<and>
    iterator (lm_queue m') = (iterator (lm_queue m))((k, n) := End) \<and>
    m_validEntries m' = m_validEntries m - 1 \<and> m_action m' = m_action m \<and> m_limit m' = m_limit m \<and>
    m_heapLRUEnabled m' = m_heapLRUEnabled m"
proof -
  note sg = on_segment_remove[OF inv run ok n]
  obtain i where i: "r_me r0 = Some i" "ref_of i = (k, n)" using sg(8) by blast
  obtain m1 where m1: "lru_on_segment env k (remove_seg (le_seg env) (sint (m_numDestroyTrackers (lm_entries m))) k uc tag ar) m
      = Inr (r0, m1)" "lm_entries m1 = M1"
    using lru_on_segment_total[OF run] by blast
  note same = lru_on_segment_same[OF m1(1)]
  obtain q' where q': "remove_lru_entry (k, n) (lm_queue m) = Inr q'" "queue_inv q'"
    "queue_order q' = remove1 (k, n) (queue_order (lm_queue m))" "iterator q' = (iterator (lm_queue m))((k, n) := End)"
    using remove_lru_entry_spec[OF q] by blast
  then obtain r m' where acc: "remove_account env k i v r0 m1 = Inr (r, m')"
    using remove_account_total[of i m1 q' v env k r0] v(2) i(2) same(1) by metis
  note a = remove_account_Inr[OF acc]
  have "remove_lru env k uc tag ar m = Inr (r, m')"
    using m1(1) ok sg(6) v(1) i(1) acc by (simp add: remove_lru_def)
  then show ?thesis
    using a q' same m1(2) ok sg(7) v(2) i(2) by (simp del: isToken.simps)
qed

lemma lru_invD:
  assumes "lru_inv env m"
  shows "map_inv (le_hash env) (lm_entries m)" "sized (le_hash env) (lm_entries m)" "queue_inv (lm_queue m)"
    "m_action m = TestMapAction"
    "(k, n) \<in> set (queue_order (lm_queue m)) \<longleftrightarrow> map_id (le_hash env) (lm_entries m) k = Some n"
    "lookup_map (le_hash env) (lm_entries m) k = Some v \<Longrightarrow> \<not> isToken (Some v)"
    "iterator (lm_queue m) (k, n) \<noteq> Singular \<Longrightarrow> n < map_next (le_hash env) (lm_entries m) k"
    "m_validEntries m = of_nat (length (queue_order (lm_queue m)))"
  using assms unfolding lru_inv_def by (simp_all del: isToken.simps)

lemma sized_update:
  assumes "map_inv h M" "sized h M" "lookup_map h M' = (lookup_map h M)(k := w)"
    and "m_size M' = m_size M + (of_bool (w \<noteq> None) - of_bool (lookup_map h M k \<noteq> None))"
  shows "sized h M'"
  using assms card_dom_update[OF finite_lookup_map[OF assms(1)], of k w] by (simp add: sized_def)

text \<open>Taking a key out of the map and its object out of the queue.\<close>

lemma lru_inv_del:
  assumes inv: "lru_inv env m" and n: "map_id (le_hash env) (lm_entries m) k = Some n"
    and run: "on_segment (le_hash env) k (remove_seg senv d k uc tag ar) (lm_entries m) = Inr (r0, M1)"
    and ok: "r_err r0 = GF_NOERR"
    and m': "lm_entries m' = add_size (-1) M1" "queue_inv (lm_queue m')"
      "queue_order (lm_queue m') = remove1 (k, n) (queue_order (lm_queue m))"
      "iterator (lm_queue m') = (iterator (lm_queue m))((k, n) := End)"
      "m_validEntries m' = m_validEntries m - 1" "m_action m' = m_action m"
  shows "lru_inv env m'" "lookup_map (le_hash env) (lm_entries m') = (lookup_map (le_hash env) (lm_entries m))(k := None)"
proof -
  note I = lru_invD[OF inv]
  note sg = on_segment_remove[OF I(1) run ok n]
  have live: "lookup_map (le_hash env) (lm_entries m) k \<noteq> None" using map_id_lookup[OF I(1), of k] n by simp
  have mem: "(k, n) \<in> set (queue_order (lm_queue m))" using n I(5) by simp
  have d: "distinct (queue_order (lm_queue m))" by (rule queue_order_distinct[OF I(3)])
  show look: "lookup_map (le_hash env) (lm_entries m') = (lookup_map (le_hash env) (lm_entries m))(k := None)"
    by (simp add: m'(1) sg(2))
  have "sized (le_hash env) (lm_entries m')"
    by (rule sized_update[OF I(1,2) look]) (use live in \<open>simp add: m'(1) sg(3)\<close>)
  moreover have "(k', n') \<in> set (queue_order (lm_queue m')) \<longleftrightarrow> map_id (le_hash env) (lm_entries m') k' = Some n'" for k' n'
    using d I(5) n by (auto simp: m'(1,3) sg(4))
  moreover have "n' < map_next (le_hash env) (lm_entries m') k'" if "iterator (lm_queue m') (k', n') \<noteq> Singular" for k' n'
  proof -
    have "n' < map_next (le_hash env) (lm_entries m) k'"
    proof (cases "(k', n') = (k, n)")
      case True
      have "iterator (lm_queue m) (k, n) \<noteq> Singular" using in_order_iterator[OF I(3), of "(k, n)"] mem by auto
      with True I(7) show ?thesis by blast
    next
      case False
      with that I(7)[of k' n'] show ?thesis unfolding m'(4) by auto
    qed
    with sg(5) show ?thesis by (simp add: m'(1)) (meson less_le_trans)
  qed
  moreover have "m_validEntries m' = of_nat (length (queue_order (lm_queue m')))"
  proof -
    from mem obtain j where "length (queue_order (lm_queue m)) = Suc j" by (cases "queue_order (lm_queue m)") auto
    with mem I(8) show ?thesis by (simp add: m'(3,5) length_remove1)
  qed
  moreover have "\<not> isToken (Some v)" if "lookup_map (le_hash env) (lm_entries m') k' = Some v" for k' v
    using that I(6)[of k' v] look by (cases "k' = k") (simp_all del: isToken.simps)
  ultimately show "lru_inv env m'"
    unfolding lru_inv_def using m'(2,6) I(4) sg(1) by (simp add: m'(1) del: isToken.simps)
qed

lemma remove_lru_keeps:
  assumes inv: "lru_inv env m" and n: "map_id (le_hash env) (lm_entries m) k = Some n"
    and run: "on_segment (le_hash env) k (remove_seg (le_seg env) (sint (m_numDestroyTrackers (lm_entries m))) k uc tag ar)
      (lm_entries m) = Inr (r0, M1)" and ok: "r_err r0 = GF_NOERR"
  shows "\<exists>r m'. remove_lru env k uc tag ar m = Inr (r, m') \<and> r_err r = GF_NOERR \<and> lru_inv env m' \<and>
    queue_order (lm_queue m') = remove1 (k, n) (queue_order (lm_queue m)) \<and>
    lookup_map (le_hash env) (lm_entries m') = (lookup_map (le_hash env) (lm_entries m))(k := None)"
proof -
  note I = lru_invD[OF inv]
  obtain v where v: "lookup_map (le_hash env) (lm_entries m) k = Some v"
    using map_id_lookup[OF I(1), of k] n by fastforce
  have it: "iterator (lm_queue m) (k, n) \<noteq> Singular"
    using in_order_iterator[OF I(3), of "(k, n)"] I(5)[of k n] n by auto
  obtain r m' where m': "remove_lru env k uc tag ar m = Inr (r, m')" "r_err r = GF_NOERR"
    "lm_entries m' = add_size (-1) M1" "queue_inv (lm_queue m')"
    "queue_order (lm_queue m') = remove1 (k, n) (queue_order (lm_queue m))"
    "iterator (lm_queue m') = (iterator (lm_queue m))((k, n) := End)"
    "m_validEntries m' = m_validEntries m - 1" "m_action m' = m_action m"
    using remove_lru_live[OF I(1) n I(3) it v I(6)[OF v] run ok] by blast
  from lru_inv_del[OF inv n run ok m'(3-8)] m' show ?thesis by blast
qed

lemma remove_untagged_on_segment:
  assumes inv: "map_inv h M" and n: "map_id h M k = Some n"
  shows "\<exists>r M1. on_segment h k (remove_seg senv d k uc None ar) M = Inr (r, M1) \<and> r_err r = GF_NOERR"
proof -
  note at = segmentFor_inv[OF inv, of k]
  have "lookup_seg k (m_segments M ! segmentIdx h k M) \<noteq> None"
    using map_id_lookup[OF inv, of k] n by (simp add: lookup_map_inv[OF inv])
  from remove_seg_untagged[OF at(3) this, of senv d uc ar] at(2) show ?thesis
    by (auto simp: on_segment_def)
qed

text \<open>One eviction takes the key at the head of the queue out of the map.\<close>

lemma evictionHelper_keeps:
  assumes inv: "lru_inv env m" and head: "queue_order (lm_queue m) = (k, n) # es"
  shows "\<exists>m'. evictionHelper env m = Inr (GF_NOERR, m') \<and> lru_inv env m' \<and> queue_order (lm_queue m') = es \<and>
    lookup_map (le_hash env) (lm_entries m') = (lookup_map (le_hash env) (lm_entries m))(k := None) \<and>
    m_limit m' = m_limit m \<and> m_heapLRUEnabled m' = m_heapLRUEnabled m"
proof -
  note I = lru_invD[OF inv]
  have n: "map_id (le_hash env) (lm_entries m) k = Some n" using I(5)[of k n] head by simp
  obtain v where v: "lookup_map (le_hash env) (lm_entries m) k = Some v"
    using map_id_lookup[OF I(1), of k] n by fastforce
  obtain q where q: "pop (lm_queue m) = (Some (k, n), q)" "queue_inv q" "queue_order q = es"
    "iterator q = (iterator (lm_queue m))((k, n) := End)"
    using pop_spec[OF I(3) head] by blast
  let ?m = "m\<lparr>lm_queue := q\<rparr>"
  obtain r0 M1 where run: "on_segment (le_hash env) k
      (remove_seg (le_seg env) (sint (m_numDestroyTrackers (lm_entries m))) k 0 None False) (lm_entries m) = Inr (r0, M1)"
    "r_err r0 = GF_NOERR"
    using remove_untagged_on_segment[OF I(1) n] by blast
  have es: "(k, n) \<notin> set es" using queue_order_distinct[OF I(3)] head by simp
  obtain r m' where m': "remove_lru env k 0 None False ?m = Inr (r, m')" "r_err r = GF_NOERR"
    "lm_entries m' = add_size (-1) M1" "queue_inv (lm_queue m')" "queue_order (lm_queue m') = es"
    "iterator (lm_queue m') = (iterator (lm_queue m))((k, n) := End)"
    "m_validEntries m' = m_validEntries m - 1" "m_action m' = m_action m" "m_limit m' = m_limit m"
    "m_heapLRUEnabled m' = m_heapLRUEnabled m"
    using remove_lru_live[of env ?m k n v 0 None False r0 M1] I(1) n q v I(6)[OF v] run es
    by (auto simp: remove1_idem simp del: isToken.simps)
  have "evictionHelper env m = Inr (GF_NOERR, m')"
    using m'(1,2,8) I(4) q(1) by (simp add: evictionHelper_def evict_def evict_test_def overflows_def)
  moreover have "queue_order (lm_queue m') = remove1 (k, n) (queue_order (lm_queue m))" using m'(5) head by simp
  ultimately show ?thesis using lru_inv_del[OF inv n run m'(3,4) _ m'(6-8)] m'(5,9,10) by blast
qed

text \<open>The eviction loop: it never fails, and it takes from the head of the queue what is over the limit.\<close>

definition surplus :: "('k, 'v, 'p, 'd) lru_map \<Rightarrow> nat \<Rightarrow> nat" where
  "surplus m n = (if m_heapLRUEnabled m \<and> m_limit m = 0 then 0 else n - unat (m_limit m))"

lemma mustEvict_surplus:
  assumes inv: "lru_inv env m" and small: "length (queue_order (lm_queue m)) < 2 ^ 32"
  shows "mustEvict m \<longleftrightarrow> 0 < surplus m (length (queue_order (lm_queue m)))"
  using lru_inv_keys(3)[OF inv] lru_invD(4)[OF inv] small
  by (auto simp: mustEvict_def overflows_def surplus_def size_map_def word_less_nat_alt unat_of_nat)

lemma processLRU_keeps:
  assumes "lru_inv env m" and "length (queue_order (lm_queue m)) < 2 ^ 32"
    and "j = surplus m (length (queue_order (lm_queue m)))"
  shows "\<exists>m'. processLRU env m = Inr (GF_NOERR, m') \<and> lru_inv env m' \<and> \<not> mustEvict m' \<and> surplus m' = surplus m \<and>
    queue_order (lm_queue m') = drop j (queue_order (lm_queue m)) \<and>
    lookup_map (le_hash env) (lm_entries m') =
      (lookup_map (le_hash env) (lm_entries m)) |` (- (fst ` set (take j (queue_order (lm_queue m)))))"
  using assms
proof (induction j arbitrary: m)
  case 0
  then have "\<not> mustEvict m" using mustEvict_surplus[OF 0(1,2)] by simp
  with 0 show ?case by (subst processLRU.simps) (simp add: restrict_map_def)
next
  case (Suc j)
  then have must: "mustEvict m" using mustEvict_surplus[OF Suc(2,3)] by simp
  from Suc(4) obtain k n es where head: "queue_order (lm_queue m) = (k, n) # es"
    by (cases "queue_order (lm_queue m)") (auto simp: surplus_def split: if_splits)
  obtain m1 where m1: "evictionHelper env m = Inr (GF_NOERR, m1)" "lru_inv env m1" "queue_order (lm_queue m1) = es"
    "lookup_map (le_hash env) (lm_entries m1) = (lookup_map (le_hash env) (lm_entries m))(k := None)"
    "m_limit m1 = m_limit m" "m_heapLRUEnabled m1 = m_heapLRUEnabled m"
    using evictionHelper_keeps[OF Suc(2) head] by blast
  have same: "surplus m1 = surplus m" by (rule ext) (simp add: surplus_def m1(5,6))
  have "j = surplus m1 (length (queue_order (lm_queue m1)))"
    using Suc(4) head m1(3,5,6) by (auto simp: surplus_def split: if_splits)
  from Suc.IH[OF m1(2) _ this] Suc(3) head m1(3) obtain m' where
    "processLRU env m1 = Inr (GF_NOERR, m')" "lru_inv env m'" "\<not> mustEvict m'" "surplus m' = surplus m1"
    "queue_order (lm_queue m') = drop j es"
    "lookup_map (le_hash env) (lm_entries m') = (lookup_map (le_hash env) (lm_entries m1)) |` (- (fst ` set (take j es)))"
    by auto
  with must m1(1,4) head same show ?case
    by (subst processLRU.simps) (auto simp: restrict_map_def fun_eq_iff)
qed

section \<open>Updates keep the invariant\<close>

text \<open>The effect of a successful update on the segments, for a key that is stored and one that is not.\<close>

lemma on_segment_put:
  assumes inv: "map_inv h M" and run: "on_segment h k (put_seg senv d k v uc dt tag None) M = Inr (r, M')"
    and v: "storable v"
  shows "r_newValue r = v" "m_size M' = m_size M" "map_inv h M'" "\<forall>k'. map_next h M k' \<le> map_next h M' k'"
    "lookup_map h M' = (lookup_map h M)(k := (if r_err r = GF_NOERR then v else lookup_map h M k))"
    "r_err r \<noteq> GF_NOERR \<Longrightarrow> map_id h M' = map_id h M"
    "r_err r = GF_NOERR \<Longrightarrow> r_flag r = (map_id h M k \<noteq> None) \<and> r_oldValue r = lookup_map h M k"
    "r_err r = GF_NOERR \<Longrightarrow> map_id h M k \<noteq> None \<Longrightarrow> map_id h M' = map_id h M"
    "r_err r = GF_NOERR \<Longrightarrow> map_id h M k = None \<Longrightarrow>
      \<exists>n. map_id h M' = (map_id h M)(k \<mapsto> n) \<and> map_next h M k \<le> n \<and> n < map_next h M' k"
proof -
  let ?s = "m_segments M ! segmentIdx h k M"
  note at = segmentFor_inv[OF inv, of k]
  from run at obtain s' where s': "put_seg senv d k v uc dt tag None ?s = Inr (r, s')"
    by (auto simp: on_segment_def andThen_Inr_conv)
  show "r_newValue r = v" by (rule put_seg_renews(1)[OF at(3) v s'])
  have eff: "map_inv h M' \<and> lookup_map h M' = (lookup_map h M)(k := (if r_err r = GF_NOERR then v else lookup_map h M k))
      \<and> m_size M' = m_size M"
    by (rule on_segment_effect[OF inv run]) (use put_seg_effect[OF _ v] lookup_map_inv[OF inv, of k] in \<open>fastforce\<close>)
  then show "m_size M' = m_size M" "map_inv h M'"
    "lookup_map h M' = (lookup_map h M)(k := (if r_err r = GF_NOERR then v else lookup_map h M k))" by simp_all
  let ?P = "\<lambda>id nx id' nx'. if r_err r = GF_NOERR
      then (case id of Some n \<Rightarrow> id' = Some n | None \<Rightarrow> \<exists>n. id' = Some n \<and> nx \<le> n \<and> n < nx') else id' = id"
  have ids: "(\<forall>k'. k' \<noteq> k \<longrightarrow> map_id h M' k' = map_id h M k') \<and> (\<forall>k'. map_next h M k' \<le> map_next h M' k') \<and>
    ?P (map_id h M k) (map_next h M k) (map_id h M' k) (map_next h M' k)"
  proof (rule on_segment_ids[OF inv run])
    fix s s1
    assume s: "s = ?s" "conc_inv s" "put_seg senv d k v uc dt tag None s = Inr (r, s1)"
    show "only_at k s s1 \<and> seg_next s \<le> seg_next s1 \<and> ?P (entry_id k s) (seg_next s) (entry_id k s1) (seg_next s1)"
      using put_seg_effect[OF s(2) v s(3)] put_seg_renews(2,3)[OF s(2) v s(3)]
      by (cases "r_err r = GF_NOERR") (simp_all add: op_effect_def renews_def)
  qed
  then show "\<forall>k'. map_next h M k' \<le> map_next h M' k'" by blast
  show "r_err r \<noteq> GF_NOERR \<Longrightarrow> map_id h M' = map_id h M" using ids by auto
  show "r_err r = GF_NOERR \<Longrightarrow> r_flag r = (map_id h M k \<noteq> None) \<and> r_oldValue r = lookup_map h M k"
    using put_seg_effect[OF at(3) v s'] map_id_lookup[OF inv, of k] by (simp add: lookup_map_inv[OF inv])
  show "r_err r = GF_NOERR \<Longrightarrow> map_id h M k \<noteq> None \<Longrightarrow> map_id h M' = map_id h M"
    using ids by (intro ext) (auto split: option.splits, metis)
  show "r_err r = GF_NOERR \<Longrightarrow> map_id h M k = None \<Longrightarrow>
      \<exists>n. map_id h M' = (map_id h M)(k \<mapsto> n) \<and> map_next h M k \<le> n \<and> n < map_next h M' k"
    using ids by (auto simp: fun_eq_iff)
qed

lemma lru_getEntry_id:
  assumes inv: "map_inv (le_hash env) (lm_entries m)" and n: "map_id (le_hash env) (lm_entries m) k = Some n"
  shows "\<exists>i v. lru_getEntry env k m = Inr (Some (i, v)) \<and> ref_of i = (k, n) \<and>
    lookup_map (le_hash env) (lm_entries m) k = Some v"
proof -
  note at = segmentFor_inv[OF inv, of k]
  let ?s = "m_segments (lm_entries m) ! segmentIdx (le_hash env) k (lm_entries m)"
  from n obtain i v where iv: "getEntry_seg k ?s = Some (i, v)" "e_id i = n"
    by (auto simp: map_id_def entry_id_def)
  have "e_key i = k"
    using at(3) iv(1) by (cases rule: conc_inv_cases[where k = k]) (auto simp: getEntry_seg_def split: option.splits if_splits)
  with iv at(2) show ?thesis
    by (auto simp: lru_getEntry_def get_map_def ref_of_def lookup_map_inv[OF inv] lookup_seg_def)
qed

text \<open>A new key comes in with a new object at the end of the queue.\<close>

lemma lru_inv_add:
  assumes inv: "lru_inv env m" and new: "map_id (le_hash env) (lm_entries m) k = None"
    and M: "map_inv (le_hash env) M1" "m_size M1 = m_size (lm_entries m)"
      "\<forall>k'. map_next (le_hash env) (lm_entries m) k' \<le> map_next (le_hash env) M1 k'"
      "lookup_map (le_hash env) M1 = (lookup_map (le_hash env) (lm_entries m))(k \<mapsto> v)"
      "map_id (le_hash env) M1 = (map_id (le_hash env) (lm_entries m))(k \<mapsto> n)"
      "map_next (le_hash env) (lm_entries m) k \<le> n" "n < map_next (le_hash env) M1 k"
    and v: "\<not> isToken (Some v)"
    and m': "lm_entries m' = add_size 1 M1" "lm_queue m' = push (k, n) (lm_queue m)"
      "m_validEntries m' = m_validEntries m + 1" "m_action m' = m_action m"
  shows "lru_inv env m'" "queue_order (lm_queue m') = queue_order (lm_queue m) @ [(k, n)]"
proof -
  note I = lru_invD[OF inv]
  have absent: "lookup_map (le_hash env) (lm_entries m) k = None" using map_id_lookup[OF I(1), of k] new by simp
  have out: "(k, n) \<notin> set (queue_order (lm_queue m))" using I(5)[of k n] new by simp
  note q = push_spec[OF I(3) out]
  show order: "queue_order (lm_queue m') = queue_order (lm_queue m) @ [(k, n)]" by (simp add: m'(2) q(2))
  have "sized (le_hash env) (lm_entries m')"
    by (rule sized_update[OF I(1,2), of _ k "Some v"]) (simp_all add: m'(1) M(2,4) absent)
  moreover have "(k', n') \<in> set (queue_order (lm_queue m')) \<longleftrightarrow> map_id (le_hash env) (lm_entries m') k' = Some n'" for k' n'
    using I(5)[of k' n'] new by (auto simp: order m'(1) M(5))
  moreover have "n' < map_next (le_hash env) (lm_entries m') k'" if "iterator (lm_queue m') (k', n') \<noteq> Singular" for k' n'
  proof (cases "(k', n') = (k, n)")
    case False
    then have "iterator (lm_queue m) (k', n') \<noteq> Singular" using that by (auto simp: m'(2) push_def)
    from I(7)[OF this] M(3) show ?thesis by (simp add: m'(1)) (meson less_le_trans)
  qed (simp add: m'(1) M(7))
  moreover have "\<not> isToken (Some w)" if "lookup_map (le_hash env) (lm_entries m') k' = Some w" for k' w
    using that I(6)[of k' w] v by (cases "k' = k") (auto simp: m'(1) M(4) simp del: isToken.simps)
  ultimately show "lru_inv env m'"
    unfolding lru_inv_def using I(4,8) q(1) M(1) m'(2-4) order by (simp add: m'(1) del: isToken.simps)
qed

text \<open>A key that is stored gets another value; its place in the queue stays.\<close>

lemma lru_inv_set:
  assumes inv: "lru_inv env m"
    and M: "map_inv (le_hash env) M1" "m_size M1 = m_size (lm_entries m)"
      "\<forall>k'. map_next (le_hash env) (lm_entries m) k' \<le> map_next (le_hash env) M1 k'"
      "lookup_map (le_hash env) M1 = (lookup_map (le_hash env) (lm_entries m))(k := w)"
      "map_id (le_hash env) M1 = map_id (le_hash env) (lm_entries m)"
    and w: "w = None \<longleftrightarrow> lookup_map (le_hash env) (lm_entries m) k = None" "\<not> isToken w"
    and m': "lm_entries m' = M1" "lm_queue m' = lm_queue m" "m_validEntries m' = m_validEntries m" "m_action m' = m_action m"
  shows "lru_inv env m'"
proof -
  note I = lru_invD[OF inv]
  have "sized (le_hash env) (lm_entries m')"
    by (rule sized_update[OF I(1,2), of _ k w]) (simp_all add: m'(1) M(2,4) w(1))
  moreover have "n' < map_next (le_hash env) (lm_entries m') k'" if "iterator (lm_queue m') (k', n') \<noteq> Singular" for k' n'
    using that I(7)[of k' n'] M(3) by (simp add: m'(1,2)) (meson less_le_trans)
  moreover have "\<not> isToken (Some x)" if "lookup_map (le_hash env) (lm_entries m') k' = Some x" for k' x
    using that I(6)[of k' x] w(2) by (cases "k' = k") (auto simp: m'(1) M(4) simp del: isToken.simps)
  ultimately show ?thesis
    unfolding lru_inv_def using I(3-5,8) M(1,5) m' by (simp del: isToken.simps)
qed

lemma put_account_update:
  assumes "r_flag r" "\<not> isToken (r_newValue r)" "r_newValue r \<noteq> None"
  shows "\<exists>r1 m'. put_account env k False old r m = Inr (r1, m') \<and> r_err r1 = r_err r \<and> lm_entries m' = lm_entries m \<and>
    lm_queue m' = lm_queue m \<and> m_validEntries m' = m_validEntries m \<and> m_action m' = m_action m \<and>
    m_limit m' = m_limit m \<and> m_heapLRUEnabled m' = m_heapLRUEnabled m"
  using assms by (auto simp: put_account_def checkAndGetObjectSize_def Let_def)

lemma lru_getEntry_counts [simp]:
  "lru_getEntry env k (add_valid d m) = lru_getEntry env k m"
  "lru_getEntry env k (lru_add_size d' m) = lru_getEntry env k m"
  by (simp_all add: lru_getEntry_def get_map_def add_size_def segmentFor_def segmentIdx_def)

lemma lru_push_same [simp]:
  "lm_queue (lru_push e m) = push e (lm_queue m)" "lm_entries (lru_push e m) = lm_entries m"
  "m_action (lru_push e m) = m_action m" "m_limit (lru_push e m) = m_limit m"
  "m_validEntries (lru_push e m) = m_validEntries m" "m_heapLRUEnabled (lru_push e m) = m_heapLRUEnabled m"
  "heap_size (lru_push e m) = heap_size m"
  by (simp_all add: lru_push_def)

lemma put_account_new:
  assumes "\<not> r_flag r" "\<not> isToken (r_newValue r)" "r_newValue r \<noteq> None" "lru_getEntry env k m = Inr (Some (i, w))"
  shows "\<exists>r1 m'. put_account env k False old r m = Inr (r1, m') \<and> r_err r1 = r_err r \<and>
    lm_entries m' = add_size 1 (lm_entries m) \<and>
    lm_queue m' = push (ref_of i) (lm_queue m) \<and> m_validEntries m' = m_validEntries m + 1 \<and> m_action m' = m_action m \<and>
    m_limit m' = m_limit m \<and> m_heapLRUEnabled m' = m_heapLRUEnabled m"
  using assms by (auto simp: put_account_def checkAndGetObjectSize_def Let_def)

text \<open>
  The keys in the order in which they are evicted. A put of a key that is stored does not
  move it: only creating and getting count as a use.
\<close>

definition lru_keys :: "('k, 'v, 'p, 'd) lru_map \<Rightarrow> 'k list" where
  "lru_keys m = map fst (queue_order (lm_queue m))"

definition with_key :: "'k \<Rightarrow> 'k list \<Rightarrow> 'k list" where
  "with_key k ks = (if k \<in> set ks then ks else ks @ [k])"

lemma lru_keys_dom: "lru_inv env m \<Longrightarrow> set (lru_keys m) = dom (lookup_map (le_hash env) (lm_entries m))"
  using lru_inv_keys(2)[of env m] by (simp add: lru_keys_def)

text \<open>After the bookkeeping of an update the loop restores the limit.\<close>

lemma processLRU_keys:
  assumes inv: "lru_inv env m" and small: "length (lru_keys m) < 2 ^ 32"
  shows "\<exists>m'. processLRU env m = Inr (GF_NOERR, m') \<and> lru_inv env m' \<and> \<not> mustEvict m' \<and> surplus m' = surplus m \<and>
    lru_keys m' = drop (surplus m (length (lru_keys m))) (lru_keys m) \<and>
    lookup_map (le_hash env) (lm_entries m') = lookup_map (le_hash env) (lm_entries m) |` set (lru_keys m')"
proof -
  let ?j = "surplus m (length (queue_order (lm_queue m)))"
  obtain m' where m': "processLRU env m = Inr (GF_NOERR, m')" "lru_inv env m'" "\<not> mustEvict m'"
    "queue_order (lm_queue m') = drop ?j (queue_order (lm_queue m))"
    "lookup_map (le_hash env) (lm_entries m') =
      (lookup_map (le_hash env) (lm_entries m)) |` (- (fst ` set (take ?j (queue_order (lm_queue m)))))"
    "surplus m' = surplus m"
    using processLRU_keeps[OF inv _ refl] small by (auto simp: lru_keys_def)
  have "lookup_map (le_hash env) (lm_entries m') = lookup_map (le_hash env) (lm_entries m) |` set (lru_keys m')"
  proof
    fix k
    have "k \<in> set (lru_keys m') \<longleftrightarrow> lookup_map (le_hash env) (lm_entries m') k \<noteq> None"
      using lru_keys_dom[OF m'(2)] by auto
    then show "lookup_map (le_hash env) (lm_entries m') k = (lookup_map (le_hash env) (lm_entries m) |` set (lru_keys m')) k"
      by (auto simp: m'(5) restrict_map_def split: if_splits)
  qed
  with m' show ?thesis by (auto simp: lru_keys_def drop_map)
qed

lemma lookup_not_token: "lru_inv env m \<Longrightarrow> \<not> isToken (lookup_map (le_hash env) (lm_entries m) k)"
  using lru_invD(6)[of env m k] by (cases "lookup_map (le_hash env) (lm_entries m) k") (simp_all del: isToken.simps(2,3))

lemma put_lru_keeps:
  assumes inv: "lru_inv env m" and small: "length (lru_keys m) < 2 ^ 32 - 1"
    and run: "on_segment (le_hash env) k (put_seg (le_seg env) (sint (m_numDestroyTrackers (lm_entries m))) k
      (Some (Obj v)) uc dt tag None) (lm_entries m) = Inr (r0, M1)" and ok: "r_err r0 = GF_NOERR"
  shows "\<exists>r m'. put_lru env k (Some (Obj v)) uc dt tag None m = Inr (r, m') \<and> r_err r = GF_NOERR \<and>
    lru_inv env m' \<and> \<not> mustEvict m' \<and> surplus m' = surplus m \<and>
    lru_keys m' = drop (surplus m (length (with_key k (lru_keys m)))) (with_key k (lru_keys m)) \<and>
    lookup_map (le_hash env) (lm_entries m') =
      ((lookup_map (le_hash env) (lm_entries m))(k \<mapsto> Obj v)) |` set (lru_keys m')"
proof -
  note I = lru_invD[OF inv]
  note sg = on_segment_put[OF I(1) run stored_tokens(4)]
  obtain m1 where m1: "lru_on_segment env k (put_seg (le_seg env) (sint (m_numDestroyTrackers (lm_entries m))) k
      (Some (Obj v)) uc dt tag None) m = Inr (r0, m1)" "lm_entries m1 = M1"
    using lru_on_segment_total[OF run] by blast
  note same = lru_on_segment_same[OF m1(1)]
  have "r_oldValue r0 = lookup_map (le_hash env) (lm_entries m) k" using sg(7)[OF ok] by simp
  then have old: "\<not> isToken (r_oldValue r0)" using lookup_not_token[OF inv] by metis
  then have disk: "old_from_disk env k (r_me r0) (r_oldValue r0) m1 = Inr (r_oldValue r0, m1)"
    by (auto simp: old_from_disk_def)
  have stored: "k \<in> set (lru_keys m) \<longleftrightarrow> map_id (le_hash env) (lm_entries m) k \<noteq> None"
    using lru_keys_dom[OF inv] map_id_lookup[OF I(1), of k] by auto
  have "\<exists>r2 m2. put_account env k False (r_oldValue r0) r0 m1 = Inr (r2, m2) \<and> lru_inv env m2 \<and>
    lru_keys m2 = with_key k (lru_keys m) \<and> m_limit m2 = m_limit m \<and> m_heapLRUEnabled m2 = m_heapLRUEnabled m \<and>
    lookup_map (le_hash env) (lm_entries m2) = (lookup_map (le_hash env) (lm_entries m))(k \<mapsto> Obj v)"
  proof (cases "map_id (le_hash env) (lm_entries m) k")
    case None
    with sg(9)[OF ok] obtain n where n: "map_id (le_hash env) M1 = (map_id (le_hash env) (lm_entries m))(k \<mapsto> n)"
      "map_next (le_hash env) (lm_entries m) k \<le> n" "n < map_next (le_hash env) M1 k" by blast
    obtain i w where i: "lru_getEntry env k m1 = Inr (Some (i, w))" "ref_of i = (k, n)"
      using lru_getEntry_id[of env m1 k n] sg(3) n(1) m1(2) by auto
    have nf: "\<not> r_flag r0" "\<not> isToken (r_newValue r0)" "r_newValue r0 \<noteq> None"
      using sg(1) sg(7)[OF ok] None by simp_all
    obtain r2 m2 where m2: "put_account env k False (r_oldValue r0) r0 m1 = Inr (r2, m2)"
      "lm_entries m2 = add_size 1 M1" "lm_queue m2 = push (k, n) (lm_queue m)"
      "m_validEntries m2 = m_validEntries m + 1" "m_action m2 = m_action m" "m_limit m2 = m_limit m"
      "m_heapLRUEnabled m2 = m_heapLRUEnabled m"
      using put_account_new[OF nf i(1), of "r_oldValue r0"] same i(2) m1(2) by auto
    from lru_inv_add[OF inv None sg(3,2,4) _ n _ m2(2-5), of "Obj v"] sg(5) ok m2 stored None show ?thesis
      by (auto simp: lru_keys_def with_key_def)
  next
    case (Some n)
    have nf: "r_flag r0" "\<not> isToken (r_newValue r0)" "r_newValue r0 \<noteq> None"
      using sg(1) sg(7)[OF ok] Some by simp_all
    obtain r2 m2 where m2: "put_account env k False (r_oldValue r0) r0 m1 = Inr (r2, m2)"
      "lm_entries m2 = M1" "lm_queue m2 = lm_queue m" "m_validEntries m2 = m_validEntries m" "m_action m2 = m_action m"
      "m_limit m2 = m_limit m" "m_heapLRUEnabled m2 = m_heapLRUEnabled m"
      using put_account_update[OF nf, of env k "r_oldValue r0" m1] same m1(2) by auto
    have "lookup_map (le_hash env) (lm_entries m) k \<noteq> None" using map_id_lookup[OF I(1), of k] Some by simp
    with lru_inv_set[OF inv sg(3,2,4) sg(5) sg(8)[OF ok] _ _ m2(2-5)] sg(5) ok m2 stored Some show ?thesis
      by (auto simp: lru_keys_def with_key_def)
  qed
  then obtain r2 m2 where m2: "put_account env k False (r_oldValue r0) r0 m1 = Inr (r2, m2)" "lru_inv env m2"
    "lru_keys m2 = with_key k (lru_keys m)" "surplus m2 = surplus m"
    "lookup_map (le_hash env) (lm_entries m2) = (lookup_map (le_hash env) (lm_entries m))(k \<mapsto> Obj v)"
    by (auto simp: surplus_def fun_eq_iff)
  have "length (lru_keys m2) < 2 ^ 32" using small by (auto simp: m2(3) with_key_def)
  from processLRU_keys[OF m2(2) this] obtain m' where m': "processLRU env m2 = Inr (GF_NOERR, m')" "lru_inv env m'"
    "\<not> mustEvict m'" "surplus m' = surplus m2" "lru_keys m' = drop (surplus m2 (length (lru_keys m2))) (lru_keys m2)"
    "lookup_map (le_hash env) (lm_entries m') = lookup_map (le_hash env) (lm_entries m2) |` set (lru_keys m')"
    by blast
  have "put_lru env k (Some (Obj v)) uc dt tag None m = Inr (r2\<lparr>r_err := GF_NOERR\<rparr>, m')"
    using m2(1) m1(1) ok disk old m'(1) by (simp add: put_lru_def)
  moreover have "r_err (r2\<lparr>r_err := GF_NOERR\<rparr>) = GF_NOERR" by simp
  ultimately show ?thesis using m' unfolding m2(3-5) by blast
qed

lemma on_segment_create:
  assumes inv: "map_inv h M" and run: "on_segment h k (create_seg senv d k v uc dt tag) M = Inr (r, M')"
    and v: "storable v" and ok: "r_err r = GF_NOERR"
  shows "m_size M' = m_size M" "map_inv h M'" "\<forall>k'. map_next h M k' \<le> map_next h M' k'"
    "lookup_map h M' = (lookup_map h M)(k := v)" "map_id h M k = None" "r_oldValue r = None"
    "\<exists>n. map_id h M' = (map_id h M)(k \<mapsto> n) \<and> map_next h M k \<le> n \<and> n < map_next h M' k"
proof -
  let ?s = "m_segments M ! segmentIdx h k M"
  note at = segmentFor_inv[OF inv, of k]
  from run at obtain s' where s': "create_seg senv d k v uc dt tag ?s = Inr (r, s')"
    by (auto simp: on_segment_def andThen_Inr_conv)
  have "map_inv h M' \<and> lookup_map h M' = (lookup_map h M)(k := v) \<and> m_size M' = m_size M"
    by (rule on_segment_effect[OF inv run]) (use create_seg_effect[OF _ v] ok in \<open>fastforce\<close>)
  then show "m_size M' = m_size M" "map_inv h M'" "lookup_map h M' = (lookup_map h M)(k := v)" by simp_all
  show old: "r_oldValue r = None" using create_seg_effect[OF at(3) v s'] ok by simp
  show none: "map_id h M k = None" using create_seg_renews(1)[OF at(3) v s' ok] by (simp add: map_id_def)
  let ?P = "\<lambda>id nx id' nx'. \<exists>n. id' = Some n \<and> nx \<le> n \<and> n < nx'"
  have ids: "(\<forall>k'. k' \<noteq> k \<longrightarrow> map_id h M' k' = map_id h M k') \<and> (\<forall>k'. map_next h M k' \<le> map_next h M' k') \<and>
    ?P (map_id h M k) (map_next h M k) (map_id h M' k) (map_next h M' k)"
  proof (rule on_segment_ids[OF inv run])
    fix s s1
    assume s: "s = ?s" "conc_inv s" "create_seg senv d k v uc dt tag s = Inr (r, s1)"
    show "only_at k s s1 \<and> seg_next s \<le> seg_next s1 \<and> ?P (entry_id k s) (seg_next s) (entry_id k s1) (seg_next s1)"
      using create_seg_effect[OF s(2) v s(3)] create_seg_renews(1)[OF s(2) v s(3) ok]
      by (auto simp: op_effect_def renews_def)
  qed
  then show "\<forall>k'. map_next h M k' \<le> map_next h M' k'" by blast
  show "\<exists>n. map_id h M' = (map_id h M)(k \<mapsto> n) \<and> map_next h M k \<le> n \<and> n < map_next h M' k"
    using ids none by (auto simp: fun_eq_iff)
qed

lemma create_lru_keeps:
  assumes inv: "lru_inv env m" and small: "length (lru_keys m) < 2 ^ 32 - 1"
    and run: "on_segment (le_hash env) k (create_seg (le_seg env) (sint (m_numDestroyTrackers (lm_entries m))) k
      (Some (Obj v)) uc dt tag) (lm_entries m) = Inr (r0, M1)" and ok: "r_err r0 = GF_NOERR"
  shows "\<exists>r m'. create_lru env k (Some (Obj v)) uc dt tag m = Inr (r, m') \<and> r_err r = GF_NOERR \<and>
    lru_inv env m' \<and> \<not> mustEvict m' \<and> surplus m' = surplus m \<and> k \<notin> set (lru_keys m) \<and>
    lru_keys m' = drop (surplus m (length (lru_keys m @ [k]))) (lru_keys m @ [k]) \<and>
    lookup_map (le_hash env) (lm_entries m') =
      ((lookup_map (le_hash env) (lm_entries m))(k \<mapsto> Obj v)) |` set (lru_keys m')"
proof -
  note I = lru_invD[OF inv]
  note sg = on_segment_create[OF I(1) run stored_tokens(4) ok]
  obtain m1 where m1: "lru_on_segment env k (create_seg (le_seg env) (sint (m_numDestroyTrackers (lm_entries m))) k
      (Some (Obj v)) uc dt tag) m = Inr (r0, m1)" "lm_entries m1 = M1"
    using lru_on_segment_total[OF run] by blast
  note same = lru_on_segment_same[OF m1(1)]
  obtain n where n: "map_id (le_hash env) M1 = (map_id (le_hash env) (lm_entries m))(k \<mapsto> n)"
    "map_next (le_hash env) (lm_entries m) k \<le> n" "n < map_next (le_hash env) M1 k" using sg(7) by blast
  obtain i w where i: "lru_getEntry env k m1 = Inr (Some (i, w))" "ref_of i = (k, n)"
    using lru_getEntry_id[of env m1 k n] sg(2) n(1) m1(2) by auto
  define m4 where "m4 = lru_push (k, n) (lru_add_size 1 (add_valid 1 m1))"
  define m5 where "m5 = (if heap_size m4 = None then m4
    else updateMapSize (objectSize_obj env v + objectSize_key env k - sizeof_ptr) m4)"
  have m5: "lm_entries m5 = add_size 1 M1" "lm_queue m5 = push (k, n) (lm_queue m)"
    "m_validEntries m5 = m_validEntries m + 1" "m_action m5 = m_action m" "surplus m5 = surplus m"
    using same m1(2) by (auto simp: m5_def m4_def surplus_def fun_eq_iff)
  from lru_inv_add[OF inv sg(5,2,1,3) sg(4) n _ m5(1-4)]
  have inv5: "lru_inv env m5" and keys: "lru_keys m5 = lru_keys m @ [k]" by (simp_all add: lru_keys_def)
  have "length (lru_keys m5) < 2 ^ 32" using small by (simp add: keys)
  from processLRU_keys[OF inv5 this] obtain m' where m': "processLRU env m5 = Inr (GF_NOERR, m')" "lru_inv env m'"
    "\<not> mustEvict m'" "surplus m' = surplus m5" "lru_keys m' = drop (surplus m5 (length (lru_keys m5))) (lru_keys m5)"
    "lookup_map (le_hash env) (lm_entries m') = lookup_map (le_hash env) (lm_entries m5) |` set (lru_keys m')"
    by blast
  have "create_lru env k (Some (Obj v)) uc dt tag m = Inr (r0\<lparr>r_me := Some i, r_err := GF_NOERR\<rparr>, m')"
    using m1(1) ok i sg(6) m'(1) same(6)
    by (cases "heap_size m")
      (simp_all add: create_lru_def Let_def checkAndGetObjectSize_def size_or_pointer_def m5_def m4_def)
  moreover have "k \<notin> set (lru_keys m)" using lru_keys_dom[OF inv] map_id_lookup[OF I(1), of k] sg(5) by auto
  moreover have "lookup_map (le_hash env) (lm_entries m5) = (lookup_map (le_hash env) (lm_entries m))(k \<mapsto> Obj v)"
    by (simp add: m5(1) sg(4))
  moreover have "r_err (r0\<lparr>r_me := Some i, r_err := GF_NOERR\<rparr>) = GF_NOERR" by simp
  ultimately show ?thesis using m' unfolding keys m5(5) by metis
qed

lemma map_fst_remove1:
  "distinct (map fst xs) \<Longrightarrow> (k, n) \<in> set xs \<Longrightarrow> map fst (remove1 (k, n) xs) = remove1 k (map fst xs)"
  by (induction xs) force+

text \<open>A get hands out the value of a stored key and makes it the last to be evicted.\<close>

lemma get_lru_keeps:
  assumes inv: "lru_inv env m"
  shows "\<exists>m'. get_lru env k m = Inr (k \<in> set (lru_keys m), lookup_map (le_hash env) (lm_entries m) k, m') \<and>
    lru_inv env m' \<and> surplus m' = surplus m \<and> lm_entries m' = lm_entries m \<and>
    lru_keys m' = (if k \<in> set (lru_keys m) then remove1 k (lru_keys m) @ [k] else lru_keys m)"
proof -
  note I = lru_invD[OF inv]
  have stored: "k \<in> set (lru_keys m) \<longleftrightarrow> map_id (le_hash env) (lm_entries m) k \<noteq> None"
    using lru_keys_dom[OF inv] map_id_lookup[OF I(1), of k] by auto
  show ?thesis
  proof (cases "map_id (le_hash env) (lm_entries m) k")
    case None
    then have "lookup_map (le_hash env) (lm_entries m) k = None" using map_id_lookup[OF I(1), of k] by simp
    with None stored inv segmentFor_inv(2)[OF I(1), of k] show ?thesis
      by (auto simp: get_lru_def lru_getEntry_def get_map_def lookup_map_def lookup_seg_def)
  next
    case (Some n)
    obtain i v where i: "lru_getEntry env k m = Inr (Some (i, v))" "ref_of i = (k, n)"
      "lookup_map (le_hash env) (lm_entries m) k = Some v"
      using lru_getEntry_id[OF I(1) Some] by blast
    have mem: "(k, n) \<in> set (queue_order (lm_queue m))" using I(5)[of k n] Some by simp
    obtain q where q: "move_to_end (k, n) (lm_queue m) = Inr q" "queue_inv q"
      "queue_order q = remove1 (k, n) (queue_order (lm_queue m)) @ [(k, n)]" "iterator q = iterator (lm_queue m)"
      using move_to_end_spec[OF I(3) mem] by blast
    let ?m = "m\<lparr>lm_queue := q\<rparr>"
    have "v \<noteq> OverflowedToken" using I(6)[OF i(3)] by auto
    then have "get_lru env k m = Inr (True, Some v, ?m)" using i q(1) by (simp add: get_lru_def)
    moreover have "length (queue_order q) = length (queue_order (lm_queue m))"
      using mem by (cases "queue_order (lm_queue m)") (auto simp: q(3) length_remove1 dest: length_pos_if_in_set)
    with I mem q(2-4) queue_order_distinct[OF I(3)] have "lru_inv env ?m"
      unfolding lru_inv_def by (auto simp del: isToken.simps)
    moreover have "map fst (remove1 (k, n) (queue_order (lm_queue m))) = remove1 k (lru_keys m)"
      using lru_inv_keys(1)[OF inv] mem by (simp add: lru_keys_def map_fst_remove1)
    ultimately show ?thesis using Some stored i(3) q(3) by (auto simp: lru_keys_def surplus_def)
  qed
qed

end
