(* ===== verification/LRU_Eviction.thy ===== *)
theory LRU_Eviction
  imports LRU_Map
begin

text \<open>
  What the evicting entry map promises its region: the limit holds after every operation,
  the keys that go are the ones that were not used for longest, and no operation on a map
  of values runs into the undefined cases of the queue. Invalidated entries and a cleared
  map break the link between the map and its queue; the last section shows how.
\<close>

section \<open>Operations that fail\<close>

text \<open>A segment operation that leaves the values and the objects alone keeps the invariant.\<close>

lemma lru_inv_same:
  assumes inv: "lru_inv env m"
    and M: "map_inv (le_hash env) (lm_entries m')" "m_size (lm_entries m') = m_size (lm_entries m)"
      "\<forall>k. map_next (le_hash env) (lm_entries m) k \<le> map_next (le_hash env) (lm_entries m') k"
      "lookup_map (le_hash env) (lm_entries m') = lookup_map (le_hash env) (lm_entries m)"
      "map_id (le_hash env) (lm_entries m') = map_id (le_hash env) (lm_entries m)"
    and m': "lm_queue m' = lm_queue m" "m_validEntries m' = m_validEntries m" "m_action m' = m_action m"
  shows "lru_inv env m'"
proof -
  note I = lru_invD[OF inv]
  have "sized (le_hash env) (lm_entries m')" using I(2) by (simp add: sized_def M(2,4))
  moreover have "n < map_next (le_hash env) (lm_entries m') k" if "iterator (lm_queue m') (k, n) \<noteq> Singular" for k n
    using that I(7)[of k n] M(3) by (simp add: m'(1)) (meson less_le_trans)
  ultimately show ?thesis
    unfolding lru_inv_def using I(3-6,8) M(1) by (auto simp: M(4,5) m' simp del: isToken.simps)
qed

lemma surplus_same: "m_limit m' = m_limit m \<Longrightarrow> m_heapLRUEnabled m' = m_heapLRUEnabled m \<Longrightarrow> surplus m' = surplus m"
  by (rule ext) (simp add: surplus_def)

lemma remove_lru_surplus:
  assumes "remove_lru env k uc tag ar m = Inr (r, m')"
  shows "surplus m' = surplus m"
  using assms
proof (cases rule: remove_lru_cases)
  case same
  then show ?thesis by (intro surplus_same lru_on_segment_same)
next
  case (removed r1 m1 v i)
  then show ?thesis
    using remove_account_Inr(5,6)[OF removed(5)] lru_on_segment_same(3,5)[OF removed(1)] by (intro surplus_same) simp_all
qed

lemma put_lru_fails:
  assumes inv: "lru_inv env m" and res: "put_lru env k (Some (Obj v)) uc dt tag None m = Inr (r, m')"
    and run: "on_segment (le_hash env) k (put_seg (le_seg env) (sint (m_numDestroyTrackers (lm_entries m))) k
      (Some (Obj v)) uc dt tag None) (lm_entries m) = Inr (r0, M1)" and err: "r_err r0 \<noteq> GF_NOERR"
  shows "lru_inv env m' \<and> r = r0 \<and> surplus m' = surplus m \<and> lru_keys m' = lru_keys m \<and>
    lookup_map (le_hash env) (lm_entries m') = lookup_map (le_hash env) (lm_entries m)"
proof -
  note I = lru_invD[OF inv]
  note sg = on_segment_put[OF I(1) run stored_tokens(4)]
  obtain m1 where m1: "lru_on_segment env k (put_seg (le_seg env) (sint (m_numDestroyTrackers (lm_entries m))) k
      (Some (Obj v)) uc dt tag None) m = Inr (r0, m1)" "lm_entries m1 = M1"
    using lru_on_segment_total[OF run] by blast
  note same = lru_on_segment_same[OF m1(1)]
  have "r = r0" "m' = m1" using res m1(1) err by (simp_all add: put_lru_def)
  moreover have "lookup_map (le_hash env) M1 = lookup_map (le_hash env) (lm_entries m)" using sg(5) err by simp
  moreover from this have "lru_inv env m1"
    by (intro lru_inv_same[OF inv]) (simp_all add: m1(2) sg(2-4) sg(6)[OF err] same)
  ultimately show ?thesis using surplus_same[OF same(3,5)] by (simp add: m1(2) lru_keys_def same(1))
qed

lemma on_segment_unchanged:
  assumes inv: "map_inv h M" and run: "on_segment h k op M = Inr (r, M')"
    and eff: "\<And>s s'. \<lbrakk>s = m_segments M ! segmentIdx h k M; conc_inv s; op s = Inr (r, s')\<rbrakk> \<Longrightarrow>
      op_effect k s s' (lookup_seg k s) \<and> seg_next s \<le> seg_next s' \<and> entry_id k s' = entry_id k s"
  shows "map_inv h M'" "lookup_map h M' = lookup_map h M" "m_size M' = m_size M" "map_id h M' = map_id h M"
    "\<forall>k'. map_next h M k' \<le> map_next h M' k'"
proof -
  have "map_inv h M' \<and> lookup_map h M' = (lookup_map h M)(k := lookup_map h M k) \<and> m_size M' = m_size M"
  proof (rule on_segment_effect[OF inv run])
    fix s s'
    assume s: "s = m_segments M ! segmentIdx h k M" "conc_inv s" "op s = Inr (r, s')"
    show "op_effect k s s' (lookup_map h M k)" using eff[OF s] by (simp add: lookup_map_inv[OF inv] s(1))
  qed
  then show "map_inv h M'" "lookup_map h M' = lookup_map h M" "m_size M' = m_size M" by simp_all
  have ids: "(\<forall>k'. k' \<noteq> k \<longrightarrow> map_id h M' k' = map_id h M k') \<and> (\<forall>k'. map_next h M k' \<le> map_next h M' k') \<and>
    map_id h M' k = map_id h M k"
  proof (rule on_segment_ids[OF inv run])
    fix s s'
    assume s: "s = m_segments M ! segmentIdx h k M" "conc_inv s" "op s = Inr (r, s')"
    show "only_at k s s' \<and> seg_next s \<le> seg_next s' \<and> entry_id k s' = entry_id k s"
      using eff[OF s] by (simp add: op_effect_def)
  qed
  then show "map_id h M' = map_id h M" by (intro ext) metis
  from ids show "\<forall>k'. map_next h M k' \<le> map_next h M' k'" by blast
qed

lemma create_lru_fails:
  assumes inv: "lru_inv env m" and res: "create_lru env k (Some (Obj v)) uc dt tag m = Inr (r, m')"
    and run: "on_segment (le_hash env) k (create_seg (le_seg env) (sint (m_numDestroyTrackers (lm_entries m))) k
      (Some (Obj v)) uc dt tag) (lm_entries m) = Inr (r0, M1)" and err: "r_err r0 \<noteq> GF_NOERR"
  shows "lru_inv env m' \<and> surplus m' = surplus m \<and> lru_keys m' = lru_keys m"
proof -
  note I = lru_invD[OF inv]
  have eff: "op_effect k s s' (lookup_seg k s) \<and> seg_next s \<le> seg_next s' \<and> entry_id k s' = entry_id k s"
    if "conc_inv s" "create_seg (le_seg env) (sint (m_numDestroyTrackers (lm_entries m))) k (Some (Obj v)) uc dt tag s = Inr (r0, s')" for s s'
    using create_seg_effect[OF that(1) stored_tokens(4) that(2)] create_seg_renews(2)[OF that(1) stored_tokens(4) that(2) err] err
    by simp
  have sg: "map_inv (le_hash env) M1" "lookup_map (le_hash env) M1 = lookup_map (le_hash env) (lm_entries m)"
    "m_size M1 = m_size (lm_entries m)" "map_id (le_hash env) M1 = map_id (le_hash env) (lm_entries m)"
    "\<forall>k'. map_next (le_hash env) (lm_entries m) k' \<le> map_next (le_hash env) M1 k'"
    by (rule on_segment_unchanged[OF I(1) run]; use eff in blast)+
  obtain m1 where m1: "lru_on_segment env k (create_seg (le_seg env) (sint (m_numDestroyTrackers (lm_entries m))) k
      (Some (Obj v)) uc dt tag) m = Inr (r0, m1)" "lm_entries m1 = M1"
    using lru_on_segment_total[OF run] by blast
  note same = lru_on_segment_same[OF m1(1)]
  have "m' = m1" using res m1(1) err by (simp add: create_lru_def)
  moreover have "lru_inv env m1"
    by (intro lru_inv_same[OF inv]) (simp_all add: m1(2) sg same)
  ultimately show ?thesis using surplus_same[OF same(3,5)] by (simp add: lru_keys_def same(1))
qed

text \<open>A removal that finds nothing, or is refused, may leave a tombstone but no other trace.\<close>

lemma remove_lru_absent:
  assumes inv: "lru_inv env m" and res: "remove_lru env k uc tag ar m = Inr (r, m')"
    and run: "on_segment (le_hash env) k (remove_seg (le_seg env) (sint (m_numDestroyTrackers (lm_entries m))) k
      uc tag ar) (lm_entries m) = Inr (r0, M1)"
    and no: "r_err r0 \<noteq> GF_NOERR \<or> map_id (le_hash env) (lm_entries m) k = None"
  shows "lru_inv env m' \<and> surplus m' = surplus m \<and> lru_keys m' = lru_keys m"
proof -
  note I = lru_invD[OF inv]
  let ?s = "m_segments (lm_entries m) ! segmentIdx (le_hash env) k (lm_entries m)"
  note at = segmentFor_inv[OF I(1), of k]
  have none: "map_id (le_hash env) (lm_entries m) k = None \<longleftrightarrow> lookup_seg k ?s = None"
    using map_id_lookup[OF I(1), of k] lookup_map_inv[OF I(1), of k] by simp
  have eff: "op_effect k ?s s' (lookup_seg k ?s) \<and> seg_next ?s \<le> seg_next s' \<and> entry_id k s' = entry_id k ?s"
    if s': "remove_seg (le_seg env) (sint (m_numDestroyTrackers (lm_entries m))) k uc tag ar ?s = Inr (r0, s')" for s'
  proof -
    note e = remove_seg_effect[OF at(3) s'] and o = remove_seg_object[OF at(3) s']
    have id: "entry_id k t = None \<longleftrightarrow> lookup_seg k t = None" for t :: "('a, 'b) segment"
      by (simp add: entry_id_def lookup_seg_def)
    show ?thesis
    proof (cases "r_err r0 = GF_NOERR")
      case True
      with no none have "lookup_seg k ?s = None" by simp
      moreover have "lookup_seg k s' = None" using True e by (simp add: op_effect_def)
      ultimately show ?thesis using True e o(1) id[of ?s] id[of s'] by simp
    qed (use e o in auto)
  qed
  have sg: "map_inv (le_hash env) M1" "lookup_map (le_hash env) M1 = lookup_map (le_hash env) (lm_entries m)"
    "m_size M1 = m_size (lm_entries m)" "map_id (le_hash env) M1 = map_id (le_hash env) (lm_entries m)"
    "\<forall>k'. map_next (le_hash env) (lm_entries m) k' \<le> map_next (le_hash env) M1 k'"
    by (rule on_segment_unchanged[OF I(1) run]; use eff in blast)+
  obtain m1 where m1: "lru_on_segment env k (remove_seg (le_seg env) (sint (m_numDestroyTrackers (lm_entries m))) k
      uc tag ar) m = Inr (r0, m1)" "lm_entries m1 = M1"
    using lru_on_segment_total[OF run] by blast
  note same = lru_on_segment_same[OF m1(1)]
  from run at obtain s' where s': "remove_seg (le_seg env) (sint (m_numDestroyTrackers (lm_entries m))) k uc tag ar ?s = Inr (r0, s')"
    by (auto simp: on_segment_def andThen_Inr_conv)
  have "r_err r0 \<noteq> GF_NOERR \<or> r_oldValue r0 = None"
    using no none remove_seg_effect[OF at(3) s'] by auto
  then have "m' = m1" using res m1(1) by (auto simp: remove_lru_def split: if_splits option.splits)
  moreover have "lru_inv env m1"
    by (intro lru_inv_same[OF inv]) (simp_all add: m1(2) sg same)
  ultimately show ?thesis using surplus_same[OF same(3,5)] by (simp add: lru_keys_def same(1))
qed

section \<open>Runs\<close>

datatype ('k, 'v) lru_cmd =
    LPut 'k 'v "version_tag option"
  | LCreate 'k 'v "version_tag option"
  | LGet 'k
  | LRemove 'k "version_tag option" bool

fun lru_exec :: "('k, 'v, 'p, 'd) lru_env \<Rightarrow> ('k, 'v) lru_cmd \<Rightarrow> ('k, 'v, 'p, 'd) lru_map \<Rightarrow> gf_exn + ('k, 'v, 'p, 'd) lru_map" where
  "lru_exec env (LPut k v tag) m = andThen (put_lru env k (Some (Obj v)) (-1) 0 tag None m) (\<lambda>(r, m'). Inr m')"
| "lru_exec env (LCreate k v tag) m = andThen (create_lru env k (Some (Obj v)) (-1) 0 tag m) (\<lambda>(r, m'). Inr m')"
| "lru_exec env (LGet k) m = andThen (get_lru env k m) (\<lambda>(found, v, m'). Inr m')"
| "lru_exec env (LRemove k tag afterRemote) m = andThen (remove_lru env k (-1) tag afterRemote m) (\<lambda>(r, m'). Inr m')"

fun lru_run :: "('k, 'v, 'p, 'd) lru_env \<Rightarrow> ('k, 'v) lru_cmd list \<Rightarrow> ('k, 'v, 'p, 'd) lru_map \<Rightarrow> gf_exn + ('k, 'v, 'p, 'd) lru_map" where
  "lru_run env [] m = Inr m"
| "lru_run env (c # cs) m = andThen (lru_exec env c m) (lru_run env cs)"

text \<open>A new map of a given limit, opened.\<close>

definition opened_lru :: "u32 \<Rightarrow> ('k, 'v, 'p, 'd) lru_map \<Rightarrow> bool" where
  "opened_lru limit m \<longleftrightarrow>
     (\<exists>c controller d m0 cap M. new_LRUEntriesMap TestMapAction limit True c False controller d = Inr m0 \<and>
        open_map cap (lm_entries m0) = Inr M \<and> m = m0\<lparr>lm_entries := M\<rparr>)"

text \<open>The map is within its limit, which leaves room to count one more entry.\<close>

definition within :: "('k, 'v, 'p, 'd) lru_env \<Rightarrow> u32 \<Rightarrow> ('k, 'v, 'p, 'd) lru_map \<Rightarrow> bool" where
  "within env limit m \<longleftrightarrow> lru_inv env m \<and> surplus m = (\<lambda>n. n - unat limit) \<and> length (lru_keys m) \<le> unat limit"

lemma opened_empty:
  assumes "opened M"
  shows "lookup_map hashcode M = Map.empty"
proof
  fix k
  from assms obtain c cap M0 where o: "new_ConcurrentEntriesMap True c = Inr M0" "open_map cap M0 = Inr M"
    by (auto simp: opened_def)
  from o(2) obtain ss n sz cc where "open_all n sz cc = Inr ss" "M = M0\<lparr>m_segments := ss\<rparr>"
    by (auto simp: open_map_def andThen_Inr_conv)
  then show "lookup_map hashcode M k = None"
    using open_all_Inr[of n sz cc ss] by (auto simp: lookup_map_def segmentFor_def lookup_find)
qed

lemma opened_lru_within:
  assumes "opened_lru limit m"
  shows "within env limit m"
proof -
  from assms obtain c controller d m0 cap M where o: "new_LRUEntriesMap TestMapAction limit True c False controller d = Inr m0"
    "open_map cap (lm_entries m0) = Inr M" "m = m0\<lparr>lm_entries := M\<rparr>"
    by (auto simp: opened_lru_def)
  from o(1) obtain M0 where M0: "new_ConcurrentEntriesMap True c = Inr M0" "lm_entries m0 = M0"
    "lm_queue m0 = new_LRUQueue" "m_action m0 = TestMapAction" "m_limit m0 = limit" "m_validEntries m0 = 0"
    "\<not> m_heapLRUEnabled m0"
    by (auto simp: new_LRUEntriesMap_def andThen_Inr_conv)
  have op: "opened M" using o(2) M0(1,2) by (auto simp: opened_def)
  note inv = opened_inv[OF op, of "le_hash env"] and empty = opened_empty[OF op, of "le_hash env"]
  have "map_id (le_hash env) M k = None" for k using map_id_lookup[of "le_hash env" M k] inv empty by simp
  then have "lru_inv env m"
    unfolding lru_inv_def using inv M0 empty by (simp add: o(3) new_LRUQueue_def queue_order_def queue_inv_def)
  then show ?thesis
    using M0 by (auto simp: within_def o(3) surplus_def lru_keys_def queue_order_def new_LRUQueue_def)
qed

lemma within_drop: "length (drop (length ks - l) ks) \<le> (l :: nat)"
  by simp

lemma lru_exec_within:
  assumes w: "within env limit m" and limit: "unat limit < 2 ^ 32 - 1" and res: "lru_exec env c m = Inr m'"
  shows "within env limit m'"
proof -
  note inv = w[unfolded within_def, THEN conjunct1]
  note I = lru_invD[OF inv]
  have small: "length (lru_keys m) < 2 ^ 32 - 1" using w limit by (auto simp: within_def)
  note at = segmentFor_inv[OF I(1)]
  show ?thesis
  proof (cases c)
    case (LPut k v tag)
    then obtain r where r: "put_lru env k (Some (Obj v)) (-1) 0 tag None m = Inr (r, m')"
      using res by (auto simp: andThen_Inr_conv)
    then obtain r0 M1 where run: "on_segment (le_hash env) k (put_seg (le_seg env)
        (sint (m_numDestroyTrackers (lm_entries m))) k (Some (Obj v)) (-1) 0 tag None) (lm_entries m) = Inr (r0, M1)"
      by (auto simp: put_lru_def lru_on_segment_def andThen_Inr_conv)
    show ?thesis
    proof (cases "r_err r0 = GF_NOERR")
      case True
      from put_lru_keeps[OF inv small run True] r w show ?thesis by (auto simp: within_def)
    next
      case False
      from put_lru_fails[OF inv r run False] w show ?thesis by (auto simp: within_def)
    qed
  next
    case (LCreate k v tag)
    then obtain r where r: "create_lru env k (Some (Obj v)) (-1) 0 tag m = Inr (r, m')"
      using res by (auto simp: andThen_Inr_conv)
    then obtain r0 M1 where run: "on_segment (le_hash env) k (create_seg (le_seg env)
        (sint (m_numDestroyTrackers (lm_entries m))) k (Some (Obj v)) (-1) 0 tag) (lm_entries m) = Inr (r0, M1)"
      by (auto simp: create_lru_def lru_on_segment_def andThen_Inr_conv)
    show ?thesis
    proof (cases "r_err r0 = GF_NOERR")
      case True
      from create_lru_keeps[OF inv small run True] r w show ?thesis by (auto simp: within_def)
    next
      case False
      from create_lru_fails[OF inv r run False] w show ?thesis by (auto simp: within_def)
    qed
  next
    case (LGet k)
    have "length (remove1 k (lru_keys m) @ [k]) = length (lru_keys m)" if "k \<in> set (lru_keys m)"
      using that by (cases "lru_keys m") (auto simp: length_remove1 dest: length_pos_if_in_set)
    with LGet get_lru_keeps[OF inv, of k] res w show ?thesis
      by (auto simp: within_def split: if_splits)
  next
    case (LRemove k tag ar)
    then obtain r where r: "remove_lru env k (-1) tag ar m = Inr (r, m')"
      using res by (auto simp: andThen_Inr_conv)
    then obtain r0 M1 where run: "on_segment (le_hash env) k (remove_seg (le_seg env)
        (sint (m_numDestroyTrackers (lm_entries m))) k (-1) tag ar) (lm_entries m) = Inr (r0, M1)"
      by (auto simp: remove_lru_def lru_on_segment_def andThen_Inr_conv)
    show ?thesis
    proof (cases "r_err r0 = GF_NOERR \<and> map_id (le_hash env) (lm_entries m) k \<noteq> None")
      case True
      then obtain n where "map_id (le_hash env) (lm_entries m) k = Some n" by auto
      from remove_lru_keeps[OF inv this run] True r w remove_lru_surplus[OF r] show ?thesis
        by (auto simp: within_def lru_keys_def length_remove1)
    next
      case False
      then show ?thesis using remove_lru_absent[OF inv r run] w by (auto simp: within_def)
    qed
  qed
qed

lemma lru_run_within:
  "within env limit m \<Longrightarrow> unat limit < 2 ^ 32 - 1 \<Longrightarrow> lru_run env cs m = Inr m' \<Longrightarrow> within env limit m'"
  by (induction cs arbitrary: m) (auto simp: andThen_Inr_conv dest: lru_exec_within)

lemma within_counts:
  assumes "within env limit m"
  shows "distinct (lru_keys m)" "set (lru_keys m) = {k. containsKey_map (le_hash env) k (lm_entries m) = Inr True}"
    "size_map (lm_entries m) \<le> limit" "unat (size_map (lm_entries m)) = length (lru_keys m)"
proof -
  note inv = assms[unfolded within_def, THEN conjunct1]
  note I = lru_invD[OF inv]
  show "distinct (lru_keys m)" using lru_inv_keys(1)[OF inv] by (simp add: lru_keys_def)
  show "set (lru_keys m) = {k. containsKey_map (le_hash env) k (lm_entries m) = Inr True}"
    using lru_keys_dom[OF inv] containsKey_map_lookup[OF I(1)] by auto
  have "length (lru_keys m) \<le> unat limit" using assms by (simp add: within_def)
  moreover have "size_map (lm_entries m) = of_nat (length (lru_keys m))"
    using lru_inv_keys(3)[OF inv] by (simp add: size_map_def lru_keys_def)
  moreover have "unat limit < 2 ^ 32" using unsigned_less[of limit] by simp
  ultimately show "unat (size_map (lm_entries m)) = length (lru_keys m)" and "size_map (lm_entries m) \<le> limit"
    by (simp_all add: word_le_nat_alt unat_of_nat)
qed

section \<open>A small map\<close>

definition small_lru_env :: "(nat, nat, unit, unit) lru_env" where
  "small_lru_env = \<lparr>le_hash = of_nat, le_seg = small_env, pm_write = (\<lambda>k v i d. (True, i, d)), pm_read = (\<lambda>k i d. Inr None),
     pm_destroy = (\<lambda>k i d. Inr d), objectSize_key = (\<lambda>k. 8), objectSize_obj = (\<lambda>v. 8), region_isDestroyed = False\<rparr>"

definition small_lru :: "(nat, nat, unit, unit) lru_map" where
  "small_lru = \<lparr>lm_entries = small_map, lm_queue = new_LRUQueue, persistence_info = (\<lambda>e. None), detached = [],
     m_action = TestMapAction, m_limit = 1, m_currentMapSize = 0, m_validEntries = 0, m_heapLRUEnabled = False,
     heap_size = None, disk = ()\<rparr>"

lemma opened_small_lru: "opened_lru 1 small_lru"
proof -
  have o2: "open_all 2 8 True = Inr [small_segment, small_segment]"
    by (simp add: open_segment_def nextLargerPrime_def g_primeTable_def small_segment_def numeral_2_eq_2)
  have "new_LRUEntriesMap TestMapAction 1 True 2 False None () = Inr (small_lru\<lparr>lm_entries := small_map\<lparr>m_segments := []\<rparr>\<rparr>)"
    by (simp add: new_LRUEntriesMap_def new_ConcurrentEntriesMap_def getMaxPrimeForConcurrency_def
        nextLargerPrimeForConcurrency_def g_primeConcurTable_def small_map_def small_lru_def)
  moreover have "open_map 16 (small_map\<lparr>m_segments := []\<rparr>) = Inr small_map"
    using o2 by (simp add: open_map_def small_map_def Let_def)
  moreover have "small_lru = small_lru\<lparr>lm_entries := small_map\<lparr>m_segments := []\<rparr>, lm_entries := small_map\<rparr>"
    by (simp add: small_lru_def)
  ultimately show ?thesis unfolding opened_lru_def by (metis lru_map.select_convs(1) lru_map.update_convs(1) lru_map.surjective)
qed

text \<open>The same map after a put under the key 1.\<close>

definition small_lru1 :: "(nat, nat, unit, unit) lru_map" where
  "small_lru1 = small_lru\<lparr>lm_entries := small_map1, m_validEntries := 1, lm_queue := push (1, 0) new_LRUQueue\<rparr>"

lemma small_lru_put:
  "put_lru small_lru_env 1 (Some (Obj 7)) (-1) 0 None None small_lru =
   Inr (result GF_NOERR (Some small_entry) None (Some (Obj 7)) False, small_lru1)"
proof -
  have seg: "on_segment of_nat 1 (put_seg small_env 0 1 (Some (Obj 7)) (-1) 0 None None) small_map =
      Inr (result GF_NOERR (Some small_entry) None (Some (Obj 7)) False, small_map1\<lparr>m_size := 0\<rparr>)"
    by (simp add: on_segment_def segmentFor_def segmentIdx_def small_map_def put_seg_def check_rehash_def
      getPrime_def g_primeTable_def small_segment_def putNoEntry_def newMapEntry_def setValueI_def small_entry_def
      small_map1_def result_def al_emplace_def Let_def)
  have get: "get_map of_nat 1 small_map1 = Inr (Some (small_entry, Obj 7))"
    by (simp add: get_map_def segmentFor_def segmentIdx_def small_map1_def small_map_def getEntry_seg_def al_find_def
      small_entry_def getValueI_def)
  have add: "add_size 1 (small_map1\<lparr>m_size := 0\<rparr>) = small_map1" by (simp add: add_size_def small_map1_def)
  have none: "slot_impl of_nat 1 small_map = None"
    by (simp add: slot_impl_def segmentFor_def segmentIdx_def small_map_def small_segment_def)
  have size: "m_size small_map1 = 1" by (simp add: small_map1_def)
  show ?thesis
    using seg get none
    by (simp add: put_lru_def lru_on_segment_def small_lru_env_def small_lru_def small_lru1_def Let_def put_account_def
      old_from_disk_def result_def add_valid_def lru_add_size_def add lru_getEntry_def lru_push_def ref_of_def small_entry_def
      small_map_def processLRU.simps mustEvict_def overflows_def size_map_def size)
qed

lemma small_lru1_within: "within small_lru_env 1 small_lru1"
proof (rule lru_exec_within[OF opened_lru_within[OF opened_small_lru]])
  show "lru_exec small_lru_env (LPut 1 7 None) small_lru = Inr small_lru1"
    unfolding lru_exec.simps small_lru_put by simp
qed simp

lemma small_lru1_keys: "lru_keys small_lru1 = [1]"
  by (simp add: small_lru1_def lru_keys_def queue_order_def push_def new_LRUQueue_def)

definition small_entry2 :: "(nat, nat) entry_impl" where
  "small_entry2 = \<lparr>e_id = 0, e_key = 2, e_value = Some (Obj 8), e_stamp = new_VersionStamp, e_trackers = 0, e_updates = 0\<rparr>"

lemma small_put2_segment:
  "on_segment (le_hash small_lru_env) 2 (put_seg (le_seg small_lru_env) (sint (m_numDestroyTrackers (lm_entries small_lru1))) 2
     (Some (Obj 8)) (-1) 0 None None) (lm_entries small_lru1) =
   Inr (result GF_NOERR (Some small_entry2) None (Some (Obj 8)) False,
     small_map1\<lparr>m_segments := [small_segment\<lparr>m_map := [(2, MapEntryT small_entry2)], seg_next := 1\<rparr>, m_segments small_map1 ! 1]\<rparr>)"
  by (simp add: on_segment_def segmentFor_def segmentIdx_def small_map_def put_seg_def check_rehash_def
      getPrime_def g_primeTable_def small_segment_def putNoEntry_def newMapEntry_def setValueI_def small_entry2_def
      small_map1_def small_lru1_def small_lru_env_def result_def al_emplace_def Let_def)

section \<open>Where the queue and the map part\<close>

lemma invalidate_seg_object:
  assumes inv: "conc_inv s" and res: "invalidate_seg env n k tag s = Inr (r, s')" and ok: "r_err r = GF_NOERR"
  shows "\<exists>i. r_me r = Some i \<and> e_key i = k \<and> entry_id k s = Some (e_id i) \<and> entry_id k s' = Some (e_id i)"
  using inv
proof (cases rule: conc_inv_cases[where k = k])
  case absent
  obtain err me s2 where p: "putNoEntry n k (Some InvalidToken) (-1) (-1) tag None s = (err, me, s2)"
    by (cases "putNoEntry n k (Some InvalidToken) (-1) (-1) tag None s")
  with res absent ok conc_inv_D[OF inv] show ?thesis
    by (auto simp: invalidate_seg_def result_def split: if_splits)
next
  case (live i)
  then have val: "getValueI i = e_value i" "e_value i \<noteq> None" "e_value i \<noteq> Some TombstoneToken"
    using getValueI_stored[of i] by (auto simp: storable_def stored_def)
  from res live obtain err st where st: "next_stamp env tag False (MapEntryT i) s = Inr (err, st)"
    by (auto simp: invalidate_seg_def andThen_Inr_conv)
  with res live val ok conc_inv_D[OF inv] show ?thesis
    by (cases "err = GF_NOERR")
      (auto simp: invalidate_seg_def Let_def result_def setValueI_def incrementUpdateCount_copy_def entry_id_simps)
next
  case (dead i t)
  then have val: "getValueI i = Some TombstoneToken" by (simp add: getValueI_tomb)
  from res dead obtain err st where "next_stamp env tag False (MapEntryT i) s = Inr (err, st)"
    by (auto simp: invalidate_seg_def andThen_Inr_conv)
  with res dead val ok show ?thesis by (auto simp: invalidate_seg_def result_def split: if_splits)
qed

lemma invalidate_then_get:
  assumes inv: "lru_inv env m" and ok: "invalidate_lru env k tag m = Inr (r, m')" "r_err r = GF_NOERR"
  shows "get_lru env k m' = Inl MemoryFault"
proof -
  note I = lru_invD[OF inv]
  let ?op = "invalidate_seg (le_seg env) (sint (m_numDestroyTrackers (lm_entries m))) k tag"
  let ?s = "m_segments (lm_entries m) ! segmentIdx (le_hash env) k (lm_entries m)"
  note at = segmentFor_inv[OF I(1), of k]
  from ok(1) obtain r0 m1 where m1: "lru_on_segment env k ?op m = Inr (r0, m1)"
    by (auto simp: invalidate_lru_def andThen_Inr_conv)
  note same = lru_on_segment_same[OF m1]
  note run = same(7)
  have ok0: "r_err r0 = GF_NOERR"
    using ok m1 by (auto simp: invalidate_lru_def andThen_Inr_conv Let_def split: if_splits option.splits)
  from run at obtain s' where s': "?op ?s = Inr (r0, s')" by (auto simp: on_segment_def andThen_Inr_conv)
  obtain i where i: "r_me r0 = Some i" "e_key i = k" "entry_id k ?s = Some (e_id i)" "entry_id k s' = Some (e_id i)"
    using invalidate_seg_object[OF at(3) s' ok0] by blast
  note eff = invalidate_seg_effect[OF at(3) s']
  have old: "\<not> isToken (r_oldValue r0)"
    using eff ok0 lookup_not_token[OF inv, of k] by (simp add: lookup_map_inv[OF I(1)])
  have flag: "\<not> r_flag r0" using eff ok0 by auto
  have mi: "map_inv (le_hash env) (lm_entries m1) \<and> lookup_map (le_hash env) (lm_entries m1) =
      (lookup_map (le_hash env) (lm_entries m))(k := Some InvalidToken) \<and> m_size (lm_entries m1) = m_size (lm_entries m)"
    by (rule on_segment_effect[OF I(1) run]) (use invalidate_seg_effect ok0 in fastforce)
  have id: "map_id (le_hash env) (lm_entries m1) k = Some (e_id i)"
  proof -
    have "lm_entries m1 = lm_entries m\<lparr>m_segments := (m_segments (lm_entries m))
        [segmentIdx (le_hash env) k (lm_entries m) := s']\<rparr>"
      using run at s' by (simp add: on_segment_def)
    then show ?thesis using at(1) i(4) by (simp add: map_id_def segmentIdx_def)
  qed
  from ok(1) m1 ok0 old flag i(1) obtain q where q: "remove_lru_entry (ref_of i) (lm_queue m) = Inr q"
    and m': "lm_queue m' = q" "lm_entries m' = lm_entries m1"
    by (auto simp: invalidate_lru_def old_from_disk_def andThen_Inr_conv Let_def same(1) dest: isToken_overflowed split: if_splits)
  have mem: "ref_of i \<in> set (queue_order (lm_queue m))" using I(5)[of k "e_id i"] i(2,3) by (simp add: ref_of_def map_id_def)
  then have "iterator (lm_queue m) (ref_of i) \<noteq> Singular" using in_order_iterator[OF I(3), of "ref_of i"] by auto
  from remove_lru_entry_spec[OF I(3) this] q
  have q': "queue_inv q" "queue_order q = remove1 (ref_of i) (queue_order (lm_queue m))" by auto
  then have gone: "ref_of i \<notin> set (queue_order (lm_queue m'))"
    using queue_order_distinct[OF I(3)] by (simp add: m'(1))
  obtain i' v where "lru_getEntry env k m' = Inr (Some (i', v))" "ref_of i' = (k, e_id i)"
    "lookup_map (le_hash env) (lm_entries m1) k = Some v"
    using lru_getEntry_id[of env m' k "e_id i"] mi id m'(2) by auto
  moreover have "ref_of i = (k, e_id i)" using i(2) by (simp add: ref_of_def)
  ultimately show ?thesis
    using mi gone move_to_end_absent[of q] q'(1) m'(1) by (simp add: get_lru_def)
qed

text \<open>Clearing leaves the entries of the old contents in the queue. Evicting one of them fails.\<close>

lemma clear_then_evict:
  assumes inv: "lru_inv env m" and queue: "queue_order (lm_queue m) = (k, n) # es"
  shows "\<exists>m'. evictionHelper env (clear_lru m) = Inr (GF_DISKFULL, m')"
proof -
  note I = lru_invD[OF inv]
  obtain q where q: "pop (lm_queue m) = (Some (k, n), q)" using pop_spec[OF I(3) queue] by blast
  note at = segmentFor_inv[OF I(1), of k]
  let ?M = "clear_map (lm_entries m)" and ?i = "segmentIdx (le_hash env) k (lm_entries m)"
  let ?s = "clear_segment (m_segments (lm_entries m) ! ?i)"
  let ?op = "remove_seg (le_seg env) (sint (m_numDestroyTrackers ?M)) k 0 None False"
  have "segmentFor (le_hash env) k ?M = Inr ?s"
    using at(1) by (simp add: segmentFor_def segmentIdx_def clear_map_def)
  moreover have "?op ?s = Inr (result GF_CACHE_ENTRY_NOT_FOUND None None None False, ?s)"
    using conc_inv_D[OF at(3)] by (simp add: remove_seg_def removeWhenConcurrencyEnabled_def clear_segment_def)
  ultimately have seg: "on_segment (le_hash env) k ?op ?M = Inr (result GF_CACHE_ENTRY_NOT_FOUND None None None False,
      ?M\<lparr>m_segments := (m_segments ?M)[segmentIdx (le_hash env) k ?M := ?s]\<rparr>)"
    by (simp add: on_segment_def)
  let ?m = "clear_lru m\<lparr>lm_queue := q\<rparr>"
  have e: "lm_entries ?m = ?M" "m_action ?m = TestMapAction" "lm_queue (clear_lru m) = lm_queue m"
    using I(4) by (simp_all add: clear_lru_def Let_def)
  obtain m1 where m1: "lru_on_segment env k ?op ?m = Inr (result GF_CACHE_ENTRY_NOT_FOUND None None None False, m1)"
    using lru_on_segment_total[of env k ?op ?m] seg e(1) by auto
  have "remove_lru env k 0 None False ?m = Inr (result GF_CACHE_ENTRY_NOT_FOUND None None None False, m1)"
    using m1 unfolding remove_lru_def e(1) by (simp add: result_def)
  then show ?thesis
    using q e(2,3) by (auto simp: evictionHelper_def evict_def evict_test_def result_def)
qed

section \<open>Properties\<close>






text \<open>
  C36. After a key has been invalidated, getting it is undefined: the invalidation takes the
  entry out of the eviction queue and leaves it in the map, and the get then moves an entry
  that is not in the queue to its end.
\<close>

theorem get_of_invalidated_faults:
  assumes "lru_inv env m" and "invalidate_lru env k tag m = Inr (r, m')" and "r_err r = GF_NOERR"
  shows "get_lru env k m' = Inl MemoryFault"
  by (rule invalidate_then_get[OF assms])

theorem get_of_invalidated_faults_witness:
  "\<exists>r m'. invalidate_lru small_lru_env 1 None small_lru1 = Inr (r, m') \<and> r_err r = GF_NOERR \<and>
     get_lru small_lru_env 1 m' = Inl MemoryFault"
proof -
  have inv: "lru_inv small_lru_env small_lru1" using small_lru1_within by (simp add: within_def)
  have "\<exists>r m'. invalidate_lru small_lru_env 1 None small_lru1 = Inr (r, m') \<and> r_err r = GF_NOERR"
    by (simp add: invalidate_lru_def lru_on_segment_def on_segment_def segmentFor_def segmentIdx_def small_lru_env_def
        small_lru1_def small_lru_def small_map1_def small_map_def small_segment_def small_entry_def invalidate_seg_def
        next_stamp_def getValueI_def setValueI_def incrementUpdateCount_copy_def result_def old_from_disk_def
        remove_lru_entry_def push_def new_LRUQueue_def ref_of_def al_find_def Let_def)
  then obtain r m' where "invalidate_lru small_lru_env 1 None small_lru1 = Inr (r, m')" "r_err r = GF_NOERR" by blast
  with get_of_invalidated_faults[OF inv this] show ?thesis by blast
qed

text \<open>
  Clearing a map does not clear its eviction queue or its count of values: the counter
  of entries is zero, the queue is what it was, and the first eviction afterwards takes an
  entry of the old contents and reports a full disk.
\<close>

lemma clear_leaves_queue:
  assumes "lru_inv env m" and "lru_keys m \<noteq> []"
  shows "size_map (lm_entries (clear_lru m)) = 0 \<and> lru_keys (clear_lru m) = lru_keys m \<and>
    m_validEntries (clear_lru m) = m_validEntries m \<and>
    (\<exists>m'. evictionHelper env (clear_lru m) = Inr (GF_DISKFULL, m'))"
proof -
  obtain k n es where "queue_order (lm_queue m) = (k, n) # es"
    using assms(2) by (cases "queue_order (lm_queue m)") (auto simp: lru_keys_def)
  from clear_then_evict[OF assms(1) this] show ?thesis
    by (simp add: clear_lru_def Let_def lru_keys_def size_map_def clear_map_def)
qed

end
