(* ===== verification/Event_Id_Map.thy ===== *)
theory Event_Id_Map
  imports Serializer
begin

text \<open>
  Event identities and the filter for duplicate notifications (\<open>EventId.cpp\<close>,
  \<open>EventId.hpp\<close>, \<open>EventSource.cpp\<close>, \<open>EventIdMap.cpp\<close>), with the two callers in
  \<open>ThinClientRedundancyManager.cpp\<close>: the check of an incoming event and the periodic
  acknowledgement. An event is named by the member it comes from, the thread and a
  sequence number of that thread; the filter keeps the last sequence number of every
  source. Readings of the clock are arguments.
\<close>

section \<open>Event identities\<close>

text \<open>\<open>clientId_\<close> is an array of 512 characters inside the object.\<close>

record event_id =
  ev_clientId :: "byte list"
  ev_clientIdLength :: u32
  ev_threadId :: u64
  ev_sequenceId :: u64
  ev_bucketId :: u32
  ev_breadcrumbCounter :: byte

text \<open>
  The sequence numbers of the threads: a counter that numbers threads, and for every thread
  that has made an event its number and the last sequence number.
\<close>

record event_gen =
  threadIdCounter :: u64
  tss :: "(nat \<times> u64 \<times> u64) list"

definition ThreadIdCounter_next :: "event_gen \<Rightarrow> u64 \<times> event_gen" where
  "ThreadIdCounter_next g = (threadIdCounter g + 1, g\<lparr>threadIdCounter := threadIdCounter g + 1\<rparr>)"

definition EventIdTSS_instance :: "nat \<Rightarrow> event_gen \<Rightarrow> (u64 \<times> u64) \<times> event_gen" where
  "EventIdTSS_instance t g =
     (case al_find (tss g) t of
        Some e \<Rightarrow> (e, g)
      | None \<Rightarrow> let (n, g1) = ThreadIdCounter_next g in ((n, 0), g1\<lparr>tss := al_assign t (n, 0) (tss g1)\<rparr>))"

definition nextSequenceId :: "nat \<Rightarrow> event_gen \<Rightarrow> u64 \<times> event_gen" where
  "nextSequenceId t g =
     (let ((n, s), g1) = EventIdTSS_instance t g in (s + 1, g1\<lparr>tss := al_assign t (n, s + 1) (tss g1)\<rparr>))"

definition currentSequenceId :: "nat \<Rightarrow> event_gen \<Rightarrow> u64 \<times> event_gen" where
  "currentSequenceId t g = (let ((n, s), g1) = EventIdTSS_instance t g in (s, g1))"

definition tss_threadId :: "nat \<Rightarrow> event_gen \<Rightarrow> u64 \<times> event_gen" where
  "tss_threadId t g = (let ((n, s), g1) = EventIdTSS_instance t g in (n, g1))"

definition initFromTSS :: "nat \<Rightarrow> event_id \<Rightarrow> event_gen \<Rightarrow> event_id \<times> event_gen" where
  "initFromTSS t ev g =
     (let (n, g1) = tss_threadId t g; (s, g2) = nextSequenceId t g1
      in (ev\<lparr>ev_threadId := n, ev_sequenceId := s\<rparr>, g2))"

definition initFromTSS_SameThreadIdAndSameSequenceId :: "nat \<Rightarrow> event_id \<Rightarrow> event_gen \<Rightarrow> event_id \<times> event_gen" where
  "initFromTSS_SameThreadIdAndSameSequenceId t ev g =
     (let (n, g1) = tss_threadId t g; (s, g2) = currentSequenceId t g1
      in (ev\<lparr>ev_threadId := n, ev_sequenceId := s\<rparr>, g2))"

text \<open>A sequence number that is reserved: the result of the call is not used.\<close>

definition skipSequenceId :: "nat \<Rightarrow> event_gen \<Rightarrow> event_gen" where
  "skipSequenceId t g = snd (nextSequenceId t g)"

text \<open>The constructor; the content of the fresh array is unknown.\<close>

definition new_EventId ::
  "byte list \<Rightarrow> nat \<Rightarrow> bool \<Rightarrow> nat \<Rightarrow> bool \<Rightarrow> event_gen \<Rightarrow> event_id \<times> event_gen" where
  "new_EventId junk t doInit reserveSize fullValueAfterDeltaFail g =
     (let ev = \<lparr>ev_clientId = junk, ev_clientIdLength = 0, ev_threadId = 0, ev_sequenceId = 0,
                ev_bucketId = -1, ev_breadcrumbCounter = 0\<rparr>
      in if \<not> doInit then (ev, g)
         else
           let (ev1, g1) = (if fullValueAfterDeltaFail
                            then initFromTSS_SameThreadIdAndSameSequenceId t ev g else initFromTSS t ev g)
           in (ev1, (skipSequenceId t ^^ reserveSize) g1))"

text \<open>The constructor from given values copies the client id into the array.\<close>

definition create_EventId :: "byte list \<Rightarrow> byte list option \<Rightarrow> u32 \<Rightarrow> u64 \<Rightarrow> u64 \<Rightarrow> gf_exn + event_id" where
  "create_EventId junk memId memIdLen thr sq =
     (let bs = (case memId of None \<Rightarrow> [] | Some bs \<Rightarrow> bs); n = unat memIdLen in
      if length bs < n \<or> 512 < n then Inl MemoryFault
      else Inr \<lparr>ev_clientId = take n bs @ drop n junk, ev_clientIdLength = memIdLen, ev_threadId = thr,
                ev_sequenceId = sq, ev_bucketId = -1, ev_breadcrumbCounter = 0\<rparr>)"

section \<open>The wire format of an event identity\<close>

definition toData_EventId :: "event_id \<Rightarrow> writer" where
  "toData_EventId ev out =
     andThen (writeBytes (Some (ev_clientId ev)) (ev_clientIdLength ev) out) (\<lambda>o1.
     andThen (writeArrayLen 18 o1) (\<lambda>o2.
     andThen (write_byte 3 o2) (\<lambda>o3.
     andThen (writeInt64 (ev_threadId ev) o3) (\<lambda>o4.
     andThen (write_byte 3 o4) (\<lambda>o5.
     andThen (writeInt64 (ev_sequenceId ev) o5) (\<lambda>o6.
     andThen (writeInt32 (ev_bucketId ev) o6) (write_byte (ev_breadcrumbCounter ev))))))))"

definition writeIdsData :: "event_id \<Rightarrow> writer" where
  "writeIdsData ev out =
     andThen (writeInt32 18 out) (\<lambda>o1.
     andThen (write_byte 0 o1) (\<lambda>o2.
     andThen (write_byte 3 o2) (\<lambda>o3.
     andThen (writeInt64 (ev_threadId ev) o3) (\<lambda>o4.
     andThen (write_byte 3 o4) (writeInt64 (ev_sequenceId ev))))))"

definition getEventIdData :: "byte \<Rightarrow> u64 reader" where
  "getEventIdData numberCode inp =
     (if numberCode = 0 then andThen (read_byte inp) (\<lambda>(b, i). Inr (scast b, i))
      else if numberCode = 1 then andThen (readInt16 inp) (\<lambda>(v, i). Inr (scast v, i))
      else if numberCode = 2 then andThen (readInt32 inp) (\<lambda>(v, i). Inr (scast v, i))
      else if numberCode = 3 then readInt64 inp
      else Inr (0, inp))"

text \<open>A length passed as \<open>size_t\<close> is sign extended; the array behind the pointer has 512 bytes.\<close>

definition fromData_EventId :: "event_id \<Rightarrow> event_id reader" where
  "fromData_EventId ev inp =
     andThen (readArrayLength inp) (\<lambda>(len, i1).
     andThen (readBytesOnly (unat (scast len :: u64)) i1) (\<lambda>(bs, i2).
     if 512 < length bs then Inl MemoryFault
     else
       andThen (readArrayLength i2) (\<lambda>(_, i3).
       andThen (read_byte i3) (\<lambda>(c1, i4).
       andThen (getEventIdData c1 i4) (\<lambda>(thr, i5).
       andThen (read_byte i5) (\<lambda>(c2, i6).
       andThen (getEventIdData c2 i6) (\<lambda>(sq, i7).
       andThen (readInt32 i7) (\<lambda>(bucket, i8).
       andThen (read_byte i8) (\<lambda>(crumb, i9).
         Inr (\<lparr>ev_clientId = bs @ drop (length bs) (ev_clientId ev), ev_clientIdLength = len, ev_threadId = thr,
               ev_sequenceId = sq, ev_bucketId = bucket, ev_breadcrumbCounter = crumb\<rparr>, i9))))))))))"

section \<open>Sources and sequences\<close>

record event_source =
  m_srcId :: "byte list option"
  m_srcIdLen :: u32
  m_thrId :: u64

record event_sequence =
  m_seqNum :: u64
  m_acked :: bool
  m_deadline :: int

text \<open>
  The identity of a source is the client id followed by the thread id as it lies in memory,
  lowest byte first. An empty client id leaves the identity null.
\<close>

definition new_EventSource :: "byte list \<Rightarrow> u32 \<Rightarrow> u64 \<Rightarrow> gf_exn + event_source" where
  "new_EventSource memId memIdLen thrId =
     (if sint memIdLen \<le> 0 then Inr \<lparr>m_srcId = None, m_srcIdLen = 0, m_thrId = -1\<rparr>
      else if length memId < unat memIdLen then Inl MemoryFault
      else Inr \<lparr>m_srcId = Some (take (unat memIdLen) memId @ rev (bytes64 thrId)),
                m_srcIdLen = memIdLen + 8, m_thrId = thrId\<rparr>)"

definition getMemIdLen :: "event_source \<Rightarrow> u32" where
  "getMemIdLen src = m_srcIdLen src - 8"

text \<open>Equality of sources; a null identity equals none, not even itself.\<close>

definition EventSource_eq :: "event_source \<Rightarrow> event_source \<Rightarrow> bool" where
  "EventSource_eq a b =
     (case (m_srcId a, m_srcId b) of
        (Some x, Some y) \<Rightarrow> m_srcIdLen a = m_srcIdLen b \<and>
          take (unat (m_srcIdLen a)) x = take (unat (m_srcIdLen a)) y
      | _ \<Rightarrow> False)"

definition new_EventSequence :: "int \<Rightarrow> u64 \<Rightarrow> event_sequence" where
  "new_EventSequence now seqNum = \<lparr>m_seqNum = seqNum, m_acked = False, m_deadline = now\<rparr>"

definition touch_sequence :: "int \<Rightarrow> int \<Rightarrow> event_sequence \<Rightarrow> event_sequence" where
  "touch_sequence now age sq = sq\<lparr>m_deadline := now + age\<rparr>"

definition EventSequence_le :: "event_sequence \<Rightarrow> event_sequence \<Rightarrow> bool" where
  "EventSequence_le a b = (sint (m_seqNum a) \<le> sint (m_seqNum b))"

section \<open>The map\<close>

text \<open>
  The hash map finds keys with the equality of sources. Every operation runs under the map's
  lock.
\<close>

record event_id_map =
  m_expiry :: int
  eim_map :: "(event_source \<times> event_sequence) list"

definition eim_find :: "event_source \<Rightarrow> event_id_map \<Rightarrow> event_sequence option" where
  "eim_find key m = map_option snd (find (\<lambda>p. EventSource_eq key (fst p)) (eim_map m))"

fun eim_assign ::
  "event_source \<Rightarrow> event_sequence \<Rightarrow> (event_source \<times> event_sequence) list \<Rightarrow> (event_source \<times> event_sequence) list" where
  "eim_assign key v [] = [(key, v)]"
| "eim_assign key v (p # ps) = (if EventSource_eq key (fst p) then (fst p, v) # ps else p # eim_assign key v ps)"

definition eim_erase ::
  "event_source \<Rightarrow> (event_source \<times> event_sequence) list \<Rightarrow> (event_source \<times> event_sequence) list" where
  "eim_erase key ps = filter (\<lambda>p. \<not> EventSource_eq key (fst p)) ps"

definition init_eim :: "int \<Rightarrow> event_id_map \<Rightarrow> event_id_map" where
  "init_eim expirySecs m = m\<lparr>m_expiry := expirySecs\<rparr>"

definition clear_eim :: "event_id_map \<Rightarrow> event_id_map" where
  "clear_eim m = m\<lparr>eim_map := []\<rparr>"

definition make_eim :: "int \<Rightarrow> event_id \<Rightarrow> gf_exn + (event_source \<times> event_sequence)" where
  "make_eim now ev =
     andThen (new_EventSource (ev_clientId ev) (ev_clientIdLength ev) (ev_threadId ev)) (\<lambda>sid.
       Inr (sid, new_EventSequence now (ev_sequenceId ev)))"

definition isDuplicate :: "event_source \<Rightarrow> event_sequence \<Rightarrow> event_id_map \<Rightarrow> bool" where
  "isDuplicate key v m =
     (case eim_find key m of None \<Rightarrow> False | Some old \<Rightarrow> EventSequence_le v old)"

definition put_eim :: "int \<Rightarrow> event_source \<Rightarrow> event_sequence \<Rightarrow> bool \<Rightarrow> event_id_map \<Rightarrow> bool \<times> event_id_map" where
  "put_eim now key v onlynew m =
     (let v1 = touch_sequence now (m_expiry m) v in
      case eim_find key m of
        Some old \<Rightarrow>
          (if onlynew \<and> EventSequence_le v1 old then (False, m)
           else (True, m\<lparr>eim_map := eim_assign key v1 (eim_map m)\<rparr>))
      | None \<Rightarrow> (True, m\<lparr>eim_map := eim_assign key v1 (eim_map m)\<rparr>))"

definition touch_eim :: "int \<Rightarrow> event_source \<Rightarrow> event_id_map \<Rightarrow> bool \<times> event_id_map" where
  "touch_eim now key m =
     (case eim_find key m of
        Some old \<Rightarrow> (True, m\<lparr>eim_map := eim_assign key (touch_sequence now (m_expiry m) old) (eim_map m)\<rparr>)
      | None \<Rightarrow> (False, m))"

definition remove_eim :: "event_source \<Rightarrow> event_id_map \<Rightarrow> bool \<times> event_id_map" where
  "remove_eim key m =
     (case eim_find key m of
        Some _ \<Rightarrow> (True, m\<lparr>eim_map := eim_erase key (eim_map m)\<rparr>)
      | None \<Rightarrow> (False, m))"

text \<open>The unacknowledged entries, which are marked as acknowledged on the way out.\<close>

definition getUnAcked :: "event_id_map \<Rightarrow> (event_source \<times> event_sequence) list \<times> event_id_map" where
  "getUnAcked m =
     (map (\<lambda>(k, v). (k, v\<lparr>m_acked := True\<rparr>)) (filter (\<lambda>(k, v). \<not> m_acked v) (eim_map m)),
      m\<lparr>eim_map := map (\<lambda>(k, v). (k, v\<lparr>m_acked := True\<rparr>)) (eim_map m)\<rparr>)"

fun clearAckedFlags :: "(event_source \<times> event_sequence) list \<Rightarrow> event_id_map \<Rightarrow> u32 \<times> event_id_map" where
  "clearAckedFlags [] m = (0, m)"
| "clearAckedFlags (item # items) m =
     (case eim_find (fst item) m of
        Some old \<Rightarrow>
          let (cleared, m') = clearAckedFlags items
                (m\<lparr>eim_map := eim_assign (fst item) (old\<lparr>m_acked := False\<rparr>) (eim_map m)\<rparr>)
          in (cleared + 1, m')
      | None \<Rightarrow> clearAckedFlags items m)"

definition expire_eim :: "int \<Rightarrow> bool \<Rightarrow> event_id_map \<Rightarrow> u32 \<times> event_id_map" where
  "expire_eim now onlyacked m =
     (let entries = filter (\<lambda>(k, v). \<not> (onlyacked \<and> \<not> m_acked v) \<and> m_deadline v < now) (eim_map m)
      in (of_nat (length entries), m\<lparr>eim_map := fold (\<lambda>e. eim_erase (fst e)) entries (eim_map m)\<rparr>))"

section \<open>The callers\<close>

definition checkDupAndAdd :: "int \<Rightarrow> event_id \<Rightarrow> event_id_map \<Rightarrow> gf_exn + (bool \<times> event_id_map)" where
  "checkDupAndAdd now ev m =
     andThen (make_eim now ev) (\<lambda>(k, v). Inr (put_eim now k v True m))"

text \<open>The event ids of an acknowledgement message.\<close>

fun periodicAck_ids :: "byte list \<Rightarrow> (event_source \<times> event_sequence) list \<Rightarrow> gf_exn + event_id list" where
  "periodicAck_ids junk [] = Inr []"
| "periodicAck_ids junk ((src, sq) # es) =
     andThen (create_EventId junk (m_srcId src) (getMemIdLen src) (m_thrId src) (m_seqNum sq)) (\<lambda>eid.
       andThen (periodicAck_ids junk es) (\<lambda>ids. Inr (eid # ids)))"

text \<open>
  The periodic acknowledgement. \<open>send\<close> is the request to the first redundant endpoint:
  none when there is no endpoint, and otherwise whether the server replied.
\<close>

record ack_state =
  m_HAenabled :: bool
  m_nextAck :: int
  next_ack_inc :: int
  m_eventidmap :: event_id_map

definition doPeriodicAck ::
  "byte list \<Rightarrow> (event_id list \<Rightarrow> bool) option \<Rightarrow> int \<Rightarrow> ack_state \<Rightarrow> gf_exn + ack_state" where
  "doPeriodicAck junk send now st =
     andThen
       (if m_HAenabled st \<and> m_nextAck st < now then
          let st1 = st\<lparr>m_nextAck := m_nextAck st + next_ack_inc st\<rparr>;
              (entries, m1) = getUnAcked (m_eventidmap st1)
          in if 0 < length entries then
               andThen
                 (case send of
                    Some request \<Rightarrow> andThen (periodicAck_ids junk entries) (\<lambda>ids. Inr (request ids))
                  | None \<Rightarrow> Inr False)
                 (\<lambda>acked. Inr (st1\<lparr>m_eventidmap := if acked then m1 else snd (clearAckedFlags entries m1)\<rparr>))
             else Inr (st1\<lparr>m_eventidmap := m1\<rparr>)
        else Inr st)
       (\<lambda>st2. Inr (st2\<lparr>m_eventidmap := snd (expire_eim now (m_HAenabled st2) (m_eventidmap st2))\<rparr>))"

section \<open>The wire format, specified\<close>

definition client_bytes :: "event_id \<Rightarrow> byte list" where
  "client_bytes ev = take (unat (ev_clientIdLength ev)) (ev_clientId ev)"

definition event_id_ok :: "event_id \<Rightarrow> bool" where
  "event_id_ok ev \<longleftrightarrow> length (ev_clientId ev) = 512 \<and> unat (ev_clientIdLength ev) \<le> 512"

definition event_id_bytes :: "event_id \<Rightarrow> byte list" where
  "event_id_bytes ev =
     byteArray_bytes (client_bytes ev) @ arrayLen_bytes 18 @ [3] @ bytes64 (ev_threadId ev) @
     [3] @ bytes64 (ev_sequenceId ev) @ bytes32 (ev_bucketId ev) @ [ev_breadcrumbCounter ev]"

lemma client_bytes_length:
  assumes "event_id_ok ev"
  shows "length (client_bytes ev) = unat (ev_clientIdLength ev)" "of_nat (length (client_bytes ev)) = ev_clientIdLength ev"
    "length (client_bytes ev) \<le> 512"
  using assms by (simp_all add: event_id_ok_def client_bytes_def)

lemma writeBytes_take:
  "unat len \<le> length bs \<Longrightarrow> writeBytes (Some bs) len = writeBytes (Some (take (unat len) bs)) len"
proof -
  assume len: "unat len \<le> length bs"
  show ?thesis
  proof (cases "0 \<le> sint len")
    case True
    with sint_nonneg_u32[of len] have n: "nat (sint len) = unat len" by (simp flip: nat_uint_eq)
    with len have "nat (sint len) \<le> length (take (unat len) bs) \<longleftrightarrow> nat (sint len) \<le> length bs"
      "take (nat (sint len)) (take (unat len) bs) = take (nat (sint len)) bs" by simp_all
    note same = this
    show ?thesis unfolding writeBytes_def option.case same by simp
  qed (simp add: writeBytes_def fun_eq_iff)
qed

lemma appends_toData_EventId:
  assumes "event_id_ok ev"
  shows "appends (toData_EventId ev) (event_id_bytes ev)"
proof -
  have "writeBytes (Some (ev_clientId ev)) (ev_clientIdLength ev) =
      writeBytes (Some (client_bytes ev)) (of_nat (length (client_bytes ev)))"
    using assms writeBytes_take[of "ev_clientIdLength ev" "ev_clientId ev"]
    by (simp add: client_bytes_length event_id_ok_def client_bytes_def)
  moreover have "appends (writeBytes (Some (client_bytes ev)) (of_nat (length (client_bytes ev))))
      (byteArray_bytes (client_bytes ev))"
    by (rule appends_writeBytes) (use client_bytes_length(3)[OF assms] in simp)
  ultimately show ?thesis
    unfolding toData_EventId_def[abs_def] event_id_bytes_def
    by (simp only:) (intro appends_andThen appends_writeArrayLen appends_write_byte appends_writeInt64 appends_writeInt32)
qed

lemma consumes_getEventIdData: "consumes (getEventIdData 3) (bytes64 v) v"
  by (simp add: getEventIdData_def[abs_def] consumes_readInt64)

lemma event_id_unfold: "ev\<lparr>ev_clientId := c\<rparr> =
  \<lparr>ev_clientId = c, ev_clientIdLength = ev_clientIdLength ev, ev_threadId = ev_threadId ev,
   ev_sequenceId = ev_sequenceId ev, ev_bucketId = ev_bucketId ev, ev_breadcrumbCounter = ev_breadcrumbCounter ev\<rparr>"
  by simp

lemma consumes_fromData_EventId:
  assumes ok: "event_id_ok ev"
  shows "consumes (fromData_EventId ev0) (event_id_bytes ev)
    (ev\<lparr>ev_clientId := client_bytes ev @ drop (length (client_bytes ev)) (ev_clientId ev0)\<rparr>)"
proof -
  let ?n = "ev_clientIdLength ev"
  have n: "sint ?n = int (length (client_bytes ev))" "unat (scast ?n :: u64) = length (client_bytes ev)"
  proof -
    show s: "sint ?n = int (length (client_bytes ev))"
      using sint_of_nat_u32[of "length (client_bytes ev)"] client_bytes_length[OF ok] by simp
    then have "(scast ?n :: u64) = of_nat (length (client_bytes ev))"
      by (simp add: scast_eq)
    then show "unat (scast ?n :: u64) = length (client_bytes ev)"
      using client_bytes_length(3)[OF ok] by (simp add: unat_of_nat take_bit_nat_eq_self_iff)
  qed
  show ?thesis
    unfolding fromData_EventId_def[abs_def] event_id_bytes_def byteArray_bytes_def append_assoc client_bytes_length(2)[OF ok]
    apply (rule consumes_bind[OF consumes_readArrayLength])
     apply (simp add: n)
    apply (simp only: n(2))
    apply (rule consumes_bind[OF consumes_readBytesOnly])
    apply (simp only: client_bytes_length(3)[OF ok, unfolded not_less[symmetric]] if_False)
    apply (rule consumes_bind[OF consumes_readArrayLength])
     apply simp
    apply (rule consumes_bind[OF consumes_read_byte])
    apply (rule consumes_bind[OF consumes_getEventIdData])
    apply (rule consumes_bind[OF consumes_read_byte])
    apply (rule consumes_bind[OF consumes_getEventIdData])
    apply (rule consumes_bind[OF consumes_readInt32])
    using consumes_map[OF consumes_read_byte[of "ev_breadcrumbCounter ev"], where f = "\<lambda>crumb.
        \<lparr>ev_clientId = client_bytes ev @ drop (length (client_bytes ev)) (ev_clientId ev0),
         ev_clientIdLength = ev_clientIdLength ev, ev_threadId = ev_threadId ev, ev_sequenceId = ev_sequenceId ev,
         ev_bucketId = ev_bucketId ev, ev_breadcrumbCounter = crumb\<rparr>"]
    apply (simp add: event_id_unfold)
    done
qed

section \<open>Sequence numbers\<close>

text \<open>
  What the generator promises: thread numbers are distinct, and no thread has used up more
  than \<open>n\<close> sequence numbers.
\<close>

definition gen_inv :: "nat \<Rightarrow> event_gen \<Rightarrow> bool" where
  "gen_inv n g \<longleftrightarrow>
     unat (threadIdCounter g) \<le> n \<and> al_wf (tss g) \<and>
     (\<forall>t i s. al_find (tss g) t = Some (i, s) \<longrightarrow> unat i \<le> unat (threadIdCounter g) \<and> unat s \<le> n) \<and>
     (\<forall>t t' i s s'. al_find (tss g) t = Some (i, s) \<longrightarrow> al_find (tss g) t' = Some (i, s') \<longrightarrow> t = t')"

definition tss_of :: "nat \<Rightarrow> event_gen \<Rightarrow> nat" where
  "tss_of t g = (case al_find (tss g) t of None \<Rightarrow> 0 | Some (i, s) \<Rightarrow> unat s)"

lemma unat_Suc: "unat (w :: u64) \<le> n \<Longrightarrow> n < 2 ^ 63 \<Longrightarrow> unat (w + 1) = Suc (unat w)"
  by (simp add: unat_plus_if_size word_size)

lemma gen_inv_mono: "gen_inv n g \<Longrightarrow> n \<le> m \<Longrightarrow> gen_inv m g"
  by (force simp: gen_inv_def)

text \<open>Getting the thread's record: afterwards it is there, and nothing else changed.\<close>

lemma EventIdTSS_instance_effect:
  assumes inv: "gen_inv n g" and n: "n < 2 ^ 63" and res: "EventIdTSS_instance t g = ((i, s), g')"
  shows "gen_inv (Suc n) g' \<and> al_find (tss g') t = Some (i, s) \<and> unat s = tss_of t g \<and>
    (\<forall>t' x. al_find (tss g) t' = Some x \<longrightarrow> al_find (tss g') t' = Some x) \<and> (\<forall>t'. tss_of t' g' = tss_of t' g)"
proof (cases "al_find (tss g) t")
  case None
  have c: "unat (threadIdCounter g + 1) = Suc (unat (threadIdCounter g))"
    using inv n by (intro unat_Suc[of _ n]) (simp_all add: gen_inv_def)
  from None res have g': "i = threadIdCounter g + 1" "s = 0"
    "g' = g\<lparr>threadIdCounter := threadIdCounter g + 1, tss := al_assign t (threadIdCounter g + 1, 0) (tss g)\<rparr>"
    by (auto simp: EventIdTSS_instance_def ThreadIdCounter_next_def)
  have fresh: "al_find (tss g) t' \<noteq> Some (threadIdCounter g + 1, s')" for t' s'
  proof
    assume "al_find (tss g) t' = Some (threadIdCounter g + 1, s')"
    with inv have "unat (threadIdCounter g + 1) \<le> unat (threadIdCounter g)" unfolding gen_inv_def by blast
    with c show False by simp
  qed
  have "gen_inv (Suc n) g'"
    using inv fresh unfolding gen_inv_def g' by (auto simp: c split: if_splits) (metis le_SucI)+
  with None show ?thesis by (auto simp: g' tss_of_def)
next
  case (Some x)
  with inv res gen_inv_mono[OF inv, of "Suc n"] show ?thesis
    by (auto simp: EventIdTSS_instance_def tss_of_def)
qed

definition tid_of :: "nat \<Rightarrow> event_gen \<Rightarrow> u64 option" where
  "tid_of t g = map_option fst (al_find (tss g) t)"

text \<open>The effect of a call for thread \<open>t\<close> that uses up \<open>d\<close> sequence numbers.\<close>

definition advances :: "nat \<Rightarrow> nat \<Rightarrow> event_gen \<Rightarrow> event_gen \<Rightarrow> bool" where
  "advances t d g g' \<longleftrightarrow>
     tss_of t g' = tss_of t g + d \<and> (\<forall>t'. t' \<noteq> t \<longrightarrow> tss_of t' g' = tss_of t' g) \<and>
     (\<forall>t' i. tid_of t' g = Some i \<longrightarrow> tid_of t' g' = Some i) \<and> tid_of t g' \<noteq> None"

lemma advances_trans: "advances t d g g' \<Longrightarrow> advances t e g' g'' \<Longrightarrow> advances t (d + e) g g''"
  by (auto simp: advances_def)

lemma instance_advances:
  assumes "gen_inv n g" "n < 2 ^ 63" "EventIdTSS_instance t g = ((i, s), g')"
  shows "gen_inv (Suc n) g' \<and> advances t 0 g g' \<and> tid_of t g' = Some i \<and> al_find (tss g') t = Some (i, s) \<and> unat s = tss_of t g"
proof -
  note e = EventIdTSS_instance_effect[OF assms]
  have "tid_of t' g' = Some j" if "tid_of t' g = Some j" for t' j
  proof -
    from that obtain x where "al_find (tss g) t' = Some x" "fst x = j" by (auto simp: tid_of_def)
    moreover from this(1) have "al_find (tss g') t' = Some x" using e by (cases x) simp
    ultimately show ?thesis by (simp add: tid_of_def)
  qed
  with e show ?thesis by (simp add: advances_def tid_of_def)
qed

lemma gen_inv_set:
  assumes inv: "gen_inv n g" and f: "al_find (tss g) t = Some (i, s)" and s': "unat s' \<le> n"
  shows "gen_inv n (g\<lparr>tss := al_assign t (i, s') (tss g)\<rparr>)"
  using inv f s' unfolding gen_inv_def by (auto split: if_splits)

lemma nextSequenceId_advances:
  assumes inv: "gen_inv n g" and n: "Suc n < 2 ^ 63" and res: "nextSequenceId t g = (q, g')"
  shows "gen_inv (n + 2) g' \<and> advances t 1 g g' \<and> unat q = Suc (tss_of t g)"
proof -
  obtain i s g1 where e: "EventIdTSS_instance t g = ((i, s), g1)" by (metis prod.exhaust)
  with res have g': "q = s + 1" "g' = g1\<lparr>tss := al_assign t (i, s + 1) (tss g1)\<rparr>"
    by (auto simp: nextSequenceId_def)
  have a: "gen_inv (Suc n) g1" "advances t 0 g g1" "tid_of t g1 = Some i" "al_find (tss g1) t = Some (i, s)" "unat s = tss_of t g"
    using instance_advances[OF inv _ e] n by simp_all
  then have "unat s \<le> Suc n" unfolding gen_inv_def by blast
  then have q: "unat (s + 1) = Suc (unat s)" using n by (intro unat_Suc[of _ "Suc n"]) simp_all
  have "gen_inv (n + 2) g'" unfolding g'
    by (rule gen_inv_set[OF gen_inv_mono[OF a(1)] a(4)]) (use q \<open>unat s \<le> Suc n\<close> in simp_all)
  moreover have "advances t 1 g1 g'"
    using a(4) q by (auto simp: advances_def g' tss_of_def tid_of_def)
  ultimately show ?thesis using advances_trans[OF a(2), of 1 g'] a(5) q by (simp add: g')
qed

lemma reserve_advances:
  assumes "gen_inv n g" "n + 2 * r < 2 ^ 63"
  shows "gen_inv (n + 2 * r) ((skipSequenceId t ^^ r) g) \<and>
    (0 < r \<longrightarrow> advances t r g ((skipSequenceId t ^^ r) g))"
  using assms(2)
proof (induction r)
  case (Suc r)
  let ?g = "(skipSequenceId t ^^ r) g"
  have IH: "gen_inv (n + 2 * r) ?g" "0 < r \<longrightarrow> advances t r g ?g"
    using Suc by simp_all
  obtain q g' where q: "nextSequenceId t ?g = (q, g')" by (metis prod.exhaust)
  then have g': "skipSequenceId t ?g = g'" by (simp add: skipSequenceId_def)
  have s: "gen_inv (n + 2 * r + 2) g'" "advances t 1 ?g g'"
    using nextSequenceId_advances[OF IH(1) _ q] Suc.prems by simp_all
  have "advances t (Suc r) g g'"
    using IH(2) s(2) advances_trans[of t r g ?g 1 g'] by (cases "r = 0") simp_all
  with s(1) g' show ?case by simp
qed (use assms(1) in simp)

lemma new_EventId_advances:
  assumes inv: "gen_inv n g" and n: "n + 3 + 2 * r < 2 ^ 63" and res: "new_EventId junk t True r full g = (ev, g')"
  shows "gen_inv (n + 3 + 2 * r) g' \<and> advances t (of_bool (\<not> full) + r) g g' \<and> tid_of t g' = Some (ev_threadId ev) \<and>
    unat (ev_sequenceId ev) = tss_of t g + of_bool (\<not> full)"
proof -
  obtain i s g1 where e: "EventIdTSS_instance t g = ((i, s), g1)" by (metis prod.exhaust)
  have a: "gen_inv (Suc n) g1" "advances t 0 g g1" "tid_of t g1 = Some i" "al_find (tss g1) t = Some (i, s)" "unat s = tss_of t g"
    using instance_advances[OF inv _ e] n by simp_all
  then have old: "tss_of t g1 = tss_of t g" by (simp add: advances_def)
  have "\<exists>q g2. ev_threadId ev = i \<and> ev_sequenceId ev = q \<and> g' = (skipSequenceId t ^^ r) g2 \<and> gen_inv (n + 3) g2 \<and>
    advances t (of_bool (\<not> full)) g1 g2 \<and> unat q = tss_of t g1 + of_bool (\<not> full) \<and> tid_of t g2 = Some i"
  proof (cases full)
    case True
    from a(4) have "EventIdTSS_instance t g1 = ((i, s), g1)" by (simp add: EventIdTSS_instance_def)
    with res e True have r: "ev_threadId ev = i" "ev_sequenceId ev = s" "g' = (skipSequenceId t ^^ r) g1"
      by (auto simp: new_EventId_def initFromTSS_SameThreadIdAndSameSequenceId_def tss_threadId_def currentSequenceId_def)
    moreover have "gen_inv (n + 3) g1" using a(1) by (rule gen_inv_mono) simp
    moreover have "advances t 0 g1 g1" using a(3) by (simp add: advances_def)
    ultimately show ?thesis using True a(3,5) old by auto
  next
    case False
    obtain q g2 where q: "nextSequenceId t g1 = (q, g2)" by (metis prod.exhaust)
    from res e q False have r: "ev_threadId ev = i" "ev_sequenceId ev = q" "g' = (skipSequenceId t ^^ r) g2"
      by (auto simp: new_EventId_def initFromTSS_def tss_threadId_def)
    have three: "n + 3 = Suc n + 2" by simp
    have b: "gen_inv (n + 3) g2" "advances t 1 g1 g2" "unat q = Suc (tss_of t g1)"
      unfolding three using nextSequenceId_advances[OF a(1) _ q] n by auto
    from b(2) a(3) have "tid_of t g2 = Some i" by (auto simp: advances_def)
    with b r False show ?thesis by auto
  qed
  then obtain q g2 where r: "ev_threadId ev = i" "ev_sequenceId ev = q" "g' = (skipSequenceId t ^^ r) g2"
    and b: "gen_inv (n + 3) g2" "advances t (of_bool (\<not> full)) g1 g2" "unat q = tss_of t g1 + of_bool (\<not> full)"
      "tid_of t g2 = Some i" by blast
  have c: "gen_inv (n + 3 + 2 * r) g'" "0 < r \<longrightarrow> advances t r g2 g'"
    using reserve_advances[OF b(1), of r t] n by (simp_all add: r)
  have ab: "advances t (of_bool (\<not> full)) g g2" using advances_trans[OF a(2) b(2)] by simp
  have "advances t (of_bool (\<not> full) + r) g g'"
    using c(2) ab advances_trans[OF ab, of r g'] by (cases "r = 0") (simp_all add: r)
  moreover have "tid_of t g' = Some i"
    using b(4) c(2) by (cases "r = 0") (auto simp: advances_def r)
  ultimately show ?thesis using b(3) c(1) old by (simp add: r)
qed

section \<open>Lookups in the map\<close>

lemma EventSource_eq_sym: "EventSource_eq a b \<longleftrightarrow> EventSource_eq b a"
  by (auto simp: EventSource_eq_def split: option.splits)

lemma EventSource_eq_trans: "EventSource_eq a b \<Longrightarrow> EventSource_eq b c \<Longrightarrow> EventSource_eq a c"
  by (auto simp: EventSource_eq_def split: option.splits)

lemma EventSource_eq_left: "EventSource_eq a b \<Longrightarrow> EventSource_eq a c \<longleftrightarrow> EventSource_eq b c"
  by (meson EventSource_eq_sym EventSource_eq_trans)

lemma find_assign:
  "map_option snd (find (\<lambda>p. EventSource_eq k (fst p)) (eim_assign key v ps)) =
   (if EventSource_eq k key then Some v else map_option snd (find (\<lambda>p. EventSource_eq k (fst p)) ps))"
proof (induction ps)
  case (Cons p ps)
  have "EventSource_eq key (fst p) \<Longrightarrow> EventSource_eq k (fst p) \<longleftrightarrow> EventSource_eq k key"
    "EventSource_eq k (fst p) \<Longrightarrow> EventSource_eq k key \<Longrightarrow> EventSource_eq key (fst p)"
    by (meson EventSource_eq_sym EventSource_eq_trans)+
  with Cons show ?case by (cases p) auto
qed simp

lemma eim_find_assign:
  "eim_find k (m\<lparr>eim_map := eim_assign key v (eim_map m)\<rparr>) = (if EventSource_eq k key then Some v else eim_find k m)"
  by (simp add: eim_find_def find_assign)

lemma put_eim_cases:
  "put_eim now key v True m =
   (if isDuplicate key v m then (False, m)
    else (True, m\<lparr>eim_map := eim_assign key (touch_sequence now (m_expiry m) v) (eim_map m)\<rparr>))"
  by (simp add: put_eim_def isDuplicate_def EventSequence_le_def touch_sequence_def Let_def split: option.splits)

section \<open>Sources of event ids\<close>

text \<open>An event id with a client id that fits.\<close>

definition named_event :: "event_id \<Rightarrow> bool" where
  "named_event ev \<longleftrightarrow> event_id_ok ev \<and> 0 < unat (ev_clientIdLength ev)"

definition same_source :: "event_id \<Rightarrow> event_id \<Rightarrow> bool" where
  "same_source a b \<longleftrightarrow> client_bytes a = client_bytes b \<and> ev_threadId a = ev_threadId b"

definition source_of :: "event_id \<Rightarrow> event_source" where
  "source_of ev = \<lparr>m_srcId = Some (client_bytes ev @ rev (bytes64 (ev_threadId ev))),
     m_srcIdLen = ev_clientIdLength ev + 8, m_thrId = ev_threadId ev\<rparr>"

lemma bytes64_inject: "bytes64 a = bytes64 b \<longleftrightarrow> a = b"
proof
  assume "bytes64 a = bytes64 b"
  then have "consumes readInt64 (bytes64 a) b" using consumes_readInt64[of b] by simp
  let ?i = "new_DataInput (bytes64 a) 8"
  have "in_inv ?i" "unread ?i = bytes64 a @ []" by (simp_all add: in_inv_def unread_def new_DataInput_def)
  from consumesD[OF consumes_readInt64 this] consumesD[OF \<open>consumes readInt64 (bytes64 a) b\<close> this]
  show "a = b" by simp
qed simp

lemma make_eim_named:
  assumes "named_event ev"
  shows "make_eim now ev = Inr (source_of ev, new_EventSequence now (ev_sequenceId ev))"
proof -
  let ?n = "ev_clientIdLength ev"
  have "unat ?n < 2 ^ 31" "0 < unat ?n" using assms by (simp_all add: named_event_def event_id_ok_def)
  from this(1) have "sint ?n = int (unat ?n)" using sint_of_nat_u32[of "unat ?n"] by simp
  with \<open>0 < unat ?n\<close> have "\<not> sint ?n \<le> 0" by linarith
  then show ?thesis
    using assms by (simp add: make_eim_def new_EventSource_def source_of_def client_bytes_def named_event_def event_id_ok_def)
qed

lemma source_of_eq:
  assumes "named_event a" "named_event b"
  shows "EventSource_eq (source_of a) (source_of b) \<longleftrightarrow> same_source a b"
proof -
  have len: "length (client_bytes e) = unat (ev_clientIdLength e)" "unat (ev_clientIdLength e + 8) = unat (ev_clientIdLength e) + 8"
    if "named_event e" for e
  proof -
    show "length (client_bytes e) = unat (ev_clientIdLength e)"
      using that by (simp add: named_event_def client_bytes_length)
    show "unat (ev_clientIdLength e + 8) = unat (ev_clientIdLength e) + 8"
      using that by (simp add: named_event_def event_id_ok_def unat_plus_if_size word_size)
  qed
  have "take (unat (ev_clientIdLength e + 8)) (client_bytes e @ rev (bytes64 (ev_threadId e))) =
      client_bytes e @ rev (bytes64 (ev_threadId e))" if "named_event e" for e
    using len[OF that] by simp
  note t = this
  show ?thesis
  proof (cases "ev_clientIdLength a = ev_clientIdLength b")
    case True
    then have "length (client_bytes a) = length (client_bytes b)" using len assms by simp
    then show ?thesis
      using True t[OF assms(1)] t[OF assms(2)]
      by (auto simp: EventSource_eq_def source_of_def same_source_def bytes64_inject)
  next
    case False
    then have "client_bytes a \<noteq> client_bytes b"
      using len(1)[OF assms(1)] len(1)[OF assms(2)] by (metis word_unat_eq_iff)
    with False show ?thesis by (simp add: EventSource_eq_def source_of_def same_source_def)
  qed
qed

section \<open>The filter\<close>

lemma same_source_refl [simp]: "same_source a a"
  by (simp add: same_source_def)

lemma checkDupAndAdd_named:
  "named_event ev \<Longrightarrow> checkDupAndAdd now ev m =
     Inr (put_eim now (source_of ev) (new_EventSequence now (ev_sequenceId ev)) True m)"
  by (simp add: checkDupAndAdd_def make_eim_named)

lemma fold_erase: "fold (\<lambda>e. eim_erase (fst e)) es ps = filter (\<lambda>p. \<not> (\<exists>e \<in> set es. EventSource_eq (fst e) (fst p))) ps"
  by (induction es arbitrary: ps) (auto simp: eim_erase_def intro: filter_cong)

text \<open>No two entries of the map have equal sources; null sources equal none.\<close>

fun eim_distinct :: "(event_source \<times> event_sequence) list \<Rightarrow> bool" where
  "eim_distinct [] = True"
| "eim_distinct (p # ps) = ((\<forall>q \<in> set ps. \<not> EventSource_eq (fst p) (fst q)) \<and> eim_distinct ps)"

lemma eim_distinct_unique:
  "eim_distinct ps \<Longrightarrow> p \<in> set ps \<Longrightarrow> q \<in> set ps \<Longrightarrow> EventSource_eq (fst p) (fst q) \<Longrightarrow> p = q"
  by (induction ps) (auto dest: EventSource_eq_sym[THEN iffD1])

lemma eim_distinct_values: "map fst ps = map fst qs \<Longrightarrow> eim_distinct ps = eim_distinct qs"
proof (induction ps arbitrary: qs)
  case (Cons p ps)
  then obtain q qs' where qs: "qs = q # qs'" "fst p = fst q" "map fst ps = map fst qs'" by (cases qs) auto
  have "fst ` set ps = fst ` set qs'" using qs(3) by (metis list.set_map)
  then have "(\<forall>x \<in> set ps. \<not> EventSource_eq (fst q) (fst x)) = (\<forall>x \<in> set qs'. \<not> EventSource_eq (fst q) (fst x))"
    by (metis (no_types, lifting) image_iff)
  with Cons.IH[OF qs(3)] show ?case by (simp add: qs)
qed simp

lemma eim_distinct_filter: "eim_distinct ps \<Longrightarrow> eim_distinct (filter P ps)"
  by (induction ps) auto

lemma eim_distinct_assign:
  "eim_distinct ps \<Longrightarrow> eim_distinct (eim_assign key v ps) \<and> fst ` set (eim_assign key v ps) \<subseteq> insert key (fst ` set ps)"
proof (induction ps)
  case (Cons p ps)
  show ?case
  proof (cases "EventSource_eq key (fst p)")
    case False
    then have "\<not> EventSource_eq (fst p) key" by (simp add: EventSource_eq_sym)
    with Cons False show ?thesis by (auto 4 3 simp: image_iff)
  qed (use Cons in auto)
qed simp

text \<open>
  What the acknowledgement and expiry keep of a map: every source is still found with the sequence number and
  deadline it had, or had a deadline before the given time.
\<close>

definition same_entry :: "event_sequence \<Rightarrow> event_sequence \<Rightarrow> bool" where
  "same_entry v v' \<longleftrightarrow> m_seqNum v' = m_seqNum v \<and> m_deadline v' = m_deadline v"

definition ages :: "int \<Rightarrow> event_id_map \<Rightarrow> event_id_map \<Rightarrow> bool" where
  "ages now m m' \<longleftrightarrow>
     m_expiry m' = m_expiry m \<and> (eim_distinct (eim_map m) \<longrightarrow> eim_distinct (eim_map m')) \<and>
     (eim_distinct (eim_map m) \<longrightarrow>
       (\<forall>k. case eim_find k m' of
          None \<Rightarrow> (\<forall>v. eim_find k m = Some v \<longrightarrow> m_deadline v < now)
        | Some v' \<Rightarrow> (\<exists>v. eim_find k m = Some v \<and> same_entry v v')))"

lemma ages_lookup:
  assumes "ages now m m'" "eim_distinct (eim_map m)"
  shows "case eim_find k m' of None \<Rightarrow> (\<forall>v. eim_find k m = Some v \<longrightarrow> m_deadline v < now)
    | Some v' \<Rightarrow> (\<exists>v. eim_find k m = Some v \<and> same_entry v v')"
  using assms by (simp add: ages_def)

lemma ages_refl [simp]: "ages now m m"
  by (auto simp: ages_def same_entry_def split: option.splits)

lemma ages_trans:
  assumes "ages now m m1" "ages now m1 m2"
  shows "ages now m m2"
  unfolding ages_def
proof (intro conjI impI allI)
  assume d: "eim_distinct (eim_map m)"
  then have d1: "eim_distinct (eim_map m1)" using assms(1) by (simp add: ages_def)
  fix k
  from ages_lookup[OF assms(1) d, of k] ages_lookup[OF assms(2) d1, of k] show "case eim_find k m2 of None \<Rightarrow> (\<forall>v. eim_find k m = Some v \<longrightarrow> m_deadline v < now)
      | Some v' \<Rightarrow> (\<exists>v. eim_find k m = Some v \<and> same_entry v v')"
    by (cases "eim_find k m1"; cases "eim_find k m2") (auto simp: same_entry_def)
qed (use assms in \<open>auto simp: ages_def\<close>)

lemma find_values:
  "find (\<lambda>p. EventSource_eq k (fst p)) (map (\<lambda>(a, v). (a, f a v)) ps) =
   map_option (\<lambda>(a, v). (a, f a v)) (find (\<lambda>p. EventSource_eq k (fst p)) ps)"
  by (induction ps) auto

lemma ages_getUnAcked: "ages now m (snd (getUnAcked m))"
proof -
  let ?ps = "map (\<lambda>(k, v). (k, v\<lparr>m_acked := True\<rparr>)) (eim_map m)"
  have "map fst ?ps = map fst (eim_map m)" by (simp add: case_prod_beta o_def)
  note d = eim_distinct_values[OF this]
  have "eim_find k (m\<lparr>eim_map := ?ps\<rparr>) = map_option (\<lambda>v. v\<lparr>m_acked := True\<rparr>) (eim_find k m)" for k
    using find_values[of k "\<lambda>_ v. v\<lparr>m_acked := True\<rparr>" "eim_map m"]
    by (cases "find (\<lambda>p. EventSource_eq k (fst p)) (eim_map m)") (auto simp: eim_find_def)
  then show ?thesis
    by (auto simp: ages_def getUnAcked_def d same_entry_def split: option.splits)
qed

lemma eim_find_cong: "EventSource_eq a b \<Longrightarrow> eim_find a m = eim_find b m"
  unfolding eim_find_def using EventSource_eq_left by (metis (mono_tags, lifting))

lemma ages_clearAckedFlags: "ages now m (snd (clearAckedFlags es m))"
proof (induction es arbitrary: m)
  case (Cons e es)
  show ?case
  proof (cases "eim_find (fst e) m")
    case None
    with Cons show ?thesis by simp
  next
    case (Some old)
    let ?m1 = "m\<lparr>eim_map := eim_assign (fst e) (old\<lparr>m_acked := False\<rparr>) (eim_map m)\<rparr>"
    have "eim_find k ?m1 = (if EventSource_eq k (fst e) then Some (old\<lparr>m_acked := False\<rparr>) else eim_find k m)" for k
      by (simp add: eim_find_assign)
    moreover have "eim_find k m = Some old" if "EventSource_eq k (fst e)" for k
      using that Some eim_find_cong by simp
    ultimately have "ages now m ?m1"
      using eim_distinct_assign[of "eim_map m" "fst e" "old\<lparr>m_acked := False\<rparr>"]
      by (simp add: ages_def same_entry_def split: option.splits)
    from ages_trans[OF this Cons.IH] Some show ?thesis by (simp add: case_prod_beta)
  qed
qed simp

lemma find_filter_distinct:
  "eim_distinct ps \<Longrightarrow> find (\<lambda>p. EventSource_eq k (fst p)) (filter P ps) =
     (case find (\<lambda>p. EventSource_eq k (fst p)) ps of Some p \<Rightarrow> if P p then Some p else None | None \<Rightarrow> None)"
proof (induction ps)
  case (Cons p ps)
  have "find (\<lambda>p. EventSource_eq k (fst p)) (filter P ps) = None" if "EventSource_eq k (fst p)"
    using Cons.prems that EventSource_eq_left[OF that] by (auto simp: find_None_iff)
  with Cons show ?case by simp
qed simp

definition expired :: "int \<Rightarrow> bool \<Rightarrow> event_sequence \<Rightarrow> bool" where
  "expired now onlyacked v \<longleftrightarrow> \<not> (onlyacked \<and> \<not> m_acked v) \<and> m_deadline v < now"

lemma ages_expire: "ages now m (snd (expire_eim now onlyacked m))"
proof -
  let ?es = "filter (\<lambda>(k, v). expired now onlyacked v) (eim_map m)"
  let ?P = "\<lambda>p. \<not> (\<exists>e \<in> set ?es. EventSource_eq (fst e) (fst p))"
  have m': "snd (expire_eim now onlyacked m) = m\<lparr>eim_map := filter ?P (eim_map m)\<rparr>"
    unfolding expire_eim_def fold_erase Let_def snd_conv expired_def ..
  have "case eim_find k (m\<lparr>eim_map := filter ?P (eim_map m)\<rparr>) of None \<Rightarrow> (\<forall>v. eim_find k m = Some v \<longrightarrow> m_deadline v < now)
      | Some v' \<Rightarrow> (\<exists>v. eim_find k m = Some v \<and> same_entry v v')" if d: "eim_distinct (eim_map m)" for k
  proof (cases "find (\<lambda>p. EventSource_eq k (fst p)) (eim_map m)")
    case None
    then show ?thesis by (simp add: eim_find_def find_filter_distinct[OF d])
  next
    case (Some p)
    then have p: "p \<in> set (eim_map m)" by (auto simp: find_Some_iff)
    show ?thesis
    proof (cases "?P p")
      case True
      then show ?thesis 
        using Some by (simp add: find_filter_distinct[OF d] same_entry_def eim_find_def del: bex_simps ball_simps set_filter)
    next
      case False
      then obtain e where e: "e \<in> set ?es" "EventSource_eq (fst e) (fst p)" by blast
      then have "e = p" using eim_distinct_unique[OF d _ p] by simp
      with e(1) have "m_deadline (snd p) < now" by (simp add: case_prod_beta expired_def)
      then show ?thesis
        using Some False by (simp add: find_filter_distinct[OF d] eim_find_def del: bex_simps ball_simps set_filter)
    qed
  qed
  then show ?thesis unfolding m' ages_def by (simp add: eim_distinct_filter)
qed

lemma ages_doPeriodicAck:
  assumes "doPeriodicAck junk send now st = Inr st'"
  shows "ages now (m_eventidmap st) (m_eventidmap st')"
proof -
  let ?m = "m_eventidmap st"
  let ?m1 = "snd (getUnAcked ?m)" and ?m2 = "snd (clearAckedFlags (fst (getUnAcked ?m)) (snd (getUnAcked ?m)))"
  have ages: "ages now ?m ?m1" "ages now ?m ?m2"
    by (rule ages_getUnAcked, rule ages_trans[OF ages_getUnAcked ages_clearAckedFlags])
  let ?r = "if m_HAenabled st \<and> m_nextAck st < now then
          let st1 = st\<lparr>m_nextAck := m_nextAck st + next_ack_inc st\<rparr>;
              (entries, m1) = getUnAcked (m_eventidmap st1)
          in if 0 < length entries then
               andThen
                 (case send of
                    Some request \<Rightarrow> andThen (periodicAck_ids junk entries) (\<lambda>ids. Inr (request ids))
                  | None \<Rightarrow> Inr False)
                 (\<lambda>acked. Inr (st1\<lparr>m_eventidmap := if acked then m1 else snd (clearAckedFlags entries m1)\<rparr>))
             else Inr (st1\<lparr>m_eventidmap := m1\<rparr>)
        else Inr st"
  from assms obtain st2 where r: "?r = Inr st2"
    and last: "Inr (st2\<lparr>m_eventidmap := snd (expire_eim now (m_HAenabled st2) (m_eventidmap st2))\<rparr>) = (Inr st' :: gf_exn + ack_state)"
    unfolding doPeriodicAck_def andThen_Inr_conv by blast
  from last have st': "m_eventidmap st' = snd (expire_eim now (m_HAenabled st2) (m_eventidmap st2))" by auto
  from r have st2: "m_eventidmap st2 = ?m \<or> m_eventidmap st2 = ?m1 \<or> m_eventidmap st2 = ?m2"
    by (auto simp: andThen_Inr_conv Let_def case_prod_beta split: if_splits)
  have "ages now ?m (m_eventidmap st2)" using st2 ages by (elim disjE) simp_all
  then show ?thesis unfolding st' by (rule ages_trans) (rule ages_expire)
qed

text \<open>
  The source of an event is recorded until a given time with at least the event's sequence number; and only
  sequence numbers of given events are recorded.
\<close>

definition remembers :: "int \<Rightarrow> event_id \<Rightarrow> event_id_map \<Rightarrow> bool" where
  "remembers limit ev m \<longleftrightarrow> eim_distinct (eim_map m) \<and>
     (\<exists>v. eim_find (source_of ev) m = Some v \<and> sint (ev_sequenceId ev) \<le> sint (m_seqNum v) \<and> limit \<le> m_deadline v)"

definition knows_only :: "event_id set \<Rightarrow> event_id_map \<Rightarrow> bool" where
  "knows_only E m \<longleftrightarrow> eim_distinct (eim_map m) \<and>
     (\<forall>ev v. named_event ev \<longrightarrow> eim_find (source_of ev) m = Some v \<longrightarrow>
        (\<exists>e \<in> E. same_source e ev \<and> ev_sequenceId e = m_seqNum v))"

lemma remembers_ages: "remembers limit ev m \<Longrightarrow> ages now m m' \<Longrightarrow> now \<le> limit \<Longrightarrow> remembers limit ev m'"
  using ages_lookup[of now m m' "source_of ev"]
  by (cases "eim_find (source_of ev) m'") (auto simp: remembers_def ages_def[of _ _ m'] same_entry_def)

lemma knows_only_ages:
  assumes "knows_only E m" "ages now m m'"
  shows "knows_only E m'"
  unfolding knows_only_def
proof (intro conjI allI impI)
  show "eim_distinct (eim_map m')" using assms by (simp add: knows_only_def ages_def)
  fix ev v
  assume "named_event ev" "eim_find (source_of ev) m' = Some v"
  moreover from this obtain w where "eim_find (source_of ev) m = Some w" "same_entry w v"
    using ages_lookup[OF assms(2), of "source_of ev"] assms(1) by (auto simp: knows_only_def)
  ultimately show "\<exists>e \<in> E. same_source e ev \<and> ev_sequenceId e = m_seqNum v"
    using assms(1) by (simp add: knows_only_def same_entry_def)
qed

lemma remembers_duplicate:
  assumes "remembers limit e m" "named_event e" "named_event ev" "same_source e ev"
    and "sint (ev_sequenceId ev) \<le> sint (ev_sequenceId e)"
  shows "checkDupAndAdd now ev m = Inr (False, m)"
proof -
  have "EventSource_eq (source_of ev) (source_of e)"
    using source_of_eq[OF assms(3,2)] assms(4) by (simp add: same_source_def)
  then have "eim_find (source_of ev) m = eim_find (source_of e) m" by (rule eim_find_cong)
  with assms(1,5) show ?thesis
    by (auto simp: checkDupAndAdd_named[OF assms(3)] put_eim_cases remembers_def isDuplicate_def
        new_EventSequence_def EventSequence_le_def)
qed

text \<open>An unnamed event passes and leaves what is recorded of the others.\<close>

lemma checkDupAndAdd_unnamed:
  assumes "event_id_ok ev" "\<not> named_event ev"
  shows "\<exists>m'. checkDupAndAdd now ev m = Inr (True, m') \<and> m_expiry m' = m_expiry m \<and>
    (eim_distinct (eim_map m) \<longrightarrow> eim_distinct (eim_map m')) \<and> (\<forall>k. eim_find k m' = eim_find k m)"
proof -
  let ?k = "\<lparr>m_srcId = None, m_srcIdLen = 0, m_thrId = -1\<rparr>" and ?v = "new_EventSequence now (ev_sequenceId ev)"
  have "ev_clientIdLength ev = 0" using assms by (simp add: named_event_def unat_eq_zero)
  then have "make_eim now ev = Inr (?k, ?v)" by (simp add: make_eim_def new_EventSource_def)
  moreover have null: "\<not> EventSource_eq ?k k" "\<not> EventSource_eq k ?k" for k
    by (simp_all add: EventSource_eq_def split: option.splits)
  moreover have "eim_find ?k m = None" using null by (simp add: eim_find_def find_None_iff)
  ultimately show ?thesis
    using eim_distinct_assign[of "eim_map m" ?k]
    by (simp add: checkDupAndAdd_def put_eim_def eim_find_assign Let_def)
qed

lemma checkDupAndAdd_effect:
  assumes res: "checkDupAndAdd now ev m = Inr (new, m')" and ok: "event_id_ok ev"
  shows "m_expiry m' = m_expiry m"
    and "eim_distinct (eim_map m) \<Longrightarrow> new \<Longrightarrow> named_event ev \<Longrightarrow> remembers (now + m_expiry m) ev m'"
    and "remembers limit e m \<Longrightarrow> named_event e \<Longrightarrow> limit \<le> now + m_expiry m \<Longrightarrow> remembers limit e m'"
    and "knows_only E m \<Longrightarrow> knows_only (if new then insert ev E else E) m'"
    and "eim_distinct (eim_map m) \<Longrightarrow> eim_distinct (eim_map m')"
proof -
  let ?v = "new_EventSequence now (ev_sequenceId ev)" and ?k = "source_of ev"
  let ?v1 = "touch_sequence now (m_expiry m) ?v"
  have v1: "m_seqNum ?v1 = ev_sequenceId ev" "m_deadline ?v1 = now + m_expiry m"
    by (simp_all add: touch_sequence_def new_EventSequence_def)
  have put: "named_event ev \<Longrightarrow> (new, m') = (if isDuplicate ?k ?v m then (False, m)
      else (True, m\<lparr>eim_map := eim_assign ?k ?v1 (eim_map m)\<rparr>))"
    using res by (simp add: checkDupAndAdd_named put_eim_cases)
  have unnamed: "\<not> named_event ev \<Longrightarrow> m_expiry m' = m_expiry m \<and>
      (eim_distinct (eim_map m) \<longrightarrow> eim_distinct (eim_map m')) \<and> (\<forall>k. eim_find k m' = eim_find k m)"
    using checkDupAndAdd_unnamed[OF ok, of now m] res by auto
  note dist = eim_distinct_assign[of "eim_map m" ?k ?v1]
  show "eim_distinct (eim_map m')" if "eim_distinct (eim_map m)"
    using put unnamed dist that by (cases "named_event ev") (auto split: if_splits)
  show "m_expiry m' = m_expiry m"
    using put unnamed by (cases "named_event ev") (auto split: if_splits)
  show "remembers (now + m_expiry m) ev m'" if "eim_distinct (eim_map m)" "new" "named_event ev"
    using put that dist v1 source_of_eq[of ev ev] by (auto simp: remembers_def eim_find_assign split: if_splits)
  show "remembers limit e m'" if r: "remembers limit e m" and e: "named_event e" and l: "limit \<le> now + m_expiry m"
  proof (cases "named_event ev")
    case False
    with unnamed r show ?thesis by (auto simp: remembers_def)
  next
    case True
    show ?thesis
    proof (cases "EventSource_eq (source_of e) ?k \<and> \<not> isDuplicate ?k ?v m")
      case False
      with put[OF True] r dist show ?thesis by (auto simp: remembers_def eim_find_assign split: if_splits)
    next
      case upd: True
      then have "same_source e ev" using source_of_eq[OF e True] by simp
      then have "sint (ev_sequenceId e) \<le> sint (ev_sequenceId ev)"
        using remembers_duplicate[OF r e True, of now] res put[OF True] upd by (cases "sint (ev_sequenceId ev) \<le> sint (ev_sequenceId e)") auto
      with put[OF True] upd r dist v1 l show ?thesis by (auto simp: remembers_def eim_find_assign)
    qed
  qed
  show "knows_only (if new then insert ev E else E) m'" if k: "knows_only E m"
  proof (cases "named_event ev")
    case False
    with unnamed k show ?thesis by (auto simp: knows_only_def)
  next
    case True
    with put k dist v1 show ?thesis
      by (auto simp: knows_only_def eim_find_assign source_of_eq same_source_def split: if_splits)
  qed
qed

section \<open>Runs of the filter\<close>

text \<open>What happens to the map of a redundancy manager: an event arrives, or the periodic task runs.\<close>

datatype filter_step = Arrival event_id | PeriodicRun "(event_id list \<Rightarrow> bool) option"

text \<open>The result has the events that passed, with the times of their arrival.\<close>

fun filter_run ::
  "byte list \<Rightarrow> (int \<times> filter_step) list \<Rightarrow> ack_state \<Rightarrow> gf_exn + ((int \<times> event_id) list \<times> ack_state)" where
  "filter_run junk [] st = Inr ([], st)"
| "filter_run junk ((now, Arrival ev) # steps) st =
     andThen (checkDupAndAdd now ev (m_eventidmap st)) (\<lambda>(new, m).
     andThen (filter_run junk steps (st\<lparr>m_eventidmap := m\<rparr>)) (\<lambda>(passed, st').
       Inr (if new then (now, ev) # passed else passed, st')))"
| "filter_run junk ((now, PeriodicRun send) # steps) st =
     andThen (doPeriodicAck junk send now st) (\<lambda>st1. filter_run junk steps st1)"

definition arrivals_ok :: "(int \<times> filter_step) list \<Rightarrow> bool" where
  "arrivals_ok steps \<longleftrightarrow> (\<forall>(t, s) \<in> set steps. case s of Arrival ev \<Rightarrow> event_id_ok ev | PeriodicRun _ \<Rightarrow> True)"

lemma filter_run_distinct:
  assumes "filter_run junk steps st = Inr (passed, st')" "arrivals_ok steps"
  shows "m_expiry (m_eventidmap st') = m_expiry (m_eventidmap st)"
    and "knows_only E (m_eventidmap st) \<Longrightarrow> knows_only (E \<union> snd ` set passed) (m_eventidmap st')"
proof -
  have "m_expiry (m_eventidmap st') = m_expiry (m_eventidmap st) \<and>
    (knows_only E (m_eventidmap st) \<longrightarrow> knows_only (E \<union> snd ` set passed) (m_eventidmap st'))"
    using assms
  proof (induction junk steps st arbitrary: passed E rule: filter_run.induct)
    case (2 junk now ev steps st)
    from "2.prems"(1) obtain new m p where a: "checkDupAndAdd now ev (m_eventidmap st) = Inr (new, m)"
      "filter_run junk steps (st\<lparr>m_eventidmap := m\<rparr>) = Inr (p, st')" "passed = (if new then (now, ev) # p else p)"
      by (auto simp: andThen_Inr_conv)
    from "2.prems"(2) have ok: "event_id_ok ev" "arrivals_ok steps" by (auto simp: arrivals_ok_def)
    note e = checkDupAndAdd_effect[OF a(1) ok(1)]
    show ?case
      using "2.IH"[OF a(2) ok(2), of "if new then insert ev E else E"] e(1) e(4)[of E] a(3) by auto
  next
    case (3 junk now send steps st)
    from "3.prems"(1) obtain st1 where a: "doPeriodicAck junk send now st = Inr st1" "filter_run junk steps st1 = Inr (passed, st')"
      by (auto simp: andThen_Inr_conv)
    from "3.prems"(2) have ok: "arrivals_ok steps" by (simp add: arrivals_ok_def)
    note g = ages_doPeriodicAck[OF a(1)]
    show ?case using "3.IH"[OF a(2) ok, of E] knows_only_ages[OF _ g, of E] g by (auto simp: ages_def)
  qed simp
  then show "m_expiry (m_eventidmap st') = m_expiry (m_eventidmap st)"
    "knows_only E (m_eventidmap st) \<Longrightarrow> knows_only (E \<union> snd ` set passed) (m_eventidmap st')" by simp_all
qed

text \<open>Time does not run backwards, and until its time limit a recorded event stays recorded.\<close>

lemma filter_run_remembers:
  assumes "filter_run junk steps st = Inr (passed, st')" "arrivals_ok steps"
    and "\<forall>(t, s) \<in> set steps. t \<le> limit \<and> limit \<le> t + m_expiry (m_eventidmap st)"
    and "remembers limit e (m_eventidmap st)" "named_event e"
  shows "remembers limit e (m_eventidmap st')"
  using assms
proof (induction junk steps st arbitrary: passed rule: filter_run.induct)
  case (2 junk now ev steps st)
  from "2.prems"(1) obtain new m p where a: "checkDupAndAdd now ev (m_eventidmap st) = Inr (new, m)"
    "filter_run junk steps (st\<lparr>m_eventidmap := m\<rparr>) = Inr (p, st')"
    by (auto simp: andThen_Inr_conv)
  from "2.prems"(2) have ok: "event_id_ok ev" "arrivals_ok steps" by (auto simp: arrivals_ok_def)
  note f = checkDupAndAdd_effect[OF a(1) ok(1)]
  show ?case
    using "2.IH"[OF a(2) ok(2)] f(1) f(3)[OF "2.prems"(4,5)] "2.prems"(3,5) by simp
next
  case (3 junk now send steps st)
  from "3.prems"(1) obtain st1 where a: "doPeriodicAck junk send now st = Inr st1" "filter_run junk steps st1 = Inr (passed, st')"
    by (auto simp: andThen_Inr_conv)
  from "3.prems"(2) have ok: "arrivals_ok steps" by (simp add: arrivals_ok_def)
  note g = ages_doPeriodicAck[OF a(1)]
  show ?case
    using "3.IH"[OF a(2) ok] remembers_ages[OF "3.prems"(4) g] "3.prems"(3,5) g by (simp add: ages_def)
qed simp

text \<open>An event that passed is recorded until its tracking time is over.\<close>

lemma filter_run_passed:
  assumes "filter_run junk steps st = Inr (passed, st')" "arrivals_ok steps" "sorted (map fst steps)"
    and "\<forall>(t, s) \<in> set steps. t \<le> now" "eim_distinct (eim_map (m_eventidmap st))"
    and "(t, e) \<in> set passed" "named_event e" "now \<le> t + m_expiry (m_eventidmap st)"
  shows "remembers (t + m_expiry (m_eventidmap st)) e (m_eventidmap st')"
  using assms
proof (induction junk steps st arbitrary: passed rule: filter_run.induct)
  case (2 junk t0 ev steps st)
  from "2.prems"(1) obtain new m p where a: "checkDupAndAdd t0 ev (m_eventidmap st) = Inr (new, m)"
    "filter_run junk steps (st\<lparr>m_eventidmap := m\<rparr>) = Inr (p, st')" "passed = (if new then (t0, ev) # p else p)"
    by (auto simp: andThen_Inr_conv)
  from "2.prems"(2) have ok: "event_id_ok ev" "arrivals_ok steps" by (auto simp: arrivals_ok_def)
  note f = checkDupAndAdd_effect[OF a(1) ok(1)]
  note d = f(5)[OF "2.prems"(5)]
  show ?case
  proof (cases "(t, e) \<in> set p")
    case True
    with "2.IH"[OF a(2) ok(2) _ _ _ True] "2.prems"(3,4,7,8) f(1) d show ?thesis by simp
  next
    case False
    with "2.prems"(6) a(3) have te: "t = t0" "e = ev" "new" by (auto split: if_splits)
    have steps: "\<forall>(t', s) \<in> set steps. t' \<le> t + m_expiry (m_eventidmap st) \<and>
        t + m_expiry (m_eventidmap st) \<le> t' + m_expiry (m_eventidmap (st\<lparr>m_eventidmap := m\<rparr>))"
      using "2.prems"(3,4,8) f(1) te(1) by fastforce
    have "remembers (t + m_expiry (m_eventidmap st)) e (m_eventidmap (st\<lparr>m_eventidmap := m\<rparr>))"
      using f(2)[OF "2.prems"(5) te(3)] "2.prems"(7) te(1,2) by simp
    from filter_run_remembers[OF a(2) ok(2) steps this "2.prems"(7)] show ?thesis .
  qed
next
  case (3 junk t0 send steps st)
  from "3.prems"(1) obtain st1 where a: "doPeriodicAck junk send t0 st = Inr st1" "filter_run junk steps st1 = Inr (passed, st')"
    by (auto simp: andThen_Inr_conv)
  from "3.prems"(2) have ok: "arrivals_ok steps" by (simp add: arrivals_ok_def)
  note g = ages_doPeriodicAck[OF a(1)]
  show ?case using "3.IH"[OF a(2) ok] "3.prems"(3-8) g by (simp add: ages_def)
qed simp

definition event_a :: event_id where
  "event_a = \<lparr>ev_clientId = 65 # replicate 511 0, ev_clientIdLength = 1, ev_threadId = 4, ev_sequenceId = 7,
     ev_bucketId = 5, ev_breadcrumbCounter = 0\<rparr>"

lemma event_a_ok: "event_id_ok event_a" "named_event event_a" "client_bytes event_a = [65]"
  by (simp_all add: event_id_ok_def named_event_def event_a_def client_bytes_def)

section \<open>Properties\<close>



text \<open>
  An event id is read back from its wire form with the same client id, thread, sequence
  number, bucket and counter.
\<close>

lemma EventId_roundtrip:
  assumes "event_id_ok ev" "out_inv out" "ample (length (event_id_bytes ev)) out"
  shows "reads_back (toData_EventId ev) (event_id_bytes ev) (fromData_EventId ev0)
    (ev\<lparr>ev_clientId := client_bytes ev @ drop (length (client_bytes ev)) (ev_clientId ev0)\<rparr>) out"
  by (rule appends_consumes_roundtrip[OF appends_toData_EventId[OF assms(1)] consumes_fromData_EventId[OF assms(1)] assms(2,3)])

text \<open>
  A run of the constructor: each call names its thread, how many numbers it reserves, and the arguments
  \<open>doInit\<close> and \<open>fullValueAfterDeltaFail\<close>.
\<close>

record id_call =
  ic_thread :: nat
  ic_reserve :: nat
  ic_doInit :: bool
  ic_full :: bool

fun make_ids :: "byte list \<Rightarrow> id_call list \<Rightarrow> event_gen \<Rightarrow> event_id list \<times> event_gen" where
  "make_ids junk [] g = ([], g)"
| "make_ids junk (c # cs) g =
     (let (ev, g1) = new_EventId junk (ic_thread c) (ic_doInit c) (ic_reserve c) (ic_full c) g;
          (evs, g2) = make_ids junk cs g1 in (ev # evs, g2))"

definition fresh_gen :: event_gen where
  "fresh_gen = \<lparr>threadIdCounter = 0, tss = []\<rparr>"

text \<open>More numbers than the calls can use up.\<close>

definition ids_bound :: "id_call list \<Rightarrow> nat" where
  "ids_bound cs = sum_list (map (\<lambda>c. 3 + 2 * ic_reserve c) cs)"

text \<open>The thread makes no id in a part of the run.\<close>

definition idle :: "nat \<Rightarrow> id_call list \<Rightarrow> bool" where
  "idle t cs \<longleftrightarrow> (\<forall>c \<in> set cs. ic_doInit c \<longrightarrow> ic_thread c \<noteq> t)"

lemma gen_inv_fresh: "gen_inv 0 fresh_gen"
  by (simp add: gen_inv_def fresh_gen_def)

text \<open>What one call leaves, for both modes and for a call that does not initialise its object.\<close>

lemma id_call_effect:
  assumes inv: "gen_inv n g" and n: "n + (3 + 2 * ic_reserve c) < 2 ^ 63"
    and res: "new_EventId junk (ic_thread c) (ic_doInit c) (ic_reserve c) (ic_full c) g = (ev, g')"
  shows "gen_inv (n + (3 + 2 * ic_reserve c)) g' \<and> (\<forall>t i. tid_of t g = Some i \<longrightarrow> tid_of t g' = Some i) \<and>
    (\<forall>t. tss_of t g \<le> tss_of t g') \<and> (\<forall>t. idle t [c] \<longrightarrow> tss_of t g' = tss_of t g) \<and>
    (ic_doInit c \<longrightarrow> tid_of (ic_thread c) g' = Some (ev_threadId ev) \<and>
       unat (ev_sequenceId ev) = tss_of (ic_thread c) g + of_bool (\<not> ic_full c) \<and>
       tss_of (ic_thread c) g' = unat (ev_sequenceId ev) + ic_reserve c)"
proof (cases "ic_doInit c")
  case False
  with res have "g' = g" by (auto simp: new_EventId_def)
  with False gen_inv_mono[OF inv, of "n + (3 + 2 * ic_reserve c)"] show ?thesis by simp
next
  case True
  note e = new_EventId_advances[OF inv, of "ic_reserve c" junk "ic_thread c" "ic_full c" ev g']
  from e n res True have a: "gen_inv (n + 3 + 2 * ic_reserve c) g'"
    "advances (ic_thread c) (of_bool (\<not> ic_full c) + ic_reserve c) g g'"
    "tid_of (ic_thread c) g' = Some (ev_threadId ev)"
    "unat (ev_sequenceId ev) = tss_of (ic_thread c) g + of_bool (\<not> ic_full c)" by simp_all
  have "tss_of t g \<le> tss_of t g'" for t using a(2) by (cases "t = ic_thread c") (simp_all add: advances_def)
  with a True show ?thesis by (auto simp: advances_def idle_def add.assoc)
qed

lemma make_ids_effect:
  assumes "gen_inv n g" "n + ids_bound cs < 2 ^ 63" "make_ids junk cs g = (evs, g')"
  shows "length evs = length cs \<and> gen_inv (n + ids_bound cs) g' \<and>
    (\<forall>t i. tid_of t g = Some i \<longrightarrow> tid_of t g' = Some i) \<and>
    (\<forall>j < length cs. ic_doInit (cs ! j) \<longrightarrow>
       tid_of (ic_thread (cs ! j)) g' = Some (ev_threadId (evs ! j)) \<and>
       tss_of (ic_thread (cs ! j)) g + of_bool (\<not> ic_full (cs ! j)) \<le> unat (ev_sequenceId (evs ! j)) \<and>
       (idle (ic_thread (cs ! j)) (take j cs) \<longrightarrow>
          unat (ev_sequenceId (evs ! j)) = tss_of (ic_thread (cs ! j)) g + of_bool (\<not> ic_full (cs ! j))))"
  using assms
proof (induction cs arbitrary: n g evs g')
  case (Cons c cs)
  obtain ev g1 where e: "new_EventId junk (ic_thread c) (ic_doInit c) (ic_reserve c) (ic_full c) g = (ev, g1)"
    by (metis prod.exhaust)
  obtain es g2 where m: "make_ids junk cs g1 = (es, g2)" by (metis prod.exhaust)
  from Cons.prems e m have r: "evs = ev # es" "g' = g2" by auto
  have bound: "ids_bound (c # cs) = (3 + 2 * ic_reserve c) + ids_bound cs" by (simp add: ids_bound_def)
  have s: "gen_inv (n + (3 + 2 * ic_reserve c)) g1" "\<forall>t i. tid_of t g = Some i \<longrightarrow> tid_of t g1 = Some i"
    "\<forall>t. tss_of t g \<le> tss_of t g1" "\<forall>t. idle t [c] \<longrightarrow> tss_of t g1 = tss_of t g"
    "ic_doInit c \<longrightarrow> tid_of (ic_thread c) g1 = Some (ev_threadId ev) \<and>
       unat (ev_sequenceId ev) = tss_of (ic_thread c) g + of_bool (\<not> ic_full c) \<and>
       tss_of (ic_thread c) g1 = unat (ev_sequenceId ev) + ic_reserve c"
    using id_call_effect[OF Cons.prems(1) _ e] Cons.prems(2) unfolding bound by simp_all
  have IH: "length es = length cs \<and> gen_inv (n + (3 + 2 * ic_reserve c) + ids_bound cs) g2 \<and>
    (\<forall>t i. tid_of t g1 = Some i \<longrightarrow> tid_of t g2 = Some i) \<and>
    (\<forall>j < length cs. ic_doInit (cs ! j) \<longrightarrow>
       tid_of (ic_thread (cs ! j)) g2 = Some (ev_threadId (es ! j)) \<and>
       tss_of (ic_thread (cs ! j)) g1 + of_bool (\<not> ic_full (cs ! j)) \<le> unat (ev_sequenceId (es ! j)) \<and>
       (idle (ic_thread (cs ! j)) (take j cs) \<longrightarrow>
          unat (ev_sequenceId (es ! j)) = tss_of (ic_thread (cs ! j)) g1 + of_bool (\<not> ic_full (cs ! j))))"
    using Cons.IH[OF s(1) _ m] Cons.prems(2) unfolding bound by (simp add: add.assoc)
  show ?case
    unfolding r bound
  proof (intro conjI allI impI)
    fix j assume j: "j < length (c # cs)" and init: "ic_doInit ((c # cs) ! j)"
    show "tid_of (ic_thread ((c # cs) ! j)) g2 = Some (ev_threadId ((ev # es) ! j))"
      using IH s(5) j init by (cases j) auto
    show "tss_of (ic_thread ((c # cs) ! j)) g + of_bool (\<not> ic_full ((c # cs) ! j)) \<le> unat (ev_sequenceId ((ev # es) ! j))"
    proof (cases j)
      case (Suc j')
      then have "tss_of (ic_thread (cs ! j')) g1 + of_bool (\<not> ic_full (cs ! j')) \<le> unat (ev_sequenceId (es ! j'))"
        using IH j init by simp
      with s(3) Suc show ?thesis by (metis add_le_mono1 le_trans nth_Cons_Suc)
    qed (use s(5) init in simp)
    assume idle: "idle (ic_thread ((c # cs) ! j)) (take j (c # cs))"
    show "unat (ev_sequenceId ((ev # es) ! j)) = tss_of (ic_thread ((c # cs) ! j)) g + of_bool (\<not> ic_full ((c # cs) ! j))"
    proof (cases j)
      case (Suc j')
      with idle have "idle (ic_thread (cs ! j')) [c]" "idle (ic_thread (cs ! j')) (take j' cs)"
        by (auto simp: idle_def)
      with IH j init s(4) Suc show ?thesis by simp
    qed (use s(5) init in simp)
  qed (use IH s(2) in \<open>auto simp: add.assoc\<close>)
qed (simp add: ids_bound_def)

lemma make_ids_append:
  "make_ids junk (cs @ ds) g = (let (evs, g1) = make_ids junk cs g; (es, g2) = make_ids junk ds g1 in (evs @ es, g2))"
  by (induction cs arbitrary: g) (auto simp: Let_def split: prod.splits)


definition small_calls :: "id_call list" where
  "small_calls =
     [\<lparr>ic_thread = 0, ic_reserve = 3, ic_doInit = True, ic_full = False\<rparr>,
      \<lparr>ic_thread = 1, ic_reserve = 0, ic_doInit = True, ic_full = False\<rparr>,
      \<lparr>ic_thread = 0, ic_reserve = 0, ic_doInit = True, ic_full = False\<rparr>,
      \<lparr>ic_thread = 0, ic_reserve = 0, ic_doInit = True, ic_full = True\<rparr>]"


section \<open>Acknowledgement\<close>

text \<open>Sources in the map are pairwise different and none is null.\<close>

fun eim_wf :: "(event_source \<times> event_sequence) list \<Rightarrow> bool" where
  "eim_wf [] = True"
| "eim_wf (p # ps) =
     (EventSource_eq (fst p) (fst p) \<and> (\<forall>q \<in> set ps. \<not> EventSource_eq (fst p) (fst q)) \<and> eim_wf ps)"

lemma eim_wf_unique:
  "eim_wf ps \<Longrightarrow> (k, v) \<in> set ps \<Longrightarrow> (k', v') \<in> set ps \<Longrightarrow> EventSource_eq k k' \<Longrightarrow> k = k' \<and> v = v'"
proof (induction ps)
  case (Cons p ps)
  then show ?case using EventSource_eq_sym by (cases p) auto
qed simp

lemma eim_wf_refl: "eim_wf ps \<Longrightarrow> (k, v) \<in> set ps \<Longrightarrow> EventSource_eq k k"
  by (induction ps) auto

lemma eim_wf_map: "eim_wf ps \<Longrightarrow> eim_wf (map (\<lambda>(k, v). (k, f k v)) ps)"
  by (induction ps) auto

text \<open>Setting the entry of a source that is there.\<close>

lemma eim_assign_found:
  assumes "eim_wf ps" "find (\<lambda>p. EventSource_eq key (fst p)) ps = Some (k, old)"
  shows "eim_assign key (f old) ps = map (\<lambda>(k, v). (k, if EventSource_eq key k then f v else v)) ps"
  using assms
proof (induction ps)
  case (Cons p ps)
  show ?case
  proof (cases "EventSource_eq key (fst p)")
    case True
    with Cons.prems have "\<forall>q \<in> set ps. \<not> EventSource_eq key (fst q)" using EventSource_eq_left by auto
    then have "map (\<lambda>(k, v). (k, if EventSource_eq key k then f v else v)) ps = ps"
      by (intro map_idI) auto
    with True Cons.prems show ?thesis by (cases p) simp
  next
    case False
    with Cons show ?thesis by (cases p) simp
  qed
qed simp

lemma eim_not_found:
  "find (\<lambda>p. EventSource_eq key (fst p)) ps = None \<Longrightarrow>
   map (\<lambda>(k, v). (k, if EventSource_eq key k then f v else v)) ps = ps"
  by (intro map_idI) (auto simp: find_None_iff)

lemma clearAckedFlags_map:
  "eim_wf (eim_map m) \<Longrightarrow> eim_map (snd (clearAckedFlags es m)) =
   map (\<lambda>(k, v). (k, if \<exists>e \<in> set es. EventSource_eq (fst e) k then v\<lparr>m_acked := False\<rparr> else v)) (eim_map m)"
proof (induction es arbitrary: m)
  case Nil
  then show ?case by (simp add: case_prod_beta)
next
  case (Cons e es)
  let ?f = "\<lambda>v. v\<lparr>m_acked := False\<rparr>"
  let ?ps = "map (\<lambda>(k, v). (k, if EventSource_eq (fst e) k then ?f v else v)) (eim_map m)"
  have wf: "eim_wf ?ps" using eim_wf_map[OF Cons.prems, of "\<lambda>k v. if EventSource_eq (fst e) k then ?f v else v"] by simp
  have "eim_map (snd (clearAckedFlags (e # es) m)) = eim_map (snd (clearAckedFlags es (m\<lparr>eim_map := ?ps\<rparr>)))"
  proof (cases "find (\<lambda>p. EventSource_eq (fst e) (fst p)) (eim_map m)")
    case None
    with eim_not_found[OF None, of ?f] show ?thesis by (simp add: eim_find_def)
  next
    case (Some p)
    obtain k old where "p = (k, old)" by (cases p)
    with Some eim_assign_found[OF Cons.prems, of "fst e" k old ?f] show ?thesis
      by (simp add: eim_find_def case_prod_beta)
  qed
  also have "\<dots> = map (\<lambda>(k, v). (k, if \<exists>e \<in> set es. EventSource_eq (fst e) k then ?f v else v)) ?ps"
    using Cons.IH[of "m\<lparr>eim_map := ?ps\<rparr>"] wf by simp
  finally show ?case by (simp add: case_prod_beta o_def)
qed

lemma expire_keeps:
  assumes "eim_wf (eim_map m)" "(k, v) \<in> set (eim_map m)" "onlyacked" "\<not> m_acked v"
  shows "(k, v) \<in> set (eim_map (snd (expire_eim now onlyacked m)))"
proof -
  have "\<not> EventSource_eq k' k" if "(k', v') \<in> set (eim_map m)" "m_acked v'" for k' v'
    using eim_wf_unique[OF assms(1) that(1) assms(2)] that(2) assms(4) by auto
  with assms show ?thesis by (auto simp: expire_eim_def fold_erase Let_def)
qed

lemma periodicAck_ids_mem:
  assumes "periodicAck_ids junk es = Inr ids" "(src, sq) \<in> set es"
  shows "\<exists>eid \<in> set ids. ev_threadId eid = m_thrId src \<and> ev_sequenceId eid = m_seqNum sq"
  using assms
proof (induction es arbitrary: ids)
  case (Cons e es)
  obtain src' sq' where e: "e = (src', sq')" by (cases e)
  with Cons.prems obtain eid ids' where i: "ids = eid # ids'" "periodicAck_ids junk es = Inr ids'"
    "create_EventId junk (m_srcId src') (getMemIdLen src') (m_thrId src') (m_seqNum sq') = Inr eid"
    by (auto simp: andThen_Inr_conv)
  from i(3) have "ev_threadId eid = m_thrId src'" "ev_sequenceId eid = m_seqNum sq'"
    by (auto simp: create_EventId_def Let_def split: if_splits)
  with Cons.IH[OF i(2)] Cons.prems(2) i(1) e show ?case by auto
qed simp

text \<open>
  C25. With redundancy enabled a notification is forgotten only after it was acknowledged: an
  unacknowledged entry is still in the map after a periodic acknowledgement, unchanged and
  unacknowledged, unless the server replied to a message that names its thread and sequence
  number.
\<close>

theorem unacked_kept_until_acked:
  assumes ha: "m_HAenabled st" and wf: "eim_wf (eim_map (m_eventidmap st))"
    and res: "doPeriodicAck junk send now st = Inr st'"
    and mem: "(src, sq) \<in> set (eim_map (m_eventidmap st))" and unacked: "\<not> m_acked sq"
  shows "(src, sq) \<in> set (eim_map (m_eventidmap st')) \<or>
    (\<exists>request ids. send = Some request \<and> request ids \<and>
       (\<exists>eid \<in> set ids. ev_threadId eid = m_thrId src \<and> ev_sequenceId eid = m_seqNum sq))"
proof (cases "m_nextAck st < now")
  case False
  with res have "st' = st\<lparr>m_eventidmap := snd (expire_eim now True (m_eventidmap st))\<rparr>"
    using ha by (simp add: doPeriodicAck_def)
  with expire_keeps[OF wf mem TrueI unacked] show ?thesis by simp
next
  case True
  let ?m = "m_eventidmap st"
  define entries where "entries = fst (getUnAcked ?m)"
  define m1 where "m1 = snd (getUnAcked ?m)"
  have in_entries: "(src, sq\<lparr>m_acked := True\<rparr>) \<in> set entries"
    using mem unacked by (force simp: entries_def getUnAcked_def)
  then have nonempty: "0 < length entries" by (auto simp: length_greater_0_conv)
  define go where "go = (case send of Some request \<Rightarrow> andThen (periodicAck_ids junk entries) (\<lambda>ids. Inr (request ids))
    | None \<Rightarrow> Inr False)"
  have upd: "m_eventidmap (st\<lparr>m_nextAck := x\<rparr>) = ?m" for x by simp
  note res' = res[unfolded doPeriodicAck_def Let_def case_prod_beta upd, folded entries_def m1_def, folded go_def]
  obtain acked where acked: "go = Inr acked"
    using res' ha True nonempty by (cases go) simp_all
  have st': "m_eventidmap st' = snd (expire_eim now True (if acked then m1 else snd (clearAckedFlags entries m1)))"
    using res'[unfolded acked] ha True nonempty by auto
  show ?thesis
  proof (cases acked)
    case True
    with acked obtain request ids where "send = Some request" "request ids" "periodicAck_ids junk entries = Inr ids"
      by (auto simp: go_def andThen_Inr_conv split: option.splits)
    with periodicAck_ids_mem[OF _ in_entries] show ?thesis by fastforce
  next
    case False
    have m1: "eim_map m1 = map (\<lambda>(k, v). (k, v\<lparr>m_acked := True\<rparr>)) (eim_map ?m)" by (simp add: m1_def getUnAcked_def)
    have wf1: "eim_wf (eim_map m1)" unfolding m1 using eim_wf_map[OF wf, of "\<lambda>_ v. v\<lparr>m_acked := True\<rparr>"] by simp
    let ?m2 = "snd (clearAckedFlags entries m1)"
    have m2: "eim_map ?m2 = map (\<lambda>(k, v). (k, if \<exists>e \<in> set entries. EventSource_eq (fst e) k then v\<lparr>m_acked := False\<rparr> else v)) (eim_map m1)"
      by (rule clearAckedFlags_map[OF wf1])
    have "\<exists>e \<in> set entries. EventSource_eq (fst e) src"
      using in_entries eim_wf_refl[OF wf mem] by force
    moreover have "(src, sq\<lparr>m_acked := True\<rparr>) \<in> set (eim_map m1)" using mem by (force simp: m1)
    ultimately have "(src, sq\<lparr>m_acked := False\<rparr>) \<in> set (eim_map ?m2)" unfolding m2 by force
    moreover have "sq\<lparr>m_acked := False\<rparr> = sq" using unacked by simp
    moreover have "eim_wf (eim_map ?m2)" unfolding m2
      using eim_wf_map[OF wf1, of "\<lambda>k v. if \<exists>e \<in> set entries. EventSource_eq (fst e) k then v\<lparr>m_acked := False\<rparr> else v"] by simp
    ultimately show ?thesis using expire_keeps[of ?m2 src sq True now] unacked False st' by simp
  qed
qed

theorem unacked_kept_until_acked_witness:
  "\<exists>st'. doPeriodicAck [] None 5 \<lparr>m_HAenabled = True, m_nextAck = 2, next_ack_inc = 3,
       m_eventidmap = \<lparr>m_expiry = 1, eim_map = [(source_of event_a, new_EventSequence 0 7)]\<rparr>\<rparr> = Inr st' \<and>
     (source_of event_a, new_EventSequence 0 7) \<in> set (eim_map (m_eventidmap st'))"
proof -
  let ?st = "\<lparr>m_HAenabled = True, m_nextAck = 2, next_ack_inc = 3,
       m_eventidmap = \<lparr>m_expiry = 1, eim_map = [(source_of event_a, new_EventSequence 0 7)]\<rparr>\<rparr>"
  obtain st' where st': "doPeriodicAck [] None 5 ?st = Inr st'"
    by (simp add: doPeriodicAck_def getUnAcked_def new_EventSequence_def Let_def)
  have "eim_wf [(source_of event_a, new_EventSequence 0 7)]"
    using source_of_eq[OF event_a_ok(2) event_a_ok(2)] by simp
  with unacked_kept_until_acked[OF _ _ st', of "source_of event_a" "new_EventSequence 0 7"] st' show ?thesis
    by (simp add: new_EventSequence_def)
qed

text \<open>The filter keeps the map in the shape the acknowledgement needs.\<close>

lemma eim_wf_assign:
  assumes "eim_wf ps" "EventSource_eq key key"
  shows "eim_wf (eim_assign key v ps) \<and> (\<forall>q \<in> set (eim_assign key v ps). q \<in> set ps \<or> EventSource_eq key (fst q))"
  using assms(1)
proof (induction ps)
  case (Cons p ps)
  have "\<not> EventSource_eq (fst p) (fst q)" if "\<not> EventSource_eq key (fst p)" "EventSource_eq key (fst q)" for q
    using that EventSource_eq_sym EventSource_eq_trans by blast
  with Cons show ?case by auto
qed (simp add: assms(2))

lemma checkDupAndAdd_wf:
  assumes "checkDupAndAdd now ev m = Inr (new, m')" "named_event ev" "eim_wf (eim_map m)"
  shows "eim_wf (eim_map m')"
  using assms eim_wf_assign[OF assms(3), of "source_of ev"] source_of_eq[OF assms(2,2)]
  by (auto simp: checkDupAndAdd_named put_eim_cases split: if_splits)

text \<open>
  C39. The reader of an event id does not check the length it reads against the object's array
  of 512 bytes: a longer client id is written past the end of the array.
\<close>

theorem fromData_EventId_overrun:
  assumes "in_inv inp" "unread inp = byteArray_bytes bs @ rest" "512 < length bs" "length bs < 2 ^ 31"
  shows "fromData_EventId ev inp = Inl MemoryFault"
proof -
  let ?n = "of_nat (length bs) :: u32"
  have s: "sint ?n = int (length bs)" using assms(4) by (rule sint_of_nat_u32)
  have "(scast ?n :: u64) = of_nat (length bs)" using s by (simp add: scast_eq)
  then have n: "unat (scast ?n :: u64) = length bs"
    using assms(4) by (simp add: unat_of_nat take_bit_nat_eq_self_iff)
  have u: "unread inp = arrayLen_bytes ?n @ (bs @ rest)" using assms(2) by (simp add: byteArray_bytes_def)
  have r1: "readArrayLength inp = Inr (?n, advanceCursor (length (arrayLen_bytes ?n)) inp)"
    by (rule consumesD[OF consumes_readArrayLength assms(1) u]) (simp add: s)
  note a = consumes_after[OF assms(1) u]
  have r2: "readBytesOnly (length bs) (advanceCursor (length (arrayLen_bytes ?n)) inp) =
      Inr (bs, advanceCursor (length bs) (advanceCursor (length (arrayLen_bytes ?n)) inp))"
    by (rule consumesD[OF consumes_readBytesOnly a])
  show ?thesis unfolding fromData_EventId_def r1 by (simp add: n r2 assms(3))
qed

theorem fromData_EventId_overrun_witness:
  "fromData_EventId event_a (new_DataInput (byteArray_bytes (replicate 513 1)) 516) = Inl MemoryFault"
proof -
  have "length (byteArray_bytes (replicate 513 (1 :: byte))) = 516"
    by (simp add: byteArray_bytes_def arrayLen_bytes_def)
  then show ?thesis
    by (intro fromData_EventId_overrun[where bs = "replicate 513 1" and rest = "[]"])
       (simp_all add: in_inv_def unread_def new_DataInput_def)
qed

end
