(* ===== verification/Client_Metadata.thy ===== *)
theory Client_Metadata
  imports Serializer "HOL-Library.Multiset"
begin

text \<open>
  What a client knows about a partitioned region: which servers host which bucket
  (\<open>ServerLocation.hpp\<close>, \<open>BucketServerLocation.hpp\<close>, \<open>ClientMetadata.cpp\<close>,
  \<open>ClientMetadata.hpp\<close>) and the wait times of buckets (\<open>BucketStatus\<close> and
  \<open>PRbuckets\<close> in \<open>ClientMetadataService.hpp\<close>). Strings are the UTF-16 units the
  wire carries. A draw of a random number below \<open>n\<close> is \<open>r mod n\<close> for an argument
  \<open>r\<close>, and a shuffle is an argument function that permutes its list.
\<close>

type_synonym ustring = "u16 list"

section \<open>Server locations\<close>

text \<open>\<open>l_addr\<close> is the address of the object, which pointer comparisons look at.\<close>

record bucket_location =
  m_serverName :: ustring
  m_port :: u32
  m_epString :: ustring
  m_bucketId :: u32
  m_isPrimary :: bool
  m_version :: byte
  m_serverGroups :: "ustring list option"
  l_addr :: nat

fun to_digits :: "nat \<Rightarrow> ustring" where
  "to_digits n = (if n < 10 then [of_nat (48 + n)] else to_digits (n div 10) @ [of_nat (48 + n mod 10)])"

definition to_string_int :: "int \<Rightarrow> ustring" where
  "to_string_int i = (if i < 0 then 45 # to_digits (nat (- i)) else to_digits (nat i))"

definition makeEpString :: "bucket_location \<Rightarrow> bucket_location" where
  "makeEpString l = l\<lparr>m_epString := m_serverName l @ [58] @ to_string_int (sint (m_port l))\<rparr>"

definition new_BucketServerLocation ::
  "nat \<Rightarrow> u32 \<Rightarrow> u32 \<Rightarrow> ustring \<Rightarrow> bool \<Rightarrow> byte \<Rightarrow> ustring list \<Rightarrow> bucket_location" where
  "new_BucketServerLocation addr bucketId port host isPrimary version serverGroups =
     makeEpString \<lparr>m_serverName = host, m_port = port, m_epString = [], m_bucketId = bucketId, m_isPrimary = isPrimary,
       m_version = version, m_serverGroups = (if 0 < length serverGroups then Some serverGroups else None), l_addr = addr\<rparr>"

definition isValid :: "bucket_location \<Rightarrow> bool" where
  "isValid l = (m_serverName l \<noteq> [] \<and> 0 \<le> sint (m_port l))"

text \<open>Locations are equal when they name the same server and port; maps use this equality.\<close>

definition loc_key :: "bucket_location \<Rightarrow> ustring \<times> u32" where
  "loc_key l = (m_serverName l, m_port l)"

definition ServerLocation_eq :: "bucket_location \<Rightarrow> bucket_location \<Rightarrow> bool" where
  "ServerLocation_eq a b = (m_serverName a = m_serverName b \<and> m_port a = m_port b)"

definition toData_ServerLocation :: "bucket_location \<Rightarrow> writer" where
  "toData_ServerLocation l out =
     andThen (writeString (Some (m_serverName l)) out) (writeInt32 (m_port l))"

definition fromData_ServerLocation :: "bucket_location \<Rightarrow> bucket_location reader" where
  "fromData_ServerLocation l inp =
     andThen (readString inp) (\<lambda>(name, i1).
     andThen (readInt32 i1) (\<lambda>(port, i2).
       Inr (makeEpString (l\<lparr>m_serverName := name, m_port := port\<rparr>), i2)))"

definition fromData_BucketServerLocation :: "bucket_location \<Rightarrow> bucket_location reader" where
  "fromData_BucketServerLocation l inp =
     andThen (fromData_ServerLocation l inp) (\<lambda>(l1, i1).
     andThen (readInt32 i1) (\<lambda>(bucketId, i2).
     andThen (readBoolean i2) (\<lambda>(primary, i3).
     andThen (read_byte i3) (\<lambda>(version, i4).
     andThen (read_byte i4) (\<lambda>(num, i5).
       let l2 = l1\<lparr>m_bucketId := bucketId, m_isPrimary := primary, m_version := version\<rparr> in
       if 0 < sint num
       then andThen (read_n (nat (sint num)) readString i5) (\<lambda>(groups, i6). Inr (l2\<lparr>m_serverGroups := Some groups\<rparr>, i6))
       else Inr (l2, i5))))))"

section \<open>The metadata of a region\<close>

text \<open>
  \<open>m_tcrdm\<close> is the pool, seen through its server group; none is the null pointer. The
  map of fixed partitions gives the number of buckets and the first bucket of a partition.
\<close>

record client_metadata =
  m_partitionNames :: "ustring list option"
  m_bucketServerLocationsList :: "bucket_location list list"
  m_previousOne :: "nat option"
  m_totalNumBuckets :: u32
  m_colocatedWith :: ustring
  m_tcrdm :: "ustring option"
  m_fpaMap :: "(ustring \<times> u32 \<times> u32) list"

definition setPartitionNames :: "client_metadata \<Rightarrow> client_metadata" where
  "setPartitionNames md = md\<lparr>m_partitionNames := Some (map fst (m_fpaMap md))\<rparr>"

definition new_ClientMetadata ::
  "u32 \<Rightarrow> ustring \<Rightarrow> ustring option \<Rightarrow> (ustring \<times> u32 \<times> u32) list option \<Rightarrow> gf_exn + client_metadata" where
  "new_ClientMetadata totalNumBuckets colocatedWith tcrdm fpaSet =
     (let md = \<lparr>m_partitionNames = None, m_bucketServerLocationsList = replicate (nat (sint totalNumBuckets)) [],
                m_previousOne = None, m_totalNumBuckets = totalNumBuckets, m_colocatedWith = colocatedWith,
                m_tcrdm = tcrdm, m_fpaMap = []\<rparr>
      in if tcrdm = None then Inl IllegalArgumentException
         else Inr (case fpaSet of
              None \<Rightarrow> md
            | Some fs \<Rightarrow>
                (if fs \<noteq> []
                 then setPartitionNames (md\<lparr>m_fpaMap := fold (\<lambda>(name, num, start). al_assign name (num, start)) fs []\<rparr>)
                 else md)))"

text \<open>The copy has the shape of the original and no locations.\<close>

definition copy_ClientMetadata :: "client_metadata \<Rightarrow> client_metadata" where
  "copy_ClientMetadata other =
     (let md = \<lparr>m_partitionNames = None,
                m_bucketServerLocationsList = replicate (nat (sint (m_totalNumBuckets other))) [],
                m_previousOne = None, m_totalNumBuckets = m_totalNumBuckets other,
                m_colocatedWith = m_colocatedWith other, m_tcrdm = m_tcrdm other,
                m_fpaMap = fold (\<lambda>(name, att). al_assign name att) (m_fpaMap other) []\<rparr>
      in if m_fpaMap md \<noteq> [] then setPartitionNames md else md)"

definition checkBucketId :: "u32 \<Rightarrow> client_metadata \<Rightarrow> gf_exn + unit" where
  "checkBucketId bucketId md =
     (if length (m_bucketServerLocationsList md) \<le> unat (scast bucketId :: u64)
      then Inl IllegalStateException else Inr ())"

fun remove_location :: "ustring \<Rightarrow> bucket_location list \<Rightarrow> bucket_location list" where
  "remove_location ep [] = []"
| "remove_location ep (l # ls) = (if m_epString l = ep then ls else l # remove_location ep ls)"

definition removeBucketServerLocation :: "bucket_location \<Rightarrow> client_metadata \<Rightarrow> client_metadata" where
  "removeBucketServerLocation serverLocation md =
     md\<lparr>m_bucketServerLocationsList :=
          map (remove_location (m_epString serverLocation)) (m_bucketServerLocationsList md)\<rparr>"

text \<open>The location and the version are in-out parameters of the call.\<close>

definition getServerLocation ::
  "nat \<Rightarrow> u32 \<Rightarrow> bool \<Rightarrow> bucket_location option \<Rightarrow> byte \<Rightarrow> client_metadata \<Rightarrow> gf_exn + (bucket_location option \<times> byte)" where
  "getServerLocation r bucketId tryPrimary serverLocation version md =
     andThen (checkBucketId bucketId md) (\<lambda>_.
       let locations = m_bucketServerLocationsList md ! unat bucketId in
       if locations = [] then Inr (serverLocation, version)
       else
         let l = locations ! 0;
             v = (if isValid l then (if m_isPrimary l then m_version l else version) else m_version l)
         in if tryPrimary then Inr (Some l, v)
            else Inr (Some (locations ! (r mod length locations)), v))"

text \<open>
  The separation of a bucket's locations into primaries and secondaries when the client is
  restricted to a server group: what one location contributes.
\<close>

fun group_hits :: "ustring \<Rightarrow> ustring list \<Rightarrow> nat" where
  "group_hits serverGroup [] = 0"
| "group_hits serverGroup (g # gs) =
     (if 0 < length g then (if g = serverGroup then 1 else group_hits serverGroup gs)
      else 1 + group_hits serverGroup gs)"

definition group_copies :: "ustring \<Rightarrow> bucket_location \<Rightarrow> bucket_location list" where
  "group_copies serverGroup l =
     (case m_serverGroups l of
        None \<Rightarrow> []
      | Some groups \<Rightarrow>
          (if 0 < length groups
           then (let n = group_hits serverGroup groups in if n = 0 then [l] else replicate n l)
           else []))"

definition updateBucketServerLocations ::
  "(bucket_location list \<Rightarrow> bucket_location list) \<Rightarrow> u32 \<Rightarrow> bucket_location list \<Rightarrow> client_metadata \<Rightarrow>
   gf_exn + client_metadata" where
  "updateBucketServerLocations shuffle bucketId locations md =
     andThen (checkBucketId bucketId md) (\<lambda>_.
       case m_tcrdm md of
         None \<Rightarrow> Inl MemoryFault
       | Some serverGroup \<Rightarrow>
           let chosen = (if serverGroup \<noteq> [] then concat (map (group_copies serverGroup) locations) else locations);
               primaries = filter m_isPrimary chosen;
               secondaries = filter (\<lambda>l. \<not> m_isPrimary l) chosen;
               primaries1 = (if 0 < length primaries then shuffle primaries else primaries);
               secondaries1 = (if 0 < length secondaries then shuffle secondaries else secondaries)
           in Inr (md\<lparr>m_bucketServerLocationsList :=
                (m_bucketServerLocationsList md)[unat bucketId := primaries1 @ secondaries1]\<rparr>))"

text \<open>The bucket a hash code selects among \<open>n\<close>: the absolute value of the C++ remainder.\<close>

definition abs_rem :: "u32 \<Rightarrow> u32 \<Rightarrow> gf_exn + u32" where
  "abs_rem hc n =
     (if n = 0 then Inl DivisionByZero else Inr (of_int (\<bar>sint hc\<bar> mod \<bar>sint n\<bar>)))"

definition assignFixedBucketId :: "ustring \<Rightarrow> u32 \<Rightarrow> client_metadata \<Rightarrow> gf_exn + u32" where
  "assignFixedBucketId partitionName hc md =
     (case al_find (m_fpaMap md) partitionName of
        Some (num, start) \<Rightarrow> andThen (abs_rem hc num) (\<lambda>bucketId. Inr (bucketId + start))
      | None \<Rightarrow> Inr (-1))"

definition adviseServerLocations :: "u32 \<Rightarrow> client_metadata \<Rightarrow> gf_exn + bucket_location list" where
  "adviseServerLocations bucketId md =
     andThen (checkBucketId bucketId md) (\<lambda>_. Inr (m_bucketServerLocationsList md ! unat bucketId))"

definition advisePrimaryServerLocation :: "u32 \<Rightarrow> client_metadata \<Rightarrow> gf_exn + bucket_location option" where
  "advisePrimaryServerLocation bucketId md =
     andThen (adviseServerLocations bucketId md) (\<lambda>locations. Inr (find m_isPrimary locations))"

definition adviseRandomServerLocation :: "nat \<Rightarrow> client_metadata \<Rightarrow> bucket_location option" where
  "adviseRandomServerLocation r md =
     (let lists = m_bucketServerLocationsList md in
      if 0 < length lists then
        (let locations = lists ! (r mod length lists) in
         if length locations = 0 then None else Some (locations ! 0))
      else None)"

section \<open>Wait times of buckets\<close>

text \<open>A time point of zero means that the bucket has no timeout.\<close>

definition isTimedoutAndReset :: "int \<Rightarrow> int \<Rightarrow> int \<Rightarrow> bool \<times> int" where
  "isTimedoutAndReset now millis lastTimeout =
     (if lastTimeout = 0 then (False, lastTimeout)
      else if now < lastTimeout + millis then (True, lastTimeout)
      else (False, 0))"

definition setTimeout :: "int \<Rightarrow> int \<Rightarrow> int" where
  "setTimeout now lastTimeout = (if lastTimeout = 0 then now else lastTimeout)"

definition isBucketTimedOut :: "int \<Rightarrow> u32 \<Rightarrow> int \<Rightarrow> int list \<Rightarrow> gf_exn + (bool \<times> int list)" where
  "isBucketTimedOut now bucketId millis buckets =
     (if sint bucketId < 0 \<or> length buckets \<le> nat (sint bucketId) then Inl MemoryFault
      else let (b, t) = isTimedoutAndReset now millis (buckets ! nat (sint bucketId))
           in Inr (b, buckets[nat (sint bucketId) := t]))"

definition setBucketTimeout :: "int \<Rightarrow> u32 \<Rightarrow> int list \<Rightarrow> gf_exn + int list" where
  "setBucketTimeout now bucketId buckets =
     (if sint bucketId < 0 \<or> length buckets \<le> nat (sint bucketId) then Inl MemoryFault
      else Inr (buckets[nat (sint bucketId) := setTimeout now (buckets ! nat (sint bucketId))]))"

section \<open>Properties\<close>

lemma unat_scast_nonneg:
  assumes "0 \<le> sint (b :: u32)"
  shows "unat (scast b :: u64) = unat b"
proof -
  have "sint b = int (unat b)" using sint_nonneg_u32[OF assms] by simp
  then have "(scast b :: u64) = of_nat (unat b)" by (simp add: scast_eq)
  moreover have "unat (of_nat (unat b) :: u64) = unat b"
    by (rule unat_of_nat_u64) (use unsigned_less[of b, where ?'a = nat] in simp)
  ultimately show ?thesis by metis
qed

lemma checkBucketId_ok:
  "0 \<le> sint b \<Longrightarrow> unat b < length (m_bucketServerLocationsList md) \<Longrightarrow> checkBucketId b md = Inr ()"
  by (simp add: checkBucketId_def unat_scast_nonneg)

text \<open>
  In a pool without a server group an update of a bucket's locations keeps exactly the locations of the reply and puts the
  primary first: the bucket's list is a permutation of the reply, and as soon as the reply
  names a primary, asking for the primary gives one. Other buckets keep their lists.
\<close>

lemma update_puts_primary_first:
  assumes perm: "\<forall>xs. mset (shuffle xs) = mset xs" and grp: "m_tcrdm md = Some []"
    and b: "0 \<le> sint b" "unat b < length (m_bucketServerLocationsList md)"
  shows "\<exists>md'. updateBucketServerLocations shuffle b locations md = Inr md' \<and>
    mset (m_bucketServerLocationsList md' ! unat b) = mset locations \<and>
    (\<forall>i. i \<noteq> unat b \<longrightarrow> m_bucketServerLocationsList md' ! i = m_bucketServerLocationsList md ! i) \<and>
    ((\<exists>l \<in> set locations. m_isPrimary l) \<longrightarrow>
       (\<exists>l v'. getServerLocation r b True None v md' = Inr (Some l, v') \<and> m_isPrimary l \<and>
               advisePrimaryServerLocation b md' = Inr (Some l)))"
proof -
  let ?p = "filter m_isPrimary locations"
  let ?s = "filter (\<lambda>l. \<not> m_isPrimary l) locations"
  define p where "p = (if 0 < length ?p then shuffle ?p else ?p)"
  define s where "s = (if 0 < length ?s then shuffle ?s else ?s)"
  have mp: "mset p = mset ?p" using perm by (cases "0 < length ?p") (simp_all only: p_def if_True if_False)
  have ms: "mset s = mset ?s" using perm by (cases "0 < length ?s") (simp_all only: s_def if_True if_False)
  let ?md = "md\<lparr>m_bucketServerLocationsList := (m_bucketServerLocationsList md)[unat b := p @ s]\<rparr>"
  have upd: "updateBucketServerLocations shuffle b locations md = Inr ?md"
    using grp checkBucketId_ok[OF b] by (simp add: updateBucketServerLocations_def p_def s_def Let_def)
  have at: "m_bucketServerLocationsList ?md ! unat b = p @ s" using b by simp
  have "mset (p @ s) = mset locations"
    using mp ms multiset_partition[of "mset locations" m_isPrimary] by simp
  moreover have "\<exists>l v'. getServerLocation r b True None v ?md = Inr (Some l, v') \<and> m_isPrimary l \<and>
      advisePrimaryServerLocation b ?md = Inr (Some l)" if "\<exists>l \<in> set locations. m_isPrimary l"
  proof -
    from that have "set p \<noteq> {}" "\<forall>l \<in> set p. m_isPrimary l" using mset_eq_setD[OF mp] by auto
    then obtain l p' where l: "p = l # p'" "m_isPrimary l" by (cases p) auto
    have ok: "checkBucketId b ?md = Inr ()" using b by (intro checkBucketId_ok) simp_all
    then have "advisePrimaryServerLocation b ?md = Inr (Some l)"
      using at l by (simp add: advisePrimaryServerLocation_def adviseServerLocations_def)
    moreover have "\<exists>v'. getServerLocation r b True None v ?md = Inr (Some l, v')"
      using ok at l by (simp add: getServerLocation_def Let_def)
    ultimately show ?thesis using l by blast
  qed
  ultimately show ?thesis using upd at by (intro exI[of _ ?md]) auto
qed

end
