(* ===== verification/Metadata_Service.thy ===== *)
theory Metadata_Service
  imports Client_Metadata "HOL-Library.Multiset"
begin

text \<open>
  Single hop routing: the service that fetches the metadata of partitioned regions and
  groups keys and buckets by the server to ask (\<open>ClientMetadataService.cpp\<close>,
  \<open>ClientMetadataService.hpp\<close>, \<open>util/queue.hpp\<close>).

  The replies of the servers, the regions of the cache and the application's partition
  resolvers are arguments. Metadata objects are shared between regions, so they live in a
  store and the map from region paths holds their addresses. A hash map keyed by locations
  is an association list from server name and port to the location that was inserted and
  the value.
\<close>

section \<open>Resolving a key to a bucket\<close>

text \<open>
  The partition resolver of a region. A fixed partition resolver also names a partition.
\<close>

record 'k resolver =
  getRoutingObject :: "'k \<Rightarrow> 'k option"
  getPartitionName :: "('k \<Rightarrow> ustring) option"

type_synonym 'a server_map = "((ustring \<times> u32) \<times> (bucket_location \<times> 'a)) list"

section \<open>Choosing servers for a set of buckets\<close>

text \<open>
  The server with most buckets outside the current set. Servers that tie are collected in
  order, and one of them is drawn.
\<close>

fun best_servers ::
  "u32 list \<Rightarrow> u32 list server_map \<Rightarrow> nat \<Rightarrow> bucket_location list \<Rightarrow> bucket_location list" where
  "best_servers current [] mx nodes = nodes"
| "best_servers current ((k, l, bs) # m) mx nodes =
     (let sz = length (filter (\<lambda>b. b \<notin> set current) bs) in
      if mx < sz then best_servers current m sz [l]
      else if mx = sz then best_servers current m mx (nodes @ [l])
      else best_servers current m mx nodes)"

definition findNextServer :: "nat \<Rightarrow> u32 list server_map \<Rightarrow> u32 list \<Rightarrow> bucket_location option" where
  "findNextServer r m current =
     (let nodes = best_servers current m 0 [] in
      if 0 < length nodes then Some (nodes ! (r mod length nodes)) else None)"

definition add_bucket :: "u32 \<Rightarrow> bucket_location \<Rightarrow> u32 list server_map \<Rightarrow> u32 list server_map" where
  "add_bucket b l m =
     (case al_find m (loc_key l) of
        None \<Rightarrow> al_emplace (loc_key l) (l, [b]) m
      | Some (l0, bs) \<Rightarrow> al_assign (loc_key l) (l0, set_insert b bs) m)"

fun collect_servers ::
  "client_metadata \<Rightarrow> u32 list \<Rightarrow> u32 list server_map \<Rightarrow> gf_exn + u32 list server_map option" where
  "collect_servers md [] m = Inr (Some m)"
| "collect_servers md (b # bs) m =
     andThen (adviseServerLocations b md) (\<lambda>locations.
       if locations = [] then Inr None
       else collect_servers md bs (fold (add_bucket b) locations m))"

text \<open>The random first server: every test of the loop condition draws a new number.\<close>

function first_index :: "(nat \<Rightarrow> nat) \<Rightarrow> nat \<Rightarrow> nat \<Rightarrow> nat" where
  "first_index draws sz idx =
     (if 0 < sz \<and> idx < draws idx mod sz then first_index draws sz (idx + 1) else idx)"
  by pat_completeness auto
termination
  by (relation "measure (\<lambda>(draws, sz, idx). sz - idx)")
     (auto intro: diff_less_mono2 less_trans[OF _ mod_less_divisor])

function prune_loop ::
  "(nat \<Rightarrow> nat) \<Rightarrow> nat \<Rightarrow> u32 list \<Rightarrow> u32 list server_map \<Rightarrow> u32 list \<Rightarrow> u32 list server_map \<Rightarrow>
   gf_exn + u32 list server_map" where
  "prune_loop draws i buckets m current pruned =
     (if set buckets = set current then Inr pruned
      else
        case findNextServer (draws i) m current of
          None \<Rightarrow> Inr pruned
        | Some server \<Rightarrow>
            (case al_find m (loc_key server) of
               None \<Rightarrow> Inl MemoryFault
             | Some (l, bs) \<Rightarrow>
                 let bs2 = filter (\<lambda>b. b \<notin> set current) bs in
                 if bs2 = [] then prune_loop draws (i + 1) buckets (al_erase (loc_key server) m) current pruned
                 else prune_loop draws (i + 1) buckets (al_erase (loc_key server) m)
                        (fold set_insert bs2 current) (al_emplace (loc_key server) (server, bs2) pruned)))"
  by pat_completeness auto
termination
proof (relation "measure (\<lambda>(draws, i, buckets, m, current, pruned). length m)", goal_cases)
  case (2 draws i buckets m current pruned server p l bs bs2)
  then have "loc_key server \<in> fst ` set m" using al_find_None_iff[of m "loc_key server"] by auto
  then show ?case by (force simp: al_erase_def intro!: length_filter_less)
next
  case (3 draws i buckets m current pruned server p l bs bs2)
  then have "loc_key server \<in> fst ` set m" using al_find_None_iff[of m "loc_key server"] by auto
  then show ?case by (force simp: al_erase_def intro!: length_filter_less)
qed simp

declare first_index.simps [simp del] prune_loop.simps [simp del]

definition pruneNodes ::
  "(nat \<Rightarrow> nat) \<Rightarrow> (nat \<Rightarrow> nat) \<Rightarrow> client_metadata \<Rightarrow> u32 list \<Rightarrow> gf_exn + u32 list server_map option" where
  "pruneNodes first draws md buckets =
     andThen (collect_servers md buckets []) (\<lambda>res.
       case res of
         None \<Rightarrow> Inr None
       | Some m \<Rightarrow>
           (if m = [] then Inr None
            else
              let (key, l, bs) = m ! first_index first (length m) 0
              in andThen (prune_loop draws 0 buckets (al_erase key m) bs [(key, l, bs)]) (\<lambda>pruned. Inr (Some pruned))))"

fun primary_servers ::
  "client_metadata \<Rightarrow> u32 list \<Rightarrow> u32 list server_map \<Rightarrow> u32 list \<Rightarrow> gf_exn + (u32 list server_map \<times> u32 list)" where
  "primary_servers md [] m without = Inr (m, without)"
| "primary_servers md (b # bs) m without =
     andThen (advisePrimaryServerLocation b md) (\<lambda>serverLocation.
       case serverLocation of
         None \<Rightarrow> primary_servers md bs m (set_insert b without)
       | Some l \<Rightarrow>
           (if \<not> isValid l then primary_servers md bs m (set_insert b without)
            else primary_servers md bs (add_bucket b l m) without))"

text \<open>Buckets without a primary go to the first server of the map, if there is one.\<close>

definition groupByServerToBuckets ::
  "(nat \<Rightarrow> nat) \<Rightarrow> (nat \<Rightarrow> nat) \<Rightarrow> client_metadata \<Rightarrow> u32 list \<Rightarrow> bool \<Rightarrow> gf_exn + u32 list server_map option" where
  "groupByServerToBuckets first draws md bucketSet optimizeForWrite =
     (if optimizeForWrite then
        andThen (primary_servers md bucketSet [] []) (\<lambda>(m, without).
          Inr (Some (case m of
                       [] \<Rightarrow> []
                     | (k, l, bs) # m' \<Rightarrow> (k, l, fold set_insert without bs) # m')))
      else pruneNodes first draws md bucketSet)"

section \<open>The service\<close>

record cm_service =
  cms_store :: "client_metadata list"
  m_regionMetaDataMap :: "(ustring \<times> nat) list"
  m_regionQueue :: "ustring list"
  m_bucketStatus :: "(ustring \<times> int list) list"
  m_bucketWaitTimeout :: int
  cms_serverGroup :: ustring
  prMetadataUpdated :: bool
  serverGroupFlag :: byte
  networkHopFlag :: bool
  metaDataRefreshed :: "ustring list"

definition coalesce :: "'a \<Rightarrow> 'a list \<Rightarrow> 'a list" where
  "coalesce v queue = dropWhile (\<lambda>next. next = v) queue"

definition getClientMetadata :: "ustring \<Rightarrow> cm_service \<Rightarrow> client_metadata option" where
  "getClientMetadata regionFullPath svc =
     map_option (\<lambda>a. cms_store svc ! a) (al_find (m_regionMetaDataMap svc) regionFullPath)"

definition removeBucketServerLocation_svc :: "bucket_location \<Rightarrow> cm_service \<Rightarrow> cm_service" where
  "removeBucketServerLocation_svc serverLocation svc =
     svc\<lparr>cms_store := fold (\<lambda>(path, a) store. store[a := removeBucketServerLocation serverLocation (store ! a)])
           (m_regionMetaDataMap svc) (cms_store svc)\<rparr>"

text \<open>
  \<open>prMetadata\<close> is the reply for a region path: none when the request fails, and otherwise
  the lists of locations, themselves absent when the reply has no metadata.
\<close>

fun update_all ::
  "(nat \<Rightarrow> bucket_location list \<Rightarrow> bucket_location list) \<Rightarrow> nat \<Rightarrow> bucket_location list list \<Rightarrow> client_metadata \<Rightarrow>
   gf_exn + client_metadata" where
  "update_all shuf i [] md = Inr md"
| "update_all shuf i (v # vs) md =
     (if v \<noteq> []
      then andThen (updateBucketServerLocations (shuf i) (m_bucketId (v ! 0)) v md) (update_all shuf (i + 1) vs)
      else update_all shuf (i + 1) vs md)"

definition SendClientPRMetadata ::
  "(nat \<Rightarrow> bucket_location list \<Rightarrow> bucket_location list) \<Rightarrow> bucket_location list list option option \<Rightarrow> client_metadata \<Rightarrow>
   gf_exn + client_metadata option" where
  "SendClientPRMetadata shuf prMetadata cptr =
     (case prMetadata of
        Some (Some metadata) \<Rightarrow>
          (if metadata = [] then Inr None
           else andThen (update_all shuf 0 metadata (copy_ClientMetadata cptr)) (\<lambda>md. Inr (Some md)))
      | _ \<Rightarrow> Inr None)"

text \<open>The reply with the partition attributes: buckets, colocated region, fixed partitions.\<close>

definition getClientPRMetadata ::
  "(nat \<Rightarrow> bucket_location list \<Rightarrow> bucket_location list) \<Rightarrow>
   (ustring \<Rightarrow> (u32 \<times> ustring \<times> (ustring \<times> u32 \<times> u32) list option) option) \<Rightarrow>
   (ustring \<Rightarrow> bucket_location list list option option) \<Rightarrow> ustring option \<Rightarrow> cm_service \<Rightarrow> gf_exn + cm_service" where
  "getClientPRMetadata shuf attributes prMetadata regionFullPath svc =
     (case regionFullPath of
        None \<Rightarrow> Inr svc
      | Some path \<Rightarrow>
          andThen
            (case al_find (m_regionMetaDataMap svc) path of
               Some a \<Rightarrow> Inr (Some a, svc)
             | None \<Rightarrow>
                 (case attributes path of
                    None \<Rightarrow> Inr (None, svc)
                  | Some (numBuckets, colocatedWith, fpaSet) \<Rightarrow>
                      (if sint numBuckets = -1 then Inr (None, svc)
                       else
                         andThen (new_ClientMetadata numBuckets colocatedWith (Some (cms_serverGroup svc)) fpaSet) (\<lambda>md.
                           let svc1 = svc\<lparr>cms_store := cms_store svc @ [md]\<rparr>;
                               svc2 = (if 0 < m_bucketWaitTimeout svc \<and> 0 < sint numBuckets
                                       then svc1\<lparr>m_bucketStatus := al_assign path (replicate (nat (sint numBuckets)) 0) (m_bucketStatus svc1)\<rparr>
                                       else svc1)
                           in Inr (Some (length (cms_store svc)), svc2)))))
            (\<lambda>(cptr, svc1).
               case cptr of
                 None \<Rightarrow> Inr svc1
               | Some a \<Rightarrow>
                   let md = cms_store svc1 ! a; colocatedWith = m_colocatedWith md;
                       source = (if colocatedWith = [] then path else colocatedWith)
                   in andThen (SendClientPRMetadata shuf (prMetadata source) md) (\<lambda>newCptr.
                        case newCptr of
                          None \<Rightarrow> Inr svc1
                        | Some new \<Rightarrow>
                            let b = length (cms_store svc1);
                                store = (cms_store svc1)[a := md\<lparr>m_previousOne := None\<rparr>] @ [new\<lparr>m_previousOne := Some a\<rparr>];
                                map1 = (if colocatedWith = [] then m_regionMetaDataMap svc1
                                        else al_assign colocatedWith b (m_regionMetaDataMap svc1))
                            in Inr (svc1\<lparr>cms_store := store, m_regionMetaDataMap := al_assign path b map1, prMetadataUpdated := True\<rparr>))))"

text \<open>One turn of the service thread with a path in the queue.\<close>

definition svc_step ::
  "(nat \<Rightarrow> bucket_location list \<Rightarrow> bucket_location list) \<Rightarrow>
   (ustring \<Rightarrow> (u32 \<times> ustring \<times> (ustring \<times> u32 \<times> u32) list option) option) \<Rightarrow>
   (ustring \<Rightarrow> bucket_location list list option option) \<Rightarrow> cm_service \<Rightarrow> gf_exn + cm_service" where
  "svc_step shuf attributes prMetadata svc =
     (case m_regionQueue svc of
        [] \<Rightarrow> Inr svc
      | path # rest \<Rightarrow>
          getClientPRMetadata shuf attributes prMetadata (Some path) (svc\<lparr>m_regionQueue := coalesce path rest\<rparr>))"

text \<open>\<open>regions\<close> are the paths of the cache's regions.\<close>

definition enqueueForMetadataRefresh :: "ustring list \<Rightarrow> ustring \<Rightarrow> byte \<Rightarrow> cm_service \<Rightarrow> cm_service" where
  "enqueueForMetadataRefresh regions regionFullPath flag svc =
     (let svc1 = (if cms_serverGroup svc \<noteq> [] then svc\<lparr>serverGroupFlag := flag\<rparr> else svc) in
      if cms_serverGroup svc \<noteq> [] \<and> flag = 2 then svc1
      else if regionFullPath \<in> set regions then
        (if regionFullPath \<in> set (metaDataRefreshed svc1) then svc1
         else svc1\<lparr>networkHopFlag := True, metaDataRefreshed := regionFullPath # metaDataRefreshed svc1,
                   m_regionQueue := m_regionQueue svc1 @ [regionFullPath]\<rparr>)
      else svc1)"

section \<open>Routing of keys\<close>

text \<open>A region is its path and its partition resolver.\<close>

type_synonym 'k region = "ustring \<times> 'k resolver option"

definition resolve_key :: "'k resolver option \<Rightarrow> 'k \<Rightarrow> gf_exn + 'k" where
  "resolve_key resolver key =
     (case resolver of
        None \<Rightarrow> Inr key
      | Some rv \<Rightarrow> (case getRoutingObject rv key of None \<Rightarrow> Inl IllegalStateException | Some k \<Rightarrow> Inr k))"

definition fixed_partition :: "'k resolver option \<Rightarrow> 'k \<Rightarrow> ustring option" where
  "fixed_partition resolver key =
     (case resolver of None \<Rightarrow> None | Some rv \<Rightarrow> map_option (\<lambda>pn. pn key) (getPartitionName rv))"

definition getBucketServerLocation ::
  "('k \<Rightarrow> u32) \<Rightarrow> nat \<Rightarrow> 'k region option \<Rightarrow> 'k \<Rightarrow> bool \<Rightarrow> bucket_location option \<Rightarrow> byte \<Rightarrow> cm_service \<Rightarrow>
   gf_exn + (bucket_location option \<times> byte)" where
  "getBucketServerLocation hashcode r region key isPrimary serverLocation version svc =
     (case region of
        None \<Rightarrow> Inr (serverLocation, version)
      | Some (path, resolver) \<Rightarrow>
          (case getClientMetadata path svc of
             None \<Rightarrow> Inr (serverLocation, version)
           | Some md \<Rightarrow>
               andThen (resolve_key resolver key) (\<lambda>resolvekey.
                 case fixed_partition resolver key of
                   Some pname \<Rightarrow>
                     andThen (assignFixedBucketId pname (hashcode resolvekey) md) (\<lambda>bucketId.
                       if bucketId = -1 then Inr (serverLocation, version)
                       else getServerLocation r bucketId isPrimary serverLocation version md)
                 | None \<Rightarrow>
                     andThen (if 0 < sint (m_totalNumBuckets md)
                              then abs_rem (hashcode resolvekey) (m_totalNumBuckets md) else Inr 0) (\<lambda>bucketId.
                       getServerLocation r bucketId isPrimary serverLocation version md))))"

text \<open>
  Grouping keys by server. A routing object is not checked for null here, and a fixed
  partition resolver is not asked for its partition. The list of keys that are left over
  is never filled by the code, so its distribution over the servers is not reached.
\<close>

definition add_key :: "'k \<Rightarrow> bucket_location \<Rightarrow> 'k list server_map \<Rightarrow> 'k list server_map" where
  "add_key k l m =
     (case al_find m (loc_key l) of
        None \<Rightarrow> al_emplace (loc_key l) (l, [k]) m
      | Some (l0, ks) \<Rightarrow> al_assign (loc_key l) (l0, ks @ [k]) m)"

fun filter_loop ::
  "('k \<Rightarrow> u32) \<Rightarrow> (nat \<Rightarrow> nat) \<Rightarrow> nat \<Rightarrow> 'k resolver option \<Rightarrow> bool \<Rightarrow> client_metadata \<Rightarrow> 'k list \<Rightarrow>
   (u32 \<times> bucket_location) list \<Rightarrow> 'k list server_map \<Rightarrow> gf_exn + 'k list server_map option" where
  "filter_loop hashcode draws i resolver isPrimary md [] buckets m = Inr (Some m)"
| "filter_loop hashcode draws i resolver isPrimary md (key # keys) buckets m =
     andThen
       (case resolver of
          None \<Rightarrow> Inr key
        | Some rv \<Rightarrow> (case getRoutingObject rv key of None \<Rightarrow> Inl MemoryFault | Some k \<Rightarrow> Inr k))
       (\<lambda>resolveKey.
          andThen (abs_rem (hashcode resolveKey) (m_totalNumBuckets md)) (\<lambda>bucketId.
            case al_find buckets bucketId of
              Some l \<Rightarrow> filter_loop hashcode draws (i + 1) resolver isPrimary md keys buckets (add_key key l m)
            | None \<Rightarrow>
                andThen (getServerLocation (draws i) bucketId isPrimary None (-1) md) (\<lambda>(serverLocation, version).
                  case serverLocation of
                    None \<Rightarrow> Inr None
                  | Some l \<Rightarrow>
                      (if \<not> isValid l then Inr None
                       else filter_loop hashcode draws (i + 1) resolver isPrimary md keys
                              (al_assign bucketId l buckets) (add_key key l m)))))"

definition getServerToFilterMap ::
  "('k \<Rightarrow> u32) \<Rightarrow> (nat \<Rightarrow> nat) \<Rightarrow> 'k list \<Rightarrow> 'k region \<Rightarrow> bool \<Rightarrow> cm_service \<Rightarrow> gf_exn + 'k list server_map option" where
  "getServerToFilterMap hashcode draws keys region isPrimary svc =
     (case getClientMetadata (fst region) svc of
        None \<Rightarrow> Inr None
      | Some md \<Rightarrow>
          andThen (filter_loop hashcode draws 0 (snd region) isPrimary md keys [] []) (\<lambda>res.
            Inr (case res of None \<Rightarrow> None | Some m \<Rightarrow> if m = [] then None else Some m)))"

fun groupByBucketOnClientSide ::
  "('k \<Rightarrow> u32) \<Rightarrow> ustring list \<Rightarrow> 'k region \<Rightarrow> 'k list \<Rightarrow> client_metadata \<Rightarrow> (u32 \<times> 'k list) list \<Rightarrow> cm_service \<Rightarrow>
   gf_exn + ((u32 \<times> 'k list) list \<times> cm_service)" where
  "groupByBucketOnClientSide hashcode regions region [] md m svc = Inr (m, svc)"
| "groupByBucketOnClientSide hashcode regions region (key # keys) md m svc =
     andThen (resolve_key (snd region) key) (\<lambda>resolvekey.
     andThen
       (case fixed_partition (snd region) key of
          Some pname \<Rightarrow>
            andThen (assignFixedBucketId pname (hashcode resolvekey) md) (\<lambda>b.
              Inr (b, if b = -1 then enqueueForMetadataRefresh regions (fst region) 0 svc else svc))
        | None \<Rightarrow>
            (if 0 < sint (m_totalNumBuckets md)
             then andThen (abs_rem (hashcode resolvekey) (m_totalNumBuckets md)) (\<lambda>b. Inr (b, svc))
             else Inr (-1, svc)))
       (\<lambda>(bucketId, svc1).
          let bucketKeys = (case al_find m bucketId of None \<Rightarrow> [] | Some ks \<Rightarrow> ks)
          in groupByBucketOnClientSide hashcode regions region keys md
               (al_assign bucketId (set_insert key bucketKeys) m) svc1))"

text \<open>The keys for a server: those of its buckets.\<close>

definition server_keys :: "(u32 \<times> 'k list) list \<Rightarrow> u32 list \<Rightarrow> 'k list" where
  "server_keys m buckets =
     fold (\<lambda>b ks. case al_find m b of None \<Rightarrow> ks | Some bks \<Rightarrow> fold set_insert bks ks) buckets []"

definition getServerToFilterMapFESHOP ::
  "('k \<Rightarrow> u32) \<Rightarrow> (nat \<Rightarrow> nat) \<Rightarrow> (nat \<Rightarrow> nat) \<Rightarrow> ustring list \<Rightarrow> 'k list option \<Rightarrow> 'k region \<Rightarrow> bool \<Rightarrow> cm_service \<Rightarrow>
   gf_exn + ('k list server_map option \<times> cm_service)" where
  "getServerToFilterMapFESHOP hashcode first draws regions routingKeys region isPrimary svc =
     (case getClientMetadata (fst region) svc of
        None \<Rightarrow> Inr (None, enqueueForMetadataRefresh regions (fst region) 0 svc)
      | Some md \<Rightarrow>
          (case routingKeys of
             None \<Rightarrow> Inr (None, svc)
           | Some keys \<Rightarrow>
               andThen (groupByBucketOnClientSide hashcode regions region keys md [] svc) (\<lambda>(m, svc1).
               andThen (groupByServerToBuckets first draws md (map fst m) isPrimary) (\<lambda>res.
                 Inr (map_option (\<lambda>sm. map (\<lambda>(k, l, bs). (k, l, server_keys m bs)) (filter (\<lambda>(k, l, bs). bs \<noteq> []) sm)) res, svc1)))))"

definition groupByServerToAllBuckets ::
  "(nat \<Rightarrow> nat) \<Rightarrow> (nat \<Rightarrow> nat) \<Rightarrow> ustring list \<Rightarrow> ustring \<Rightarrow> bool \<Rightarrow> cm_service \<Rightarrow>
   gf_exn + (u32 list server_map option \<times> cm_service)" where
  "groupByServerToAllBuckets first draws regions path optimizeForWrite svc =
     (case getClientMetadata path svc of
        None \<Rightarrow> Inr (None, enqueueForMetadataRefresh regions path 0 svc)
      | Some md \<Rightarrow>
          andThen (groupByServerToBuckets first draws md (map of_nat [0..<nat (sint (m_totalNumBuckets md))]) optimizeForWrite)
            (\<lambda>res. Inr (res, svc)))"

section \<open>Buckets that timed out\<close>

text \<open>The locations are compared as pointers.\<close>

definition same_pointer :: "bucket_location option \<Rightarrow> bucket_location option \<Rightarrow> bool" where
  "same_pointer a b =
     (case (a, b) of (None, None) \<Rightarrow> True | (Some x, Some y) \<Rightarrow> l_addr x = l_addr y | _ \<Rightarrow> False)"

fun mark_buckets ::
  "int \<Rightarrow> (nat \<Rightarrow> nat) \<Rightarrow> client_metadata \<Rightarrow> bucket_location option \<Rightarrow> nat list \<Rightarrow> int list \<Rightarrow> gf_exn + int list" where
  "mark_buckets now draws md serverLocation [] status = Inr status"
| "mark_buckets now draws md serverLocation (i # is) status =
     andThen (getServerLocation (draws i) (of_nat i) False None 0 md) (\<lambda>(bsl, _).
     andThen (if same_pointer bsl serverLocation then setBucketTimeout now (of_nat i) status else Inr status)
       (mark_buckets now draws md serverLocation is))"

definition markPrimaryBucketForTimeoutButLookSecondaryBucket ::
  "('k \<Rightarrow> u32) \<Rightarrow> int \<Rightarrow> nat \<Rightarrow> (nat \<Rightarrow> nat) \<Rightarrow> 'k region \<Rightarrow> 'k \<Rightarrow> bucket_location option \<Rightarrow> byte \<Rightarrow> cm_service \<Rightarrow>
   gf_exn + (bucket_location option \<times> byte \<times> cm_service)" where
  "markPrimaryBucketForTimeoutButLookSecondaryBucket hashcode now r draws region key serverLocation version svc =
     (if m_bucketWaitTimeout svc = 0 then Inr (serverLocation, version, svc)
      else
        case al_find (m_bucketStatus svc) (fst region) of
          None \<Rightarrow> Inr (serverLocation, version, svc)
        | Some status \<Rightarrow>
            andThen (getBucketServerLocation hashcode r (Some region) key True serverLocation version svc) (\<lambda>(l, v).
              case getClientMetadata (fst region) svc of
                None \<Rightarrow> Inr (l, v, svc)
              | Some md \<Rightarrow>
                  andThen (mark_buckets now draws md l [0..<nat (sint (m_totalNumBuckets md))] status) (\<lambda>status1.
                    Inr (l, v, svc\<lparr>m_bucketStatus := al_assign (fst region) status1 (m_bucketStatus svc)\<rparr>))))"

definition isBucketMarkedForTimeout ::
  "int \<Rightarrow> ustring \<Rightarrow> u32 \<Rightarrow> cm_service \<Rightarrow> gf_exn + (bool \<times> cm_service)" where
  "isBucketMarkedForTimeout now regionFullPath bucketid svc =
     (if m_bucketWaitTimeout svc = 0 then Inr (False, svc)
      else
        case al_find (m_bucketStatus svc) regionFullPath of
          None \<Rightarrow> Inr (False, svc)
        | Some status \<Rightarrow>
            andThen (isBucketTimedOut now bucketid (m_bucketWaitTimeout svc) status) (\<lambda>(b, status1).
              Inr (b, svc\<lparr>m_bucketStatus := al_assign regionFullPath status1 (m_bucketStatus svc)\<rparr>)))"

section \<open>Which servers host a bucket\<close>

text \<open>Keys of server maps are pairs that the proofs below never take apart.\<close>

declare split_paired_All [simp del] split_paired_Ex [simp del]

definition hosts :: "client_metadata \<Rightarrow> u32 \<Rightarrow> (ustring \<times> u32) set" where
  "hosts md b = loc_key ` set (m_bucketServerLocationsList md ! unat b)"

definition keyed :: "'a server_map \<Rightarrow> bool" where
  "keyed m \<longleftrightarrow> al_wf m \<and> (\<forall>k l x. al_find m k = Some (l, x) \<longrightarrow> loc_key l = k)"

lemma set_insert_set [simp]: "set (set_insert x xs) = insert x (set xs)"
  by (auto simp: set_insert_def)

lemma fold_set_insert_set: "set (fold set_insert xs ys) = set xs \<union> set ys"
  by (induction xs arbitrary: ys) auto

lemma add_bucket_find:
  "al_find (add_bucket b l m) k =
     (if k = loc_key l then Some (case al_find m k of None \<Rightarrow> (l, [b]) | Some (l0, bs) \<Rightarrow> (l0, set_insert b bs))
      else al_find m k)"
  by (auto simp: add_bucket_def split: option.splits)

lemma keyed_add_bucket:
  assumes "keyed m"
  shows "keyed (add_bucket b l m)"
proof -
  have "al_wf (add_bucket b l m)" using assms by (auto simp: keyed_def add_bucket_def split: option.splits)
  moreover have "loc_key l' = k" if "al_find (add_bucket b l m) k = Some (l', x)" for k l' x
    using that assms by (auto simp: keyed_def add_bucket_find split: if_splits option.splits)
  ultimately show ?thesis by (auto simp: keyed_def)
qed

definition buckets_at :: "u32 list server_map \<Rightarrow> ustring \<times> u32 \<Rightarrow> u32 set" where
  "buckets_at m k = (case al_find m k of None \<Rightarrow> {} | Some (l, bs) \<Rightarrow> set bs)"

lemma buckets_at_add:
  "buckets_at (add_bucket b l m) k = (if k = loc_key l then insert b (buckets_at m k) else buckets_at m k)"
  by (auto simp: buckets_at_def add_bucket_find split: option.splits)

lemma fold_add_bucket:
  "keyed m \<Longrightarrow> keyed (fold (add_bucket b) ls m) \<and>
   (\<forall>k. buckets_at (fold (add_bucket b) ls m) k =
      (if k \<in> loc_key ` set ls then insert b (buckets_at m k) else buckets_at m k))"
  by (induction ls arbitrary: m) (auto simp: keyed_add_bucket buckets_at_add)

lemma buckets_at_erase: "buckets_at (al_erase k' m) k = (if k = k' then {} else buckets_at m k)"
  by (simp add: buckets_at_def)

text \<open>The map of all servers that host one of the buckets \<open>B\<close>.\<close>

definition collected :: "client_metadata \<Rightarrow> u32 set \<Rightarrow> u32 list server_map \<Rightarrow> bool" where
  "collected md B m \<longleftrightarrow>
     keyed m \<and> (\<forall>k. buckets_at m k = {b \<in> B. k \<in> hosts md b}) \<and> (\<forall>b \<in> B. hosts md b \<noteq> {})"

lemma adviseServerLocations_Inr:
  assumes "adviseServerLocations b md = Inr ls"
  shows "ls = m_bucketServerLocationsList md ! unat b"
  using assms by (auto simp: adviseServerLocations_def andThen_Inr_conv)

lemma collect_servers_collected:
  assumes "collected md B m" "collect_servers md bs m = Inr (Some m')"
  shows "collected md (B \<union> set bs) m'"
  using assms
proof (induction bs arbitrary: B m)
  case (Cons b bs)
  then obtain ls where ls: "adviseServerLocations b md = Inr ls" "ls \<noteq> []"
    "collect_servers md bs (fold (add_bucket b) ls m) = Inr (Some m')"
    by (auto simp: andThen_Inr_conv split: if_splits)
  have h: "hosts md b = loc_key ` set ls" using adviseServerLocations_Inr[OF ls(1)] by (simp add: hosts_def)
  have "collected md (insert b B) (fold (add_bucket b) ls m)"
    using Cons.prems(1) fold_add_bucket[of m b ls] ls(2) unfolding collected_def h[symmetric] by (auto simp: h)
  from Cons.IH[OF this ls(3)] show ?case by simp
qed simp

lemma collected_empty: "collected md {} []"
  by (simp add: collected_def keyed_def buckets_at_def)

section \<open>The next server\<close>

lemma best_servers_mem:
  "set (best_servers cur m mx nodes) \<subseteq> set nodes \<union> (fst \<circ> snd) ` set m"
  by (induction cur m mx nodes rule: best_servers.induct) (auto simp: Let_def)

lemma best_servers_nonempty: "nodes \<noteq> [] \<Longrightarrow> best_servers cur m mx nodes \<noteq> []"
  by (induction cur m mx nodes rule: best_servers.induct) (auto simp: Let_def)

lemma best_servers_some: "m \<noteq> [] \<Longrightarrow> best_servers cur m 0 [] \<noteq> []"
  by (cases m) (auto simp: best_servers_nonempty Let_def split: if_splits)

lemma findNextServer_cases:
  assumes "keyed m"
  shows "m = [] \<and> findNextServer r m cur = None \<or>
    (\<exists>server bs. findNextServer r m cur = Some server \<and> al_find m (loc_key server) = Some (server, bs))"
proof (cases "m = []")
  case False
  define nodes where "nodes = best_servers cur m 0 []"
  have n: "nodes \<noteq> []" using best_servers_some[OF False] by (simp add: nodes_def)
  then have f: "findNextServer r m cur = Some (nodes ! (r mod length nodes))"
    by (simp add: findNextServer_def nodes_def Let_def)
  have "nodes ! (r mod length nodes) \<in> set nodes" using n by simp
  then have "nodes ! (r mod length nodes) \<in> (fst \<circ> snd) ` set m"
    using best_servers_mem[of cur m 0 "[]"] by (auto simp: nodes_def)
  then obtain k bs where "(k, nodes ! (r mod length nodes), bs) \<in> set m" by auto
  with assms have "al_find m k = Some (nodes ! (r mod length nodes), bs)"
    by (simp add: keyed_def al_find_in_set)
  with assms f show ?thesis by (auto simp: keyed_def)
qed (simp add: findNextServer_def)

section \<open>Pruning\<close>

text \<open>
  The servers chosen so far carry each covered bucket exactly once, at a host of the bucket.
\<close>

definition assigned :: "client_metadata \<Rightarrow> u32 set \<Rightarrow> u32 list server_map \<Rightarrow> bool" where
  "assigned md B m \<longleftrightarrow>
     keyed m \<and> (\<forall>b \<in> B. \<exists>!k. b \<in> buckets_at m k) \<and>
     (\<forall>k. \<forall>b \<in> buckets_at m k. b \<in> B \<and> k \<in> hosts md b)"

definition prune_inv ::
  "client_metadata \<Rightarrow> u32 set \<Rightarrow> u32 list server_map \<Rightarrow> u32 list \<Rightarrow> u32 list server_map \<Rightarrow> bool" where
  "prune_inv md B m cur pruned \<longleftrightarrow>
     keyed m \<and> (\<forall>k. al_find m k \<noteq> None \<longrightarrow> buckets_at m k = {b \<in> B. k \<in> hosts md b}) \<and>
     set cur \<subseteq> B \<and> assigned md (set cur) pruned \<and>
     (\<forall>b \<in> B - set cur. \<exists>k \<in> hosts md b. al_find m k \<noteq> None) \<and>
     (\<forall>k. al_find m k \<noteq> None \<longrightarrow> al_find pruned k = None)"

lemma keyed_erase: "keyed m \<Longrightarrow> keyed (al_erase k m)"
  by (auto simp: keyed_def)

lemma prune_inv_drop:
  assumes inv: "prune_inv md B m cur pruned" and f: "al_find m k = Some (l, bs)" and e: "set bs \<subseteq> set cur"
  shows "prune_inv md B (al_erase k m) cur pruned"
proof -
  have k: "set bs = {b \<in> B. k \<in> hosts md b}"
    using inv f by (auto simp: prune_inv_def buckets_at_def)
  have "\<exists>k' \<in> hosts md b. al_find (al_erase k m) k' \<noteq> None" if b: "b \<in> B - set cur" for b
  proof -
    from inv b obtain k' where "k' \<in> hosts md b" "al_find m k' \<noteq> None" unfolding prune_inv_def by blast
    moreover have "k \<notin> hosts md b" using k e b by auto
    ultimately show ?thesis by auto
  qed
  with inv show ?thesis
    by (auto simp: prune_inv_def keyed_erase buckets_at_def)
qed

lemma prune_inv_add:
  assumes inv: "prune_inv md B m cur pruned" and f: "al_find m (loc_key server) = Some (server, bs)"
  shows "prune_inv md B (al_erase (loc_key server) m) (fold set_insert (filter (\<lambda>b. b \<notin> set cur) bs) cur)
    (al_emplace (loc_key server) (server, filter (\<lambda>b. b \<notin> set cur) bs) pruned)"
proof -
  let ?k = "loc_key server"
  let ?bs = "filter (\<lambda>b. b \<notin> set cur) bs"
  let ?cur = "fold set_insert ?bs cur"
  let ?pruned = "al_emplace ?k (server, ?bs) pruned"
  have at: "set bs = {b \<in> B. ?k \<in> hosts md b}" and fresh: "al_find pruned ?k = None" and as: "assigned md (set cur) pruned"
    using inv f by (auto simp: prune_inv_def buckets_at_def)
  have cur: "set ?cur = set cur \<union> set bs" by (auto simp: fold_set_insert_set)
  have ba: "buckets_at ?pruned k = (if k = ?k then set bs - set cur else buckets_at pruned k)" for k
    using fresh by (auto simp: buckets_at_def)
  have kp: "keyed ?pruned"
    using as fresh by (auto simp: keyed_def assigned_def split: if_splits)
  have old: "b \<in> buckets_at pruned k \<Longrightarrow> b \<in> set cur \<and> k \<in> hosts md b" for b k
    using as by (auto simp: assigned_def)
  have "\<exists>!k. b \<in> buckets_at ?pruned k" if "b \<in> set ?cur" for b
  proof (cases "b \<in> set cur")
    case True
    with as have "\<exists>!k. b \<in> buckets_at pruned k" by (simp add: assigned_def)
    moreover have "b \<in> buckets_at ?pruned k \<longleftrightarrow> b \<in> buckets_at pruned k" for k
      using True fresh by (auto simp: ba buckets_at_def)
    ultimately show ?thesis by simp
  next
    case False
    with that have "b \<in> set bs" by (simp add: cur)
    with False old show ?thesis by (intro ex1I[of _ ?k]) (auto simp: ba split: if_splits)
  qed
  moreover have "b \<in> set ?cur \<and> k \<in> hosts md b" if "b \<in> buckets_at ?pruned k" for b k
    using that at old[of b k] unfolding cur ba by (auto split: if_splits)
  ultimately have "assigned md (set ?cur) ?pruned" using kp unfolding assigned_def by blast
  moreover have "prune_inv md B (al_erase ?k m) ?cur ?pruned \<longleftrightarrow> assigned md (set ?cur) ?pruned"
  proof -
    have "\<exists>k' \<in> hosts md b. al_find (al_erase ?k m) k' \<noteq> None" if b: "b \<in> B - set ?cur" for b
    proof -
      have "b \<in> B - set cur" using b cur by auto
      with inv obtain k' where "k' \<in> hosts md b" "al_find m k' \<noteq> None" unfolding prune_inv_def by blast
      moreover have "?k \<notin> hosts md b" using at b cur by auto
      ultimately show ?thesis by (intro bexI[of _ k']) auto
    qed
    then show ?thesis
      using inv at cur
      by (auto simp: prune_inv_def keyed_erase buckets_at_def split: if_splits)
  qed
  ultimately show ?thesis by simp
qed

lemma prune_loop_assigns:
  assumes "prune_inv md (set buckets) m cur pruned"
  shows "\<exists>p. prune_loop draws i buckets m cur pruned = Inr p \<and> assigned md (set buckets) p"
  using assms
proof (induction draws i buckets m cur pruned rule: prune_loop.induct)
  case (1 draws i buckets m cur pruned)
  note inv = "1.prems"
  then have km: "keyed m" and as: "assigned md (set cur) pruned" and sub: "set cur \<subseteq> set buckets"
    and left: "\<forall>b \<in> set buckets - set cur. \<exists>k \<in> hosts md b. al_find m k \<noteq> None"
    by (auto simp: prune_inv_def)
  show ?case
  proof (cases "set buckets = set cur")
    case True
    with as show ?thesis by (subst prune_loop.simps) simp
  next
    case False
    with sub obtain b where "b \<in> set buckets - set cur" by blast
    with left have "m \<noteq> []" by force
    with findNextServer_cases[OF km] obtain server bs where f: "findNextServer (draws i) m cur = Some server"
      and at: "al_find m (loc_key server) = Some (server, bs)" by blast
    let ?bs = "filter (\<lambda>b. b \<notin> set cur) bs"
    let ?m = "al_erase (loc_key server) m"
    show ?thesis
    proof (cases "?bs = []")
      case True
      then have "prune_inv md (set buckets) ?m cur pruned"
        by (intro prune_inv_drop[OF inv at]) (auto simp: filter_empty_conv)
      with "1.IH"(1)[OF False f at refl refl True] have
        "\<exists>p. prune_loop draws (i + 1) buckets ?m cur pruned = Inr p \<and> assigned md (set buckets) p" by simp
      with True False f at show ?thesis by (subst prune_loop.simps) simp
    next
      case nonempty: False
      from "1.IH"(2)[OF False f at refl refl nonempty] prune_inv_add[OF inv at] have
        "\<exists>p. prune_loop draws (i + 1) buckets ?m (fold set_insert ?bs cur) (al_emplace (loc_key server) (server, ?bs) pruned) = Inr p
           \<and> assigned md (set buckets) p" by simp
      with nonempty False f at show ?thesis by (subst prune_loop.simps) (simp add: Let_def)
    qed
  qed
qed

lemma first_index_less: "0 < sz \<Longrightarrow> idx < sz \<Longrightarrow> first_index draws sz idx < sz"
proof (induction draws sz idx rule: first_index.induct)
  case (1 draws sz idx)
  have "idx < draws idx mod sz \<Longrightarrow> idx + 1 < sz"
    using "1.prems" mod_less_divisor[of sz "draws idx"] by linarith
  with 1 show ?case by (subst first_index.simps) simp
qed

lemma prune_inv_start:
  assumes col: "collected md B m" and f: "al_find m key = Some (l, bs)"
  shows "prune_inv md B (al_erase key m) bs [(key, l, bs)]"
proof -
  have ba: "\<forall>k. buckets_at m k = {b \<in> B. k \<in> hosts md b}" and km: "keyed m" and ne: "\<forall>b \<in> B. hosts md b \<noteq> {}"
    using col by (simp_all add: collected_def)
  have bs: "set bs = {b \<in> B. key \<in> hosts md b}" using ba f by (auto simp: buckets_at_def dest: spec[of _ key])
  have one: "buckets_at [(key, l, bs)] k = (if k = key then set bs else {})" for k
    by (simp add: buckets_at_def al_find_def)
  have "keyed [(key, l, bs)]" using km f by (auto simp: keyed_def al_wf_def al_find_def split: if_splits)
  then have as: "assigned md (set bs) [(key, l, bs)]" by (auto simp: assigned_def one bs)
  have "\<exists>k \<in> hosts md b. al_find (al_erase key m) k \<noteq> None" if b: "b \<in> B - set bs" for b
  proof -
    from ne b obtain k where k: "k \<in> hosts md b" by blast
    then have "b \<in> buckets_at m k" using ba b by auto
    then have "al_find m k \<noteq> None" by (auto simp: buckets_at_def split: option.splits)
    moreover have "k \<noteq> key" using k b bs by auto
    ultimately show ?thesis using k by auto
  qed
  with km as ba bs show ?thesis
    by (auto simp: prune_inv_def keyed_erase buckets_at_erase al_find_Cons split: if_splits)
qed

section \<open>Properties\<close>

text \<open>
  C5. For reads, the buckets of a request are spread over servers completely and without
  overlap: whenever all buckets are known and have a location, pruning ends and returns a
  map in which every bucket is listed under exactly one server, which hosts it, and no
  server is listed with any other bucket. The result does not depend on the random choices
  for this to hold.
\<close>

theorem pruneNodes_partitions:
  assumes "buckets \<noteq> []" and "\<forall>b \<in> set buckets. \<exists>ls. adviseServerLocations b md = Inr ls \<and> ls \<noteq> []"
  shows "\<exists>p. pruneNodes first draws md buckets = Inr (Some p) \<and>
    (\<forall>b \<in> set buckets. \<exists>!k. b \<in> buckets_at p k) \<and>
    (\<forall>k. \<forall>b \<in> buckets_at p k. b \<in> set buckets \<and> k \<in> hosts md b)"
proof -
  have "\<exists>m'. collect_servers md bs m = Inr (Some m')" if "set bs \<subseteq> set buckets" for bs m
    using that
  proof (induction bs arbitrary: m)
    case (Cons b bs)
    with assms(2) obtain ls where "adviseServerLocations b md = Inr ls" "ls \<noteq> []" by auto
    with Cons show ?case by simp
  qed simp
  then obtain m where m: "collect_servers md buckets [] = Inr (Some m)" by blast
  have col: "collected md (set buckets) m" using collect_servers_collected[OF collected_empty m] by simp
  obtain b where b: "b \<in> set buckets" using assms(1) by (cases buckets) auto
  with col obtain k where "k \<in> hosts md b" unfolding collected_def by blast
  with col b have "b \<in> buckets_at m k" by (simp add: collected_def)
  then have ne: "m \<noteq> []" by (auto simp: buckets_at_def)
  define idx where "idx = first_index first (length m) 0"
  have "idx < length m" using ne first_index_less by (simp add: idx_def)
  moreover obtain key l bs where e: "m ! idx = (key, l, bs)" by (metis prod.exhaust)
  ultimately have "(key, l, bs) \<in> set m" by (metis nth_mem)
  with col have "al_find m key = Some (l, bs)" by (simp add: collected_def keyed_def al_find_in_set)
  from prune_loop_assigns[OF prune_inv_start[OF col this], of draws 0]
  obtain p where p: "prune_loop draws 0 buckets (al_erase key m) bs [(key, l, bs)] = Inr p" "assigned md (set buckets) p"
    by blast
  then have "pruneNodes first draws md buckets = Inr (Some p)"
    using m ne e by (simp add: pruneNodes_def idx_def[symmetric])
  with p(2) show ?thesis by (simp add: assigned_def)
qed

definition loc_a :: bucket_location where
  "loc_a = new_BucketServerLocation 0 0 40404 [97] True 1 []"

definition loc_b :: bucket_location where
  "loc_b = new_BucketServerLocation 1 1 40405 [98] False 1 []"

definition two_buckets :: client_metadata where
  "two_buckets = \<lparr>m_partitionNames = None, m_bucketServerLocationsList = [[loc_a], [loc_b, loc_a]],
     m_previousOne = None, m_totalNumBuckets = 2, m_colocatedWith = [], m_tcrdm = Some [], m_fpaMap = []\<rparr>"

lemma two_buckets_advise:
  "adviseServerLocations 0 two_buckets = Inr [loc_a]" "adviseServerLocations 1 two_buckets = Inr [loc_b, loc_a]"
  by (simp_all add: adviseServerLocations_def checkBucketId_def two_buckets_def)

theorem pruneNodes_partitions_witness:
  "\<exists>p. pruneNodes (\<lambda>_. 0) (\<lambda>_. 0) two_buckets [0, 1] = Inr (Some p) \<and> (\<exists>!k. 1 \<in> buckets_at p k)"
proof -
  have "\<forall>b \<in> set [0, 1]. \<exists>ls. adviseServerLocations b two_buckets = Inr ls \<and> ls \<noteq> []"
    using two_buckets_advise by simp
  then obtain p where "pruneNodes (\<lambda>_. 0) (\<lambda>_. 0) two_buckets [0, 1] = Inr (Some p)"
    "\<forall>b \<in> set [0, 1]. \<exists>!k. b \<in> buckets_at p k"
    using pruneNodes_partitions[of "[0, 1]" two_buckets "\<lambda>_. 0" "\<lambda>_. 0"] by blast
  then show ?thesis by (intro exI[of _ p]) simp
qed

section \<open>Grouping keys\<close>

definition all_keys :: "'k list server_map \<Rightarrow> 'k multiset" where
  "all_keys m = mset (concat (map (\<lambda>(k, l, ks). ks) m))"

lemma all_keys_assign:
  "al_find m k = Some (l0, ks) \<Longrightarrow> all_keys (al_assign k (l0, ks @ [key]) m) = add_mset key (all_keys m)"
proof (induction m)
  case (Cons p m)
  then show ?case by (cases p) (auto simp: al_find_Cons all_keys_def split: if_splits)
qed simp

lemma all_keys_add: "all_keys (add_key key l m) = add_mset key (all_keys m)"
proof (cases "al_find m (loc_key l)")
  case None
  then show ?thesis by (simp add: add_key_def al_emplace_def all_keys_def)
next
  case (Some p)
  then show ?thesis by (cases p) (simp add: add_key_def all_keys_assign)
qed

text \<open>The server named by \<open>k\<close> hosts the bucket of the key.\<close>

definition routed :: "('k \<Rightarrow> u32) \<Rightarrow> 'k resolver option \<Rightarrow> client_metadata \<Rightarrow> 'k \<Rightarrow> ustring \<times> u32 \<Rightarrow> bool" where
  "routed hashcode resolver md key k \<longleftrightarrow>
     (\<exists>rk b. resolve_key resolver key = Inr rk \<and> abs_rem (hashcode rk) (m_totalNumBuckets md) = Inr b \<and> k \<in> hosts md b)"

definition keys_routed :: "('k \<Rightarrow> u32) \<Rightarrow> 'k resolver option \<Rightarrow> client_metadata \<Rightarrow> 'k list server_map \<Rightarrow> bool" where
  "keys_routed hashcode resolver md m \<longleftrightarrow>
     (\<forall>(k, l, ks) \<in> set m. \<forall>key \<in> set ks. routed hashcode resolver md key k)"

lemma set_al_assign: "set (al_assign k v m) \<subseteq> insert (k, v) (set m)"
  by (induction m) auto

lemma al_find_mem: "al_find m k = Some v \<Longrightarrow> (k, v) \<in> set m"
  by (simp add: al_find_def map_of_SomeD)

lemma keys_routed_add:
  assumes "keys_routed hashcode resolver md m" "routed hashcode resolver md key (loc_key l)"
  shows "keys_routed hashcode resolver md (add_key key l m)"
proof (cases "al_find m (loc_key l)")
  case None
  with assms show ?thesis by (auto simp: add_key_def al_emplace_def keys_routed_def)
next
  case (Some p)
  obtain l0 ks where p: "p = (l0, ks)" by (cases p)
  have "\<forall>key' \<in> set (ks @ [key]). routed hashcode resolver md key' (loc_key l)"
    using assms al_find_mem[OF Some] by (auto simp: keys_routed_def p)
  with assms(1) Some show ?thesis
    using set_al_assign[of "loc_key l" "(l0, ks @ [key])" m] by (fastforce simp: add_key_def p keys_routed_def)
qed

lemma getServerLocation_hosts:
  assumes "getServerLocation r b isPrimary None v md = Inr (Some l, v')"
  shows "loc_key l \<in> hosts md b"
proof -
  let ?ls = "m_bucketServerLocationsList md ! unat b"
  from assms have "?ls \<noteq> []" by (auto simp: getServerLocation_def andThen_Inr_conv Let_def split: if_splits)
  moreover from this assms have "l = ?ls ! 0 \<or> l = ?ls ! (r mod length ?ls)"
    by (auto simp: getServerLocation_def andThen_Inr_conv Let_def split: if_splits)
  ultimately show ?thesis by (auto simp: hosts_def)
qed

lemma filter_loop_partitions:
  assumes "filter_loop hashcode draws i resolver isPrimary md keys buckets m = Inr (Some m')"
    and "\<forall>b l. al_find buckets b = Some l \<longrightarrow> loc_key l \<in> hosts md b" and "keys_routed hashcode resolver md m"
  shows "all_keys m' = mset keys + all_keys m \<and> keys_routed hashcode resolver md m'"
  using assms
proof (induction keys arbitrary: i buckets m)
  case (Cons key keys)
  from Cons.prems(1) obtain rk b where rk: "resolve_key resolver key = Inr rk"
    and b: "abs_rem (hashcode rk) (m_totalNumBuckets md) = Inr b"
    by (auto simp: andThen_Inr_conv resolve_key_def split: option.splits)
  have unresolve: "(case resolver of None \<Rightarrow> Inr key | Some rv \<Rightarrow>
      (case getRoutingObject rv key of None \<Rightarrow> Inl MemoryFault | Some k \<Rightarrow> Inr k)) = Inr rk"
    using rk by (auto simp: resolve_key_def split: option.splits)
  have step: "?case" if l: "loc_key l \<in> hosts md b"
    and rest: "filter_loop hashcode draws (i + 1) resolver isPrimary md keys buckets' (add_key key l m) = Inr (Some m')"
    and bs: "\<forall>b l. al_find buckets' b = Some l \<longrightarrow> loc_key l \<in> hosts md b" for l buckets'
  proof -
    have "routed hashcode resolver md key (loc_key l)" using rk b l by (auto simp: routed_def)
    from Cons.IH[OF rest bs keys_routed_add[OF Cons.prems(3) this]] show ?thesis by (simp add: all_keys_add)
  qed
  show ?case
  proof (cases "al_find buckets b")
    case (Some l)
    with Cons.prems b unresolve show ?thesis by (intro step[of l buckets]) simp_all
  next
    case None
    with Cons.prems(1) b unresolve obtain l v where g: "getServerLocation (draws i) b isPrimary None (-1) md = Inr (Some l, v)"
      and rest: "filter_loop hashcode draws (i + 1) resolver isPrimary md keys (al_assign b l buckets) (add_key key l m) = Inr (Some m')"
      by (auto simp: andThen_Inr_conv split: option.splits if_splits)
    note h = getServerLocation_hosts[OF g]
    from step[OF h rest] Cons.prems(2) h show ?thesis by (auto split: if_splits)
  qed
qed simp

text \<open>
  A request for many keys is split without loss: when the grouping succeeds, every key
  occurs as often in the lists of the servers as in the request, and each list belongs to a
  server that hosts the bucket of each of its keys.
\<close>

lemma getServerToFilterMap_partitions:
  assumes "getServerToFilterMap hashcode draws keys region isPrimary svc = Inr (Some m)"
  shows "\<exists>md. getClientMetadata (fst region) svc = Some md \<and> all_keys m = mset keys \<and>
    (\<forall>(k, l, ks) \<in> set m. \<forall>key \<in> set ks. \<exists>rk b. resolve_key (snd region) key = Inr rk \<and>
       abs_rem (hashcode rk) (m_totalNumBuckets md) = Inr b \<and> k \<in> hosts md b)"
proof -
  from assms obtain md where md: "getClientMetadata (fst region) svc = Some md"
    and f: "filter_loop hashcode draws 0 (snd region) isPrimary md keys [] [] = Inr (Some m)"
    by (auto simp: getServerToFilterMap_def andThen_Inr_conv split: option.splits if_splits)
  have "keys_routed hashcode (snd region) md []" by (simp add: keys_routed_def)
  from filter_loop_partitions[OF f _ this] md show ?thesis
    by (simp add: keys_routed_def routed_def all_keys_def)
qed

definition small_service :: cm_service where
  "small_service = \<lparr>cms_store = [two_buckets], m_regionMetaDataMap = [([47, 114], 0)], m_regionQueue = [],
     m_bucketStatus = [], m_bucketWaitTimeout = 0, cms_serverGroup = [], prMetadataUpdated = False,
     serverGroupFlag = 0, networkHopFlag = False, metaDataRefreshed = []\<rparr>"

end
