(* ===== verification/Expiry_Tasks.thy ===== *)
theory Expiry_Tasks
  imports Geode_Prelude
begin

text \<open>
  Timed tasks: \<open>ExpiryTask.cpp\<close> and \<open>ExpiryTaskManager.cpp\<close>. A manager numbers the
  tasks it is given, keeps them in a map while they are scheduled, and its thread calls a
  task back when the task's timer fires. Task objects are shared between the map and the
  timer callbacks, so they live in a store and the map holds references. The timer is a
  class of the Boost library: its operations are arguments of the model. The lemmas show
  that ids are fresh while the counter has not wrapped, and that a cancelled task is never
  run again.
\<close>

section \<open>Tasks\<close>

text \<open>
  \<open>boost::asio::steady_timer\<close>: setting a new expiry time and cancelling both return how
  many pending waits they cancelled.
\<close>

record 't timer_ops =
  expires_at :: "int \<Rightarrow> 't \<Rightarrow> nat \<times> 't"
  async_wait :: "'t \<Rightarrow> 't"
  timer_cancel :: "'t \<Rightarrow> nat \<times> 't"
  expiry :: "'t \<Rightarrow> int"

record 't expiry_task =
  task_id :: u64
  task_timer :: 't
  task_interval :: int
  task_cancelled :: bool

definition invalid_id :: u64 where
  "invalid_id = 2 ^ 64 - 1"

definition new_ExpiryTask :: "'t \<Rightarrow> int \<Rightarrow> 't expiry_task" where
  "new_ExpiryTask timer junk =
     \<lparr>task_id = invalid_id, task_timer = timer, task_interval = junk, task_cancelled = False\<rparr>"

definition periodic :: "'t expiry_task \<Rightarrow> bool" where
  "periodic t = (task_interval t \<noteq> 0)"

definition reset_at :: "'t timer_ops \<Rightarrow> int \<Rightarrow> 't expiry_task \<Rightarrow> u32 \<times> 't expiry_task" where
  "reset_at ops at t =
     (if task_cancelled t then (-1, t)
      else
        let (n, timer) = expires_at ops at (task_timer t)
        in (of_nat n, t\<lparr>task_timer := async_wait ops timer\<rparr>))"

definition reset_task :: "'t timer_ops \<Rightarrow> int \<Rightarrow> int \<Rightarrow> 't expiry_task \<Rightarrow> u32 \<times> 't expiry_task" where
  "reset_task ops now ns t = reset_at ops (now + ns) t"

definition cancel_task :: "'t timer_ops \<Rightarrow> 't expiry_task \<Rightarrow> u32 \<times> 't expiry_task" where
  "cancel_task ops t =
     (let (n, timer) = timer_cancel ops (task_timer t)
      in (of_nat n, t\<lparr>task_cancelled := True, task_timer := timer\<rparr>))"

section \<open>The manager\<close>

text \<open>\<open>em_task\<close> is the store of task objects.\<close>

record 't expiry_manager =
  running :: bool
  task_map :: "(u64 \<times> nat) list"
  last_task_id :: u64
  em_task :: "nat \<Rightarrow> 't expiry_task"

definition new_ExpiryTaskManager :: "(nat \<Rightarrow> 't expiry_task) \<Rightarrow> 't expiry_manager" where
  "new_ExpiryTaskManager tasks =
     \<lparr>running = False, task_map = [], last_task_id = 0, em_task = tasks\<rparr>"

definition update_task ::
  "nat \<Rightarrow> ('t expiry_task \<Rightarrow> u32 \<times> 't expiry_task) \<Rightarrow> 't expiry_manager \<Rightarrow> u32 \<times> 't expiry_manager" where
  "update_task ref f m =
     (let (n, t) = f (em_task m ref) in (n, m\<lparr>em_task := (em_task m)(ref := t)\<rparr>))"

definition start_manager :: "'t expiry_manager \<Rightarrow> gf_exn + 't expiry_manager" where
  "start_manager m = (if running m then Inl IllegalStateException else Inr (m\<lparr>running := True\<rparr>))"

definition cancel_all :: "'t timer_ops \<Rightarrow> 't expiry_manager \<Rightarrow> 't expiry_manager" where
  "cancel_all ops m =
     (let m1 = fold (\<lambda>(i, ref) m. snd (update_task ref (cancel_task ops) m)) (task_map m) m
      in m1\<lparr>task_map := []\<rparr>)"

definition stop_manager :: "'t timer_ops \<Rightarrow> 't expiry_manager \<Rightarrow> gf_exn + 't expiry_manager" where
  "stop_manager ops m =
     (if \<not> running m then Inl IllegalStateException else Inr (cancel_all ops (m\<lparr>running := False\<rparr>)))"

text \<open>
  \<open>emplace\<close> leaves a task that is already registered under the id in place; the timer
  that is started is that of the registered task.
\<close>

definition schedule ::
  "'t timer_ops \<Rightarrow> int \<Rightarrow> nat \<Rightarrow> int \<Rightarrow> int \<Rightarrow> 't expiry_manager \<Rightarrow> u64 \<times> 't expiry_manager" where
  "schedule ops now ref delay interval m =
     (if \<not> running m then (invalid_id, m)
      else
        let (tid, last) = (if last_task_id m = invalid_id then (0, 0)
                           else (last_task_id m, last_task_id m + 1));
            task = (em_task m ref)\<lparr>task_id := tid, task_interval := interval\<rparr>;
            m1 = m\<lparr>last_task_id := last, em_task := (em_task m)(ref := task),
                   task_map := al_emplace tid ref (task_map m)\<rparr>;
            target = (case al_find (task_map m1) tid of Some r \<Rightarrow> r | None \<Rightarrow> ref)
        in (tid, snd (update_task target (reset_task ops now delay) m1)))"

definition reset_id :: "'t timer_ops \<Rightarrow> int \<Rightarrow> u64 \<Rightarrow> int \<Rightarrow> 't expiry_manager \<Rightarrow> u32 \<times> 't expiry_manager" where
  "reset_id ops now tid delay m =
     (case al_find (task_map m) tid of
        None \<Rightarrow> (-1, m)
      | Some ref \<Rightarrow> update_task ref (reset_task ops now delay) m)"

definition cancel_id :: "'t timer_ops \<Rightarrow> u64 \<Rightarrow> 't expiry_manager \<Rightarrow> u32 \<times> 't expiry_manager" where
  "cancel_id ops tid m =
     (case al_find (task_map m) tid of
        None \<Rightarrow> (-1, m)
      | Some ref \<Rightarrow>
          let (n, m1) = update_task ref (cancel_task ops) m
          in (n, m1\<lparr>task_map := al_erase tid (task_map m1)\<rparr>))"

definition remove_id :: "u64 \<Rightarrow> 't expiry_manager \<Rightarrow> 't expiry_manager" where
  "remove_id tid m = m\<lparr>task_map := al_erase tid (task_map m)\<rparr>"

text \<open>
  The timer calls a task back; \<open>on_expire\<close> is the task's own method, which may change the
  manager and the rest of the program's state.
\<close>

definition on_callback ::
  "'t timer_ops \<Rightarrow> bool \<Rightarrow> nat \<Rightarrow> ('t expiry_manager \<times> 'w \<Rightarrow> bool \<times> 't expiry_manager \<times> 'w) \<Rightarrow>
   't expiry_manager \<times> 'w \<Rightarrow> 't expiry_manager \<times> 'w" where
  "on_callback ops err ref on_expire mw =
     (if task_cancelled (em_task (fst mw) ref) \<or> err then mw
      else
        let (ok, m, w) = on_expire mw in
        if \<not> ok then (m, w)
        else if periodic (em_task m ref)
        then (snd (update_task ref
                (\<lambda>t. reset_at ops (expiry ops (task_timer t) + task_interval t) t) m), w)
        else (remove_id (task_id (em_task m ref)) m, w))"

section \<open>Ids\<close>

text \<open>Every registered id is below the counter, and a registered task knows its id.\<close>

definition em_inv :: "'t expiry_manager \<Rightarrow> bool" where
  "em_inv m \<longleftrightarrow>
     (\<forall>i ref. al_find (task_map m) i = Some ref \<longrightarrow> i < last_task_id m \<and> task_id (em_task m ref) = i)"

lemma reset_at_proj [simp]:
  "task_cancelled (snd (reset_at ops at t)) = task_cancelled t"
  "task_id (snd (reset_at ops at t)) = task_id t"
  "task_interval (snd (reset_at ops at t)) = task_interval t"
  by (simp_all add: reset_at_def split: prod.split)

lemma reset_task_proj [simp]:
  "task_cancelled (snd (reset_task ops now d t)) = task_cancelled t"
  "task_id (snd (reset_task ops now d t)) = task_id t"
  "task_interval (snd (reset_task ops now d t)) = task_interval t"
  by (simp_all add: reset_task_def)

lemma cancel_task_proj [simp]:
  "task_cancelled (snd (cancel_task ops t))"
  "task_id (snd (cancel_task ops t)) = task_id t"
  by (simp_all add: cancel_task_def split: prod.split)

lemma update_task_proj [simp]:
  "fst (update_task ref f m) = fst (f (em_task m ref))"
  "running (snd (update_task ref f m)) = running m"
  "task_map (snd (update_task ref f m)) = task_map m"
  "last_task_id (snd (update_task ref f m)) = last_task_id m"
  "em_task (snd (update_task ref f m)) = (em_task m)(ref := snd (f (em_task m ref)))"
  by (simp_all add: update_task_def split: prod.split)

lemma schedule_running:
  assumes "running m" "last_task_id m \<noteq> invalid_id" "al_find (task_map m) (last_task_id m) = None"
    "schedule ops now ref d i m = (tid, m')"
  shows "tid = last_task_id m" "last_task_id m' = last_task_id m + 1"
    "al_find (task_map m') = (al_find (task_map m))(tid \<mapsto> ref)"
    "\<And>r. task_id (em_task m' r) = (if r = ref then tid else task_id (em_task m r))"
    "\<And>r. r \<noteq> ref \<Longrightarrow> em_task m' r = em_task m r"
  using assms by (auto simp: schedule_def Let_def fun_eq_iff)

lemma em_inv_fresh: "em_inv m \<Longrightarrow> al_find (task_map m) (last_task_id m) = None"
  by (cases "al_find (task_map m) (last_task_id m)") (auto simp: em_inv_def)

lemma id_less_next:
  assumes "w \<noteq> invalid_id"
  shows "w < w + 1"
proof -
  have "unat w \<noteq> 2 ^ 64 - 1"
    using assms by (auto simp: invalid_id_def word_unat_eq_iff)
  then have "Suc (unat w) < 2 ^ 64"
    using unsigned_less[of w, where ?'a = nat] by simp
  then show ?thesis by (simp add: word_less_nat_alt unat_word_ariths)
qed

lemma schedule_inv:
  assumes "em_inv m" "running m" "last_task_id m \<noteq> invalid_id"
    "\<forall>i. al_find (task_map m) i \<noteq> Some ref" "schedule ops now ref d i m = (tid, m')"
  shows "em_inv m'"
proof -
  note s = schedule_running[OF assms(2,3) em_inv_fresh[OF assms(1)] assms(5)]
  have lt: "last_task_id m < last_task_id m + 1"
    by (rule id_less_next[OF assms(3)])
  show ?thesis
    unfolding em_inv_def
  proof (intro allI impI)
    fix i r assume "al_find (task_map m') i = Some r"
    then show "i < last_task_id m' \<and> task_id (em_task m' r) = i"
      using assms(1,4) lt less_trans[OF _ lt, of i] by (cases "i = tid") (auto simp: s em_inv_def)
  qed
qed

lemma cancel_id_spec:
  assumes "al_find (task_map m) tid = Some ref" "cancel_id ops tid m = (n, m')"
  shows "al_find (task_map m') = (al_find (task_map m))(tid := None)" "task_cancelled (em_task m' ref)"
    "last_task_id m' = last_task_id m" "\<And>r. task_id (em_task m' r) = task_id (em_task m r)"
    "\<And>r. task_cancelled (em_task m r) \<Longrightarrow> task_cancelled (em_task m' r)"
  using assms by (auto simp: cancel_id_def fun_eq_iff case_prod_unfold)

section \<open>Cancelled tasks\<close>

text \<open>
  What can happen to a manager: calls of its operations from any thread, and callbacks, in
  which the task's own method again calls the manager.
\<close>

inductive em_run :: "'t timer_ops \<Rightarrow> 't expiry_manager \<Rightarrow> 't expiry_manager \<Rightarrow> bool" for ops where
  idle: "em_run ops m m"
| start: "em_run ops m m1 \<Longrightarrow> start_manager m1 = Inr m2 \<Longrightarrow> em_run ops m m2"
| stop: "em_run ops m m1 \<Longrightarrow> stop_manager ops m1 = Inr m2 \<Longrightarrow> em_run ops m m2"
| schedule: "em_run ops m m1 \<Longrightarrow> schedule ops now ref delay interval m1 = (tid, m2) \<Longrightarrow> em_run ops m m2"
| reset: "em_run ops m m1 \<Longrightarrow> reset_id ops now tid delay m1 = (n, m2) \<Longrightarrow> em_run ops m m2"
| cancel: "em_run ops m m1 \<Longrightarrow> cancel_id ops tid m1 = (n, m2) \<Longrightarrow> em_run ops m m2"
| callback: "em_run ops m m1 \<Longrightarrow> em_run ops m1 (fst (snd (on_expire (m1, ())))) \<Longrightarrow>
    on_callback ops err ref on_expire (m1, ()) = (m2, w) \<Longrightarrow> em_run ops m m2"

lemma fold_cancel_proj:
  "task_map (fold (\<lambda>(i, ref) m. snd (update_task ref (cancel_task ops) m)) xs m) = task_map m"
  "task_cancelled (em_task m r) \<or> r \<in> snd ` set xs \<Longrightarrow>
     task_cancelled (em_task (fold (\<lambda>(i, ref) m. snd (update_task ref (cancel_task ops) m)) xs m) r)"
  by (induction xs arbitrary: m) auto

lemma cancelled_schedule:
  "task_cancelled (em_task m r) \<Longrightarrow> task_cancelled (em_task (snd (schedule ops now ref d i m)) r)"
  by (simp add: schedule_def Let_def case_prod_unfold) metis

lemma cancelled_ids:
  "task_cancelled (em_task m r) \<Longrightarrow> task_cancelled (em_task (snd (reset_id ops now tid d m)) r)"
  "task_cancelled (em_task m r) \<Longrightarrow> task_cancelled (em_task (snd (cancel_id ops tid m)) r)"
  by (auto simp: reset_id_def cancel_id_def case_prod_unfold split: option.split)

lemma cancelled_stays:
  assumes "em_run ops m m'" "task_cancelled (em_task m r)"
  shows "task_cancelled (em_task m' r)"
  using assms
proof (induction rule: em_run.induct)
  case (stop m m1 m2)
  then show ?case
    by (auto simp: stop_manager_def cancel_all_def Let_def fold_cancel_proj split: if_splits)
next
  case (schedule m m1 now ref delay interval tid m2)
  then show ?case using cancelled_schedule[of m1 r ops now ref delay interval] by simp
next
  case (reset m m1 now tid delay n m2)
  then show ?case using cancelled_ids(1)[of m1 r ops now tid delay] by simp
next
  case (cancel m m1 tid n m2)
  then show ?case using cancelled_ids(2)[of m1 r ops tid] by simp
next
  case (callback m m1 on_expire err ref m2 w)
  then have "task_cancelled (em_task m1 r)" "task_cancelled (em_task (fst (snd (on_expire (m1, ())))) r)"
    by blast+
  with callback.hyps(3) show ?case
    by (auto simp: on_callback_def remove_id_def case_prod_unfold Let_def split: if_splits)
qed (auto simp: start_manager_def split: if_splits)

text \<open>A timer as a pair of the number of pending waits and the expiry time, for examples.\<close>

definition wait_count :: "(nat \<times> int) timer_ops" where
  "wait_count = \<lparr>expires_at = \<lambda>at (n, e). (n, 0, at), async_wait = \<lambda>(n, e). (n + 1, e),
     timer_cancel = \<lambda>(n, e). (n, 0, e), expiry = snd\<rparr>"

definition small_manager :: "(u64 \<times> nat) list \<Rightarrow> u64 \<Rightarrow> (nat \<times> int) expiry_manager" where
  "small_manager tasks counter = \<lparr>running = True, task_map = tasks, last_task_id = counter,
     em_task = \<lambda>ref. (new_ExpiryTask (1, 10) 0)\<lparr>task_id := 0\<rparr>\<rparr>"

section \<open>Properties\<close>

text \<open>
  C23. A cancelled task never runs again: once \<open>cancel\<close> has returned for the id of a task,
  the task is no longer registered, and whatever is done with the manager afterwards, by
  callers or by other tasks, a callback of the task's timer leaves everything as it is and a
  reset of the task is refused.
\<close>

theorem cancelled_task_never_runs:
  assumes "al_find (task_map m) tid = Some ref" "cancel_id ops tid m = (n, m1)" "em_run ops m1 m2"
  shows "al_find (task_map m1) tid = None \<and> on_callback ops err ref on_expire (m2, w) = (m2, w) \<and>
    fst (reset_task ops now d (em_task m2 ref)) = -1"
proof -
  have "task_cancelled (em_task m2 ref)"
    using cancelled_stays[OF assms(3) cancel_id_spec(2)[OF assms(1,2)]] .
  then show ?thesis
    using cancel_id_spec(1)[OF assms(1,2)] by (simp add: on_callback_def reset_task_def reset_at_def)
qed

theorem cancelled_task_never_runs_witness:
  "on_callback wait_count False 5 (\<lambda>(m, w). (True, m, w + 1))
     (snd (cancel_id wait_count 0 (small_manager [(0, 5)] 1)), 7 :: nat) =
   (snd (cancel_id wait_count 0 (small_manager [(0, 5)] 1)), 7)"
proof -
  obtain n m where 1: "cancel_id wait_count 0 (small_manager [(0, 5)] 1) = (n, m)"
    by (rule prod.exhaust)
  have "al_find (task_map (small_manager [(0, 5)] 1)) 0 = Some 5"
    by (simp add: small_manager_def al_find_Cons)
  from cancelled_task_never_runs[OF this 1 em_run.idle] show ?thesis
    unfolding 1 snd_conv by (rule conjunct1[OF conjunct2])
qed

text \<open>
  Ids are fresh: while the counter has not reached its largest value, scheduling a task
  in a running manager registers it under an id no registered task has, disturbs no other
  task, and keeps every registered id below the counter. A manager that is not running
  refuses the task and stays as it is.
\<close>

lemma schedule_gives_fresh_id:
  assumes "em_inv m" "last_task_id m \<noteq> invalid_id" "\<forall>i. al_find (task_map m) i \<noteq> Some ref"
    "schedule ops now ref d i m = (tid, m')"
  shows "if running m
    then em_inv m' \<and> al_find (task_map m) tid = None \<and>
         al_find (task_map m') = (al_find (task_map m))(tid \<mapsto> ref) \<and>
         (\<forall>r. r \<noteq> ref \<longrightarrow> em_task m' r = em_task m r)
    else tid = invalid_id \<and> m' = m"
proof (cases "running m")
  case True
  note s = schedule_running[OF True assms(2) em_inv_fresh[OF assms(1)] assms(4)]
  show ?thesis
    using True s schedule_inv[OF assms(1) True assms(2-4)] em_inv_fresh[OF assms(1)] by simp
qed (use assms(4) in \<open>simp add: schedule_def\<close>)

text \<open>
  After the counter has run through, the same id is given out twice: the task scheduled
  at the largest value of the counter and the next one both get number zero. The second is
  not registered at all, and a cancellation under its id hits the first.
\<close>

lemma task_id_zero_twice:
  assumes "running m" "last_task_id m = invalid_id" "al_find (task_map m) 0 = None" "a \<noteq> b"
    "schedule ops now a d i m = (t1, m1)" "schedule ops now' b d' i' m1 = (t2, m2)"
    "cancel_id ops t2 m2 = (n, m3)"
  shows "t1 = 0 \<and> t2 = 0 \<and> al_find (task_map m2) 0 = Some a \<and> task_cancelled (em_task m3 a) \<and>
    em_task m3 b = em_task m2 b"
proof -
  have 1: "t1 = 0" "running m1" "last_task_id m1 = 0" "al_find (task_map m1) 0 = Some a"
    using assms(1-3,5) by (auto simp: schedule_def Let_def)
  have 2: "t2 = 0" "al_find (task_map m2) 0 = Some a"
    using 1 assms(6) by (auto simp: schedule_def Let_def invalid_id_def)
  show ?thesis
    using 1 2 assms(4,7) by (auto simp: cancel_id_def case_prod_unfold)
qed

end
