(* ===== verification/Tx_Manager.thy ===== *)
theory Tx_Manager
  imports Expiry_Tasks
begin

text \<open>
  Client transactions: the transaction manager with its list of open transactions and its
  map of suspended ones (\<open>CacheTransactionManagerImpl.cpp\<close>), the two-phase variant
  (\<open>InternalCacheTransactionManager2PCImpl.cpp\<close>), the state of a transaction and its
  number (\<open>TXState.cpp\<close>, \<open>TXId.cpp\<close>), the guard that ends a transaction
  (\<open>TXCleaner.cpp\<close>) and the timed rollback of a suspended one
  (\<open>SuspendedTxExpiryTask.cpp\<close>). What is thread local in the code is indexed by the
  thread here, so operations of several threads are steps on one state. The pools of
  connections and the servers' replies are arguments.
\<close>

section \<open>State\<close>

text \<open>A thread's connection: the name of its endpoint and the pool the endpoint belongs to.\<close>

record tcr_conn =
  conn_name :: string
  conn_pool :: "nat option"

record tx_state =
  m_txId :: u32
  m_modSerialNum :: u32
  m_closed :: bool
  m_dirty :: bool
  m_prepared :: bool
  m_replay :: bool
  epNameStr :: string
  m_pooldm :: "nat option"
  m_suspendedExpiryTaskId :: u64

text \<open>
  \<open>tss_state\<close> and \<open>tss_conn\<close> are the thread local transaction and connection,
  \<open>task_tx\<close> the transaction a timed rollback is for.
\<close>

record 't tx_manager =
  m_suspendedTXs :: "(u32 \<times> tx_state) list"
  m_TXs :: "u32 list"
  m_transactionId :: u32
  tss_state :: "nat \<Rightarrow> tx_state option"
  tss_conn :: "nat \<Rightarrow> tcr_conn option"
  task_tx :: "nat \<Rightarrow> u32"
  expiry_tasks :: "'t expiry_manager"

text \<open>
  What the manager uses of the pools: whether a pool keeps a connection per thread, and the
  result of asking it for a connection to an endpoint.
\<close>

record pool_env =
  isSticky :: "nat \<Rightarrow> bool"
  getConnectionToAnEndPoint :: "nat \<Rightarrow> string \<Rightarrow> gf_err \<times> tcr_conn option"

datatype msg_type = RESPONSE | EXCEPTION | COMMIT_ERROR | REQUEST_DATA_ERROR | REPLY | OtherMessage

text \<open>
  The outcome of a request: the error of sending it, the type of the reply, the error code
  of a server exception, and whether the reply carries a commit message.
\<close>

record tx_reply =
  rp_err :: gf_err
  rp_type :: msg_type
  rp_exception :: gf_err
  rp_commit :: bool

text \<open>
  \<open>GfErr\<close> is the exception thrown for an error code, \<open>NoTransaction\<close> a
  \<open>TransactionException\<close> and \<open>NullDereference\<close> the use of a null pointer.
\<close>

datatype tx_exn = GfErr gf_err | NoTransaction | NullDereference

type_synonym ('a, 't) tx_op = "'t tx_manager \<Rightarrow> (tx_exn + 'a) \<times> 't tx_manager"

section \<open>Numbers and states of transactions\<close>

text \<open>The next number, as a positive 32-bit integer.\<close>

definition new_TXId :: "'t tx_manager \<Rightarrow> u32 \<times> 't tx_manager" where
  "new_TXId m =
     (let next_id = (if m_transactionId m = 0x7fffffff then 1 else m_transactionId m + 1)
      in (next_id, m\<lparr>m_transactionId := next_id\<rparr>))"

text \<open>
  The constructor takes two numbers: one for the member's own construction and one for the
  object it is then assigned from.
\<close>

definition new_TXState :: "'t tx_manager \<Rightarrow> tx_state \<times> 't tx_manager" where
  "new_TXState m =
     (let (i0, m1) = new_TXId m; (i1, m2) = new_TXId m1
      in (\<lparr>m_txId = i1, m_modSerialNum = 0, m_closed = False, m_dirty = False, m_prepared = False,
           m_replay = False, epNameStr = [], m_pooldm = None, m_suspendedExpiryTaskId = 0\<rparr>, m2))"

definition releaseStickyConnection :: "pool_env \<Rightarrow> nat \<Rightarrow> 't tx_manager \<Rightarrow> 't tx_manager" where
  "releaseStickyConnection env th m =
     (case tss_conn m th of
        Some conn \<Rightarrow>
          (case conn_pool conn of
             Some dm \<Rightarrow> if \<not> isSticky env dm then m\<lparr>tss_conn := (tss_conn m)(th := None)\<rparr> else m
           | None \<Rightarrow> m)
      | None \<Rightarrow> m)"

definition setTXState :: "nat \<Rightarrow> tx_state option \<Rightarrow> 't tx_manager \<Rightarrow> 't tx_manager" where
  "setTXState th tx m = m\<lparr>tss_state := (tss_state m)(th := tx)\<rparr>"

section \<open>The lists of the manager\<close>

definition addTx :: "u32 \<Rightarrow> 't tx_manager \<Rightarrow> 't tx_manager" where
  "addTx i m = m\<lparr>m_TXs := m_TXs m @ [i]\<rparr>"

definition removeTx :: "u32 \<Rightarrow> 't tx_manager \<Rightarrow> 't tx_manager" where
  "removeTx i m = m\<lparr>m_TXs := filter (\<lambda>j. j \<noteq> i) (m_TXs m)\<rparr>"

definition findTx :: "u32 \<Rightarrow> 't tx_manager \<Rightarrow> bool" where
  "findTx i m = (i \<in> set (m_TXs m))"

definition addSuspendedTx :: "u32 \<Rightarrow> tx_state \<Rightarrow> 't tx_manager \<Rightarrow> 't tx_manager" where
  "addSuspendedTx i tx m = m\<lparr>m_suspendedTXs := al_assign i tx (m_suspendedTXs m)\<rparr>"

definition getSuspendedTx :: "u32 \<Rightarrow> 't tx_manager \<Rightarrow> tx_state option" where
  "getSuspendedTx i m = al_find (m_suspendedTXs m) i"

definition removeSuspendedTx :: "u32 \<Rightarrow> 't tx_manager \<Rightarrow> tx_state option \<times> 't tx_manager" where
  "removeSuspendedTx i m =
     (case al_find (m_suspendedTXs m) i of
        None \<Rightarrow> (None, m)
      | Some tx \<Rightarrow> (Some tx, m\<lparr>m_suspendedTXs := al_erase i (m_suspendedTXs m)\<rparr>))"

text \<open>
  The variant that waits releases the lock while it waits; \<open>others\<close> is what the other
  threads do to the manager until the wait ends.
\<close>

definition removeSuspendedTx_wait ::
  "('t tx_manager \<Rightarrow> 't tx_manager) \<Rightarrow> u32 \<Rightarrow> 't tx_manager \<Rightarrow> tx_state option \<times> 't tx_manager" where
  "removeSuspendedTx_wait others i m =
     (case removeSuspendedTx i m of
        (Some tx, m1) \<Rightarrow> (Some tx, m1)
      | (None, m1) \<Rightarrow> removeSuspendedTx i (others m1))"

definition isSuspendedTx :: "u32 \<Rightarrow> 't tx_manager \<Rightarrow> bool" where
  "isSuspendedTx i m = (al_find (m_suspendedTXs m) i \<noteq> None)"

definition exists_id :: "u32 \<Rightarrow> 't tx_manager \<Rightarrow> bool" where
  "exists_id i m = findTx i m"

definition exists_tx :: "nat \<Rightarrow> 't tx_manager \<Rightarrow> bool" where
  "exists_tx th m = (tss_state m th \<noteq> None)"

definition getTransactionId :: "nat \<Rightarrow> 't tx_manager \<Rightarrow> tx_exn + u32" where
  "getTransactionId th m =
     (case tss_state m th of None \<Rightarrow> Inl NullDereference | Some tx \<Rightarrow> Inr (m_txId tx))"

definition getDM :: "nat \<Rightarrow> 't tx_manager \<Rightarrow> nat option" where
  "getDM th m = (case tss_conn m th of None \<Rightarrow> None | Some conn \<Rightarrow> conn_pool conn)"

section \<open>The guard that ends a transaction\<close>

text \<open>\<open>tx\<close> is the transaction the guard found when it was constructed.\<close>

definition clean :: "nat \<Rightarrow> tx_state option \<Rightarrow> 't tx_manager \<Rightarrow> 't tx_manager" where
  "clean th tx m =
     (case tx of None \<Rightarrow> m | Some t \<Rightarrow> setTXState th None (removeTx (m_txId t) m))"

definition delete_TXCleaner :: "pool_env \<Rightarrow> nat \<Rightarrow> tx_state option \<Rightarrow> 't tx_manager \<Rightarrow> 't tx_manager" where
  "delete_TXCleaner env th tx m =
     (let m1 = clean th tx m in
      case tx of None \<Rightarrow> m1 | Some t \<Rightarrow> releaseStickyConnection env th m1)"

section \<open>Begin, commit, rollback\<close>

definition new_CacheTransactionManagerImpl :: "'t expiry_manager \<Rightarrow> 't tx_manager" where
  "new_CacheTransactionManagerImpl em =
     \<lparr>m_suspendedTXs = [], m_TXs = [], m_transactionId = 0, tss_state = (\<lambda>th. None),
      tss_conn = (\<lambda>th. None), task_tx = (\<lambda>ref. 0), expiry_tasks = em\<rparr>"

definition begin_tx :: "nat \<Rightarrow> (unit, 't) tx_op" where
  "begin_tx th m =
     (if tss_state m th \<noteq> None then (Inl (GfErr GF_CACHE_ILLEGAL_STATE_EXCEPTION), m)
      else
        let (tx, m1) = new_TXState m
        in (Inr (), addTx (m_txId tx) (setTXState th (Some tx) m1)))"

text \<open>
  The result of a commit says whether a commit message of the servers was applied to the
  cache. A reply without one is used all the same.
\<close>

definition commit_tx :: "pool_env \<Rightarrow> nat \<Rightarrow> tx_reply \<Rightarrow> (bool, 't) tx_op" where
  "commit_tx env th reply m =
     (let cleaner = tss_state m th; finish = delete_TXCleaner env th cleaner in
      if tss_state m th = None then (Inl (GfErr GF_CACHE_ILLEGAL_STATE_EXCEPTION), finish m)
      else if getDM th m = None then (Inr False, finish m)
      else if rp_err reply \<noteq> GF_NOERR then (Inl (GfErr (rp_err reply)), finish m)
      else
        case rp_type reply of
          RESPONSE \<Rightarrow>
            (let m1 = clean th cleaner m in
             if rp_commit reply then (Inr True, finish m1) else (Inl NullDereference, m1))
        | EXCEPTION \<Rightarrow> (Inl (GfErr (rp_exception reply)), finish m)
        | COMMIT_ERROR \<Rightarrow> (Inl (GfErr GF_COMMIT_CONFLICT_EXCEPTION), finish m)
        | _ \<Rightarrow> (Inl (GfErr GF_MSG), finish m))"

definition rollback_request :: "nat \<Rightarrow> tx_reply \<Rightarrow> 't tx_manager \<Rightarrow> gf_err" where
  "rollback_request th reply m = (if getDM th m = None then GF_NOERR else rp_err reply)"

definition rollback_tx :: "pool_env \<Rightarrow> nat \<Rightarrow> tx_reply \<Rightarrow> (unit, 't) tx_op" where
  "rollback_tx env th reply m =
     (let cleaner = tss_state m th; finish = delete_TXCleaner env th cleaner in
      if tss_state m th = None then (Inl (GfErr GF_CACHE_ILLEGAL_STATE_EXCEPTION), finish m)
      else
        let err = rollback_request th reply m in
        (if err \<noteq> GF_NOERR then Inl (GfErr err) else Inr (), finish m))"

section \<open>Suspend and resume\<close>

text \<open>
  \<open>ref\<close> is the new task object of the timed rollback, \<open>timer\<close> its timer, and
  \<open>now\<close> the time of the call.
\<close>

definition suspend_tx ::
  "'t timer_ops \<Rightarrow> pool_env \<Rightarrow> int \<Rightarrow> int \<Rightarrow> nat \<Rightarrow> 't \<Rightarrow> nat \<Rightarrow> (u32, 't) tx_op" where
  "suspend_tx ops env now timeout ref timer th m =
     (case tss_state m th of
        None \<Rightarrow> (Inl NoTransaction, m)
      | Some tx \<Rightarrow>
          (case tss_conn m th of
             None \<Rightarrow> (Inl NoTransaction, m)
           | Some conn \<Rightarrow>
               let tx1 = tx\<lparr>epNameStr := conn_name conn, m_pooldm := conn_pool conn\<rparr>;
                   m1 = releaseStickyConnection env th m;
                   em = (expiry_tasks m1)\<lparr>em_task := (em_task (expiry_tasks m1))(ref := new_ExpiryTask timer 0)\<rparr>;
                   (tid, em1) = schedule ops now ref timeout 0 em;
                   m2 = m1\<lparr>expiry_tasks := em1, task_tx := (task_tx m1)(ref := m_txId tx1)\<rparr>;
                   tx2 = tx1\<lparr>m_suspendedExpiryTaskId := tid\<rparr>;
                   m3 = addSuspendedTx (m_txId tx2) tx2 m2
               in (Inr (m_txId tx2), setTXState th None m3)))"

definition resumeTxUsingTxState ::
  "'t timer_ops \<Rightarrow> pool_env \<Rightarrow> nat \<Rightarrow> tx_state \<Rightarrow> bool \<Rightarrow> (unit, 't) tx_op" where
  "resumeTxUsingTxState ops env th tx cancelExpiryTask m =
     (let m1 = (if cancelExpiryTask
                then m\<lparr>expiry_tasks := snd (cancel_id ops (m_suspendedExpiryTaskId tx) (expiry_tasks m))\<rparr>
                else m);
          m2 = setTXState th (Some tx) m1
      in case m_pooldm tx of
           None \<Rightarrow> (Inl NullDereference, m2)
         | Some dm \<Rightarrow>
             let (err, conn) = getConnectionToAnEndPoint env dm (epNameStr tx) in
             if conn = None \<or> err \<noteq> GF_NOERR
             then (Inl (GfErr GF_CACHE_ILLEGAL_STATE_EXCEPTION), setTXState th None m2)
             else (Inr (), m2\<lparr>tss_conn := (tss_conn m2)(th := conn)\<rparr>))"

definition resume_tx :: "'t timer_ops \<Rightarrow> pool_env \<Rightarrow> nat \<Rightarrow> u32 \<Rightarrow> (unit, 't) tx_op" where
  "resume_tx ops env th i m =
     (if tss_state m th \<noteq> None then (Inl (GfErr GF_CACHE_ILLEGAL_STATE_EXCEPTION), m)
      else
        case removeSuspendedTx i m of
          (None, m1) \<Rightarrow> (Inl (GfErr GF_CACHE_ILLEGAL_STATE_EXCEPTION), m1)
        | (Some tx, m1) \<Rightarrow> resumeTxUsingTxState ops env th tx True m1)"

text \<open>A result of true after the call that did the work returned normally.\<close>

definition resumed :: "(tx_exn + unit) \<times> 't tx_manager \<Rightarrow> (tx_exn + bool) \<times> 't tx_manager" where
  "resumed r = (andThen (fst r) (\<lambda>_. Inr True), snd r)"

definition tryResume_cancel :: "'t timer_ops \<Rightarrow> pool_env \<Rightarrow> nat \<Rightarrow> u32 \<Rightarrow> bool \<Rightarrow> (bool, 't) tx_op" where
  "tryResume_cancel ops env th i cancelExpiryTask m =
     (if tss_state m th \<noteq> None then (Inr False, m)
      else
        case removeSuspendedTx i m of
          (None, m1) \<Rightarrow> (Inr False, m1)
        | (Some tx, m1) \<Rightarrow> resumed (resumeTxUsingTxState ops env th tx cancelExpiryTask m1))"

definition tryResume :: "'t timer_ops \<Rightarrow> pool_env \<Rightarrow> nat \<Rightarrow> u32 \<Rightarrow> (bool, 't) tx_op" where
  "tryResume ops env th i m = tryResume_cancel ops env th i True m"

definition tryResume_wait ::
  "'t timer_ops \<Rightarrow> pool_env \<Rightarrow> ('t tx_manager \<Rightarrow> 't tx_manager) \<Rightarrow> nat \<Rightarrow> u32 \<Rightarrow> (bool, 't) tx_op" where
  "tryResume_wait ops env others th i m =
     (if tss_state m th \<noteq> None then (Inr False, m)
      else if \<not> exists_id i m then (Inr False, m)
      else
        case removeSuspendedTx_wait others i m of
          (None, m1) \<Rightarrow> (Inr False, m1)
        | (Some tx, m1) \<Rightarrow> resumed (resumeTxUsingTxState ops env th tx True m1))"

text \<open>
  The timed rollback runs on the manager's own thread \<open>th\<close>. It swallows every exception
  and reports that it was rescheduled.
\<close>

definition on_expire_tx ::
  "'t timer_ops \<Rightarrow> pool_env \<Rightarrow> nat \<Rightarrow> tx_reply \<Rightarrow> nat \<Rightarrow> 't tx_manager \<Rightarrow> bool \<times> 't tx_manager" where
  "on_expire_tx ops env th reply ref m =
     (case tryResume_cancel ops env th (task_tx m ref) False m of
        (Inr True, m1) \<Rightarrow> (False, snd (rollback_tx env th reply m1))
      | (_, m1) \<Rightarrow> (False, m1))"

text \<open>
  The end of a thread: its transaction and its connection go with the thread local storage.
\<close>

definition delete_TSSTXStateWrapper :: "nat \<Rightarrow> 't tx_manager \<Rightarrow> 't tx_manager" where
  "delete_TSSTXStateWrapper th m = (setTXState th None m)\<lparr>tss_conn := (tss_conn m)(th := None)\<rparr>"

text \<open>A transaction set aside for a nested operation, and put back.\<close>

definition new_TransactionSuspender :: "nat \<Rightarrow> 't tx_manager \<Rightarrow> tx_state option \<times> 't tx_manager" where
  "new_TransactionSuspender th m = (tss_state m th, setTXState th None m)"

definition delete_TransactionSuspender :: "nat \<Rightarrow> tx_state option \<Rightarrow> 't tx_manager \<Rightarrow> 't tx_manager" where
  "delete_TransactionSuspender th tx m = setTXState th tx m"

section \<open>The two-phase variant\<close>

definition STATUS_COMMITTED :: u32 where
  "STATUS_COMMITTED = 3"

definition STATUS_ROLLEDBACK :: u32 where
  "STATUS_ROLLEDBACK = 4"

definition prepare :: "pool_env \<Rightarrow> nat \<Rightarrow> tx_reply \<Rightarrow> (unit, 't) tx_op" where
  "prepare env th reply m =
     (case tss_state m th of
        None \<Rightarrow> (Inl (GfErr GF_CACHE_ILLEGAL_STATE_EXCEPTION), m)
      | Some tx \<Rightarrow>
          if getDM th m = None then (Inr (), m)
          else if rp_err reply \<noteq> GF_NOERR then (Inl (GfErr (rp_err reply)), m)
          else
            let finish = delete_TXCleaner env th (tss_state m th) in
            case rp_type reply of
              REPLY \<Rightarrow> (Inr (), setTXState th (Some (tx\<lparr>m_prepared := True\<rparr>)) m)
            | EXCEPTION \<Rightarrow> (Inl (GfErr (rp_exception reply)), finish m)
            | REQUEST_DATA_ERROR \<Rightarrow> (Inl (GfErr GF_COMMIT_CONFLICT_EXCEPTION), finish m)
            | _ \<Rightarrow> (Inl (GfErr GF_MSG), finish m))"

definition afterCompletion :: "pool_env \<Rightarrow> nat \<Rightarrow> tx_reply \<Rightarrow> u32 \<Rightarrow> (bool, 't) tx_op" where
  "afterCompletion env th reply status m =
     (case tss_state m th of
        None \<Rightarrow> (Inl (GfErr GF_CACHE_ILLEGAL_STATE_EXCEPTION), m)
      | Some tx \<Rightarrow>
          let finish = delete_TXCleaner env th (tss_state m th) in
          if getDM th m = None then (Inr False, finish m)
          else if \<not> m_prepared tx then
            (if status = STATUS_COMMITTED then commit_tx env th reply m
             else if status = STATUS_ROLLEDBACK then
               (case rollback_tx env th reply m of (r, m1) \<Rightarrow> (andThen r (\<lambda>_. Inr False), m1))
             else (Inl (GfErr GF_CACHE_ILLEGAL_STATE_EXCEPTION), m))
          else if rp_err reply \<noteq> GF_NOERR then (Inl (GfErr (rp_err reply)), finish m)
          else
            case rp_type reply of
              RESPONSE \<Rightarrow>
                if rp_commit reply then (Inr True, finish (clean th (tss_state m th) m)) else (Inr False, finish m)
            | EXCEPTION \<Rightarrow> (Inl (GfErr (rp_exception reply)), finish m)
            | REQUEST_DATA_ERROR \<Rightarrow> (Inl (GfErr GF_COMMIT_CONFLICT_EXCEPTION), finish m)
            | _ \<Rightarrow> (Inl (GfErr GF_MSG), finish m))"

definition commit_2pc :: "pool_env \<Rightarrow> nat \<Rightarrow> tx_reply \<Rightarrow> (bool, 't) tx_op" where
  "commit_2pc env th reply m = afterCompletion env th reply STATUS_COMMITTED m"

definition rollback_2pc :: "pool_env \<Rightarrow> nat \<Rightarrow> tx_reply \<Rightarrow> (bool, 't) tx_op" where
  "rollback_2pc env th reply m = afterCompletion env th reply STATUS_ROLLEDBACK m"

section \<open>Ownership\<close>

text \<open>
  Every transaction is in one place: it belongs to at most one thread, or it is suspended.
  All are among the open ones, whose numbers the counter has passed. The transactions in
  \<open>L\<close> are open but nobody has them.
\<close>

definition tx_inv :: "u32 set \<Rightarrow> 't tx_manager \<Rightarrow> bool" where
  "tx_inv L m \<longleftrightarrow>
     (\<forall>i tx. al_find (m_suspendedTXs m) i = Some tx \<longrightarrow> m_txId tx = i \<and> i \<in> set (m_TXs m)) \<and>
     (\<forall>th tx. tss_state m th = Some tx \<longrightarrow>
        m_txId tx \<in> set (m_TXs m) \<and> al_find (m_suspendedTXs m) (m_txId tx) = None) \<and>
     (\<forall>th th' tx tx'. tss_state m th = Some tx \<longrightarrow> tss_state m th' = Some tx' \<longrightarrow>
        m_txId tx = m_txId tx' \<longrightarrow> th = th') \<and>
     (\<forall>i \<in> set (m_TXs m). i \<le> m_transactionId m) \<and> m_transactionId m \<le> 0x7fffffff \<and>
     (\<forall>i \<in> L. i \<in> set (m_TXs m) \<and> al_find (m_suspendedTXs m) i = None \<and>
        (\<forall>th tx. tss_state m th = Some tx \<longrightarrow> m_txId tx \<noteq> i))"

lemma tx_invD:
  assumes "tx_inv L m"
  shows "al_find (m_suspendedTXs m) i = Some tx \<Longrightarrow> m_txId tx = i"
    "al_find (m_suspendedTXs m) i = Some tx \<Longrightarrow> i \<in> set (m_TXs m)"
    "tss_state m th = Some tx \<Longrightarrow> m_txId tx \<in> set (m_TXs m)"
    "tss_state m th = Some tx \<Longrightarrow> al_find (m_suspendedTXs m) (m_txId tx) = None"
    "tss_state m th = Some tx \<Longrightarrow> tss_state m th' = Some tx' \<Longrightarrow> m_txId tx = m_txId tx' \<Longrightarrow> th = th'"
    "i \<in> set (m_TXs m) \<Longrightarrow> i \<le> m_transactionId m" "m_transactionId m \<le> 0x7fffffff"
    "i \<in> L \<Longrightarrow> i \<in> set (m_TXs m)" "i \<in> L \<Longrightarrow> al_find (m_suspendedTXs m) i = None"
    "tss_state m th = Some tx \<Longrightarrow> m_txId tx \<notin> L"
  using assms unfolding tx_inv_def by blast+

lemma tx_invI:
  assumes "\<And>i tx. al_find (m_suspendedTXs m) i = Some tx \<Longrightarrow> m_txId tx = i \<and> i \<in> set (m_TXs m)"
    "\<And>th tx. tss_state m th = Some tx \<Longrightarrow> m_txId tx \<in> set (m_TXs m)"
    "\<And>th tx. tss_state m th = Some tx \<Longrightarrow> al_find (m_suspendedTXs m) (m_txId tx) = None"
    "\<And>th th' tx tx'. tss_state m th = Some tx \<Longrightarrow> tss_state m th' = Some tx' \<Longrightarrow> m_txId tx = m_txId tx' \<Longrightarrow> th = th'"
    "\<And>i. i \<in> set (m_TXs m) \<Longrightarrow> i \<le> m_transactionId m" "m_transactionId m \<le> 0x7fffffff"
    "\<And>i. i \<in> L \<Longrightarrow> i \<in> set (m_TXs m) \<and> al_find (m_suspendedTXs m) i = None"
    "\<And>th tx. tss_state m th = Some tx \<Longrightarrow> m_txId tx \<notin> L"
  shows "tx_inv L m"
  using assms unfolding tx_inv_def by blast

text \<open>Ownership does not depend on connections and timers.\<close>

lemma tx_inv_irrelevant [simp]:
  "tx_inv L (m\<lparr>tss_conn := c\<rparr>) = tx_inv L m"
  "tx_inv L (m\<lparr>expiry_tasks := e\<rparr>) = tx_inv L m"
  "tx_inv L (m\<lparr>task_tx := t\<rparr>) = tx_inv L m"
  by (simp_all add: tx_inv_def)

lemma release_proj [simp]:
  "m_suspendedTXs (releaseStickyConnection env th m) = m_suspendedTXs m"
  "m_TXs (releaseStickyConnection env th m) = m_TXs m"
  "m_transactionId (releaseStickyConnection env th m) = m_transactionId m"
  "tss_state (releaseStickyConnection env th m) = tss_state m"
  "expiry_tasks (releaseStickyConnection env th m) = expiry_tasks m"
  "task_tx (releaseStickyConnection env th m) = task_tx m"
  "tx_inv L (releaseStickyConnection env th m) = tx_inv L m"
  by (simp_all add: releaseStickyConnection_def split: option.split)

lemma setTXState_proj [simp]:
  "m_suspendedTXs (setTXState th tx m) = m_suspendedTXs m"
  "m_TXs (setTXState th tx m) = m_TXs m"
  "m_transactionId (setTXState th tx m) = m_transactionId m"
  "tss_state (setTXState th tx m) = (tss_state m)(th := tx)"
  "tss_conn (setTXState th tx m) = tss_conn m"
  "expiry_tasks (setTXState th tx m) = expiry_tasks m"
  "task_tx (setTXState th tx m) = task_tx m"
  by (simp_all add: setTXState_def)

lemma clean_proj [simp]:
  "m_suspendedTXs (clean th tx m) = m_suspendedTXs m"
  "m_transactionId (clean th tx m) = m_transactionId m"
  "tss_conn (clean th tx m) = tss_conn m"
  "expiry_tasks (clean th tx m) = expiry_tasks m"
  by (simp_all add: clean_def removeTx_def split: option.split)

lemma clean_state:
  "tss_state (clean th tx m) = (if tx = None then tss_state m else (tss_state m)(th := None))"
  "m_TXs (clean th tx m) = (case tx of None \<Rightarrow> m_TXs m | Some t \<Rightarrow> filter (\<lambda>j. j \<noteq> m_txId t) (m_TXs m))"
  by (simp_all add: clean_def removeTx_def split: option.split)

lemma clean_twice [simp]: "clean th tx (clean th tx m) = clean th tx m"
  by (simp add: clean_def removeTx_def setTXState_def split: option.split)

lemma inv_setTX_None:
  assumes "tx_inv L m"
  shows "tx_inv L (setTXState th None m)"
  unfolding tx_inv_def setTXState_proj using tx_invD[OF assms] by (auto split: if_splits)

lemma inv_clean:
  assumes "tx_inv L m" "tss_state m th = tx"
  shows "tx_inv L (clean th tx m)"
proof (cases tx)
  case (Some t)
  have own: "al_find (m_suspendedTXs m) (m_txId t) = None"
    "\<And>th' t'. tss_state m th' = Some t' \<Longrightarrow> m_txId t' = m_txId t \<Longrightarrow> th' = th"
    "m_txId t \<notin> L"
    using tx_invD(4,5,10)[OF assms(1)] assms(2) Some by blast+
  show ?thesis
    unfolding tx_inv_def clean_state clean_proj
    using tx_invD[OF assms(1)] own Some by (auto split: if_splits)
qed (use assms in \<open>simp add: clean_def\<close>)

lemma inv_delete_TXCleaner:
  assumes "tx_inv L m" "tss_state m th = tx"
  shows "tx_inv L (delete_TXCleaner env th tx m)"
  using inv_clean[OF assms] by (cases tx) (simp_all add: delete_TXCleaner_def)

lemma delete_TXCleaner_proj [simp]:
  "m_suspendedTXs (delete_TXCleaner env th tx m) = m_suspendedTXs m"
  "m_transactionId (delete_TXCleaner env th tx m) = m_transactionId m"
  "tss_state (delete_TXCleaner env th tx m) = tss_state (clean th tx m)"
  "m_TXs (delete_TXCleaner env th tx m) = m_TXs (clean th tx m)"
  "expiry_tasks (delete_TXCleaner env th tx m) = expiry_tasks m"
  by (cases tx; simp add: delete_TXCleaner_def)+

lemma delete_TXCleaner_clean [simp]:
  "delete_TXCleaner env th tx (clean th tx m) = delete_TXCleaner env th tx m"
  by (simp add: delete_TXCleaner_def)

text \<open>
  Where a commit or a rollback leaves the manager: the guard has ended the transaction, on
  every path.
\<close>

lemma commit_ends:
  "snd (commit_tx env th reply m) \<in> {delete_TXCleaner env th (tss_state m th) m, clean th (tss_state m th) m}"
  by (auto simp: commit_tx_def Let_def split: msg_type.split)

lemma rollback_ends: "snd (rollback_tx env th reply m) = delete_TXCleaner env th (tss_state m th) m"
  by (simp add: rollback_tx_def Let_def)

lemma delete_None [simp]: "delete_TXCleaner env th None m = m" "clean th None m = m"
  by (simp_all add: delete_TXCleaner_def clean_def)

lemma afterCompletion_ends:
  assumes "status = STATUS_COMMITTED \<or> status = STATUS_ROLLEDBACK"
  shows "snd (afterCompletion env th reply status m) \<in>
    {delete_TXCleaner env th (tss_state m th) m, clean th (tss_state m th) m}"
proof (cases "tss_state m th")
  case (Some tx)
  then show ?thesis
    using assms commit_ends[of env th reply m] rollback_ends[of env th reply m]
    by (auto simp: afterCompletion_def Let_def case_prod_unfold split: msg_type.split)
qed (simp add: afterCompletion_def)

lemma inv_ends:
  assumes "tx_inv L m" "m' \<in> {delete_TXCleaner env th (tss_state m th) m, clean th (tss_state m th) m}"
  shows "tx_inv L m'"
  using assms inv_clean[OF assms(1) refl] inv_delete_TXCleaner[OF assms(1) refl] by auto

lemma inv_same_id:
  assumes "tx_inv L m" "tss_state m th = Some tx" "m_txId tx' = m_txId tx"
  shows "tx_inv L (setTXState th (Some tx') m)"
proof (rule tx_invI)
  fix th1 th2 t1 t2
  assume "tss_state (setTXState th (Some tx') m) th1 = Some t1"
    "tss_state (setTXState th (Some tx') m) th2 = Some t2" "m_txId t1 = m_txId t2"
  then show "th1 = th2"
    using tx_invD(5)[OF assms(1)] assms(2,3) by (auto split: if_splits)
qed (use tx_invD(1-4,6-10)[OF assms(1)] assms(2,3) in \<open>auto split: if_splits\<close>)

lemma inv_prepare:
  assumes "tx_inv L m"
  shows "tx_inv L (snd (prepare env th reply m))"
proof (cases "tss_state m th")
  case (Some tx)
  then show ?thesis
    using inv_delete_TXCleaner[OF assms Some, of env] assms inv_same_id[OF assms Some, of "tx\<lparr>m_prepared := True\<rparr>"]
    by (simp add: prepare_def Let_def split: msg_type.split)
qed (use assms in \<open>simp add: prepare_def\<close>)

lemma new_TXState_spec:
  assumes "m_transactionId m < 0x7ffffffe" "new_TXState m = (tx, m1)"
  shows "m_txId tx = m_transactionId m + 2" "m1 = m\<lparr>m_transactionId := m_transactionId m + 2\<rparr>"
proof -
  have "m_transactionId m \<noteq> 0x7fffffff" "m_transactionId m + 1 \<noteq> 0x7fffffff"
    using assms(1) by (auto simp: word_less_nat_alt word_unat_eq_iff unat_word_ariths)
  then show "m_txId tx = m_transactionId m + 2" "m1 = m\<lparr>m_transactionId := m_transactionId m + 2\<rparr>"
    using assms(2) by (auto simp: new_TXState_def new_TXId_def Let_def)
qed

lemma next_ids:
  assumes "(c :: u32) < 0x7ffffffe"
  shows "c < c + 2" "c + 2 \<le> 0x7fffffff"
  using assms by (simp_all add: word_less_nat_alt word_le_nat_alt unat_word_ariths)

lemma inv_new_tx:
  assumes "tx_inv L m" "tss_state m th = None" "m_txId tx = i" "m_transactionId m < i" "i \<le> 0x7fffffff"
    "m' = addTx i (setTXState th (Some tx) (m\<lparr>m_transactionId := i\<rparr>))"
  shows "tx_inv L m'"
proof -
  have fresh: "j < i" if "j \<in> set (m_TXs m)" for j
    using tx_invD(6)[OF assms(1) that] assms(4) by simp
  have free: "al_find (m_suspendedTXs m) i = None" "\<And>th' t. tss_state m th' = Some t \<Longrightarrow> m_txId t \<noteq> i" "i \<notin> L"
    using tx_invD(2)[OF assms(1), of i] tx_invD(3,8)[OF assms(1)] fresh
    by (cases "al_find (m_suspendedTXs m) i"; force)+
  have m': "m_suspendedTXs m' = m_suspendedTXs m" "m_TXs m' = m_TXs m @ [i]" "m_transactionId m' = i"
    "tss_state m' = (tss_state m)(th := Some tx)"
    using assms(6) by (simp_all add: addTx_def)
  show ?thesis
  proof (rule tx_invI)
    fix th1 th2 t1 t2
    assume "tss_state m' th1 = Some t1" "tss_state m' th2 = Some t2" "m_txId t1 = m_txId t2"
    then show "th1 = th2"
      using tx_invD(5)[OF assms(1)] free(2) assms(3) by (auto simp: m' split: if_splits)
  next
    fix j assume "j \<in> set (m_TXs m')"
    then show "j \<le> m_transactionId m'" using fresh[of j] by (auto simp: m')
  qed (use tx_invD(1-4,8-10)[OF assms(1)] free assms(3,5) in \<open>auto simp: m' split: if_splits\<close>)
qed

lemma inv_begin:
  assumes "tx_inv L m" "m_transactionId m < 0x7ffffffe"
  shows "tx_inv L (snd (begin_tx th m))"
proof (cases "tss_state m th")
  case None
  obtain tx m1 where new: "new_TXState m = (tx, m1)" by (rule prod.exhaust)
  note sp = new_TXState_spec[OF assms(2) new]
  show ?thesis
    using inv_new_tx[OF assms(1) None sp(1) next_ids[OF assms(2)] refl] None new sp
    by (simp add: begin_tx_def)
qed (use assms in \<open>simp add: begin_tx_def\<close>)

lemma suspend_spec:
  assumes "tss_state m th = Some tx" "tss_conn m th = Some conn"
    "suspend_tx ops env now timeout ref timer th m = (r, m')"
    "schedule ops now ref timeout 0
       ((expiry_tasks m)\<lparr>em_task := (em_task (expiry_tasks m))(ref := new_ExpiryTask timer 0)\<rparr>) = (tid, em)"
  shows "r = Inr (m_txId tx)" "tss_state m' = (tss_state m)(th := None)" "m_TXs m' = m_TXs m"
    "m_transactionId m' = m_transactionId m" "expiry_tasks m' = em"
    "m_suspendedTXs m' = al_assign (m_txId tx)
       (tx\<lparr>epNameStr := conn_name conn, m_pooldm := conn_pool conn, m_suspendedExpiryTaskId := tid\<rparr>)
       (m_suspendedTXs m)"
    "task_tx m' = (task_tx m)(ref := m_txId tx)"
  using assms by (auto simp: suspend_tx_def Let_def addSuspendedTx_def)

lemma suspend_fails:
  assumes "tss_state m th = None \<or> tss_conn m th = None"
  shows "suspend_tx ops env now timeout ref timer th m = (Inl NoTransaction, m)"
  using assms by (auto simp: suspend_tx_def split: option.split)

lemma inv_suspend:
  assumes "tx_inv L m" "suspend_tx ops env now timeout ref timer th m = (r, m')"
  shows "tx_inv L m'"
proof (cases "tss_state m th = None \<or> tss_conn m th = None")
  case False
  then obtain tx conn where tx: "tss_state m th = Some tx" "tss_conn m th = Some conn" by auto
  obtain tid em where "schedule ops now ref timeout 0
       ((expiry_tasks m)\<lparr>em_task := (em_task (expiry_tasks m))(ref := new_ExpiryTask timer 0)\<rparr>) = (tid, em)"
    by (rule prod.exhaust)
  note sp = suspend_spec[OF tx assms(2) this]
  have other: "m_txId t \<noteq> m_txId tx" if "tss_state m th' = Some t" "th' \<noteq> th" for th' t
    using tx_invD(5)[OF assms(1) that(1) tx(1)] that(2) by blast
  show ?thesis
  proof (rule tx_invI)
    fix th1 th2 t1 t2
    assume "tss_state m' th1 = Some t1" "tss_state m' th2 = Some t2" "m_txId t1 = m_txId t2"
    then show "th1 = th2" using tx_invD(5)[OF assms(1)] by (auto simp: sp split: if_splits)
  qed (use tx_invD(1-4,6-10)[OF assms(1)] tx other in \<open>auto simp: sp split: if_splits\<close>)
qed (use assms suspend_fails[of m th] in auto)

text \<open>The state of resuming: the suspended transaction was taken out of the map.\<close>

lemma resumeTx_spec:
  assumes "resumeTxUsingTxState ops env th tx c m = (r, m')"
  shows "m_suspendedTXs m' = m_suspendedTXs m" "m_TXs m' = m_TXs m" "m_transactionId m' = m_transactionId m"
    "tss_state m' = (tss_state m)(th := if r = Inr () \<or> r = Inl NullDereference then Some tx else None)"
    "task_tx m' = task_tx m"
    "expiry_tasks m' = (if c then snd (cancel_id ops (m_suspendedExpiryTaskId tx) (expiry_tasks m)) else expiry_tasks m)"
  using assms
  by (auto simp: resumeTxUsingTxState_def Let_def case_prod_unfold fun_eq_iff split: option.splits if_splits)

lemma inv_resumeTx:
  assumes "tx_inv L m" "al_find (m_suspendedTXs m) i = Some tx"
    "resumeTxUsingTxState ops env th tx c (m\<lparr>m_suspendedTXs := al_erase i (m_suspendedTXs m)\<rparr>) = (r, m')"
  shows "tx_inv L m'"
proof -
  note sp = resumeTx_spec[OF assms(3)]
  have other: "m_txId t \<noteq> i" if "tss_state m th' = Some t" for th' t
    using tx_invD(4)[OF assms(1) that] assms(2) by auto
  have i: "m_txId tx = i" "i \<notin> L" "i \<in> set (m_TXs m)"
    using tx_invD(1,2,9)[OF assms(1), of i] assms(2) by auto
  show ?thesis
  proof (rule tx_invI)
    fix th1 th2 t1 t2
    assume "tss_state m' th1 = Some t1" "tss_state m' th2 = Some t2" "m_txId t1 = m_txId t2"
    then show "th1 = th2"
      using tx_invD(5)[OF assms(1)] other i(1) by (auto simp: sp split: if_splits)
  qed (use tx_invD(1-4,6-10)[OF assms(1)] other i in \<open>auto simp: sp split: if_splits\<close>)
qed

lemma inv_resume:
  assumes "tx_inv L m"
  shows "tx_inv L (snd (resume_tx ops env th i m))" "tx_inv L (snd (tryResume_cancel ops env th i c m))"
  using assms inv_resumeTx[OF assms, of i _ ops env th]
  by (auto simp: resume_tx_def tryResume_cancel_def removeSuspendedTx_def resumed_def
      split: option.split) (metis prod.collapse)+

lemma inv_removeSuspended:
  assumes "tx_inv L m" "removeSuspendedTx i m = (Some tx, m1)"
  shows "tx_inv L (snd (resumeTxUsingTxState ops env th tx c m1))"
proof -
  obtain r m' where "resumeTxUsingTxState ops env th tx c m1 = (r, m')" by (rule prod.exhaust)
  then show ?thesis
    using assms inv_resumeTx[OF assms(1), of i tx ops env th c r m']
    by (auto simp: removeSuspendedTx_def split: option.splits)
qed

lemma removeSuspendedTx_None [simp]:
  "removeSuspendedTx i m = (None, m1) \<longleftrightarrow> al_find (m_suspendedTXs m) i = None \<and> m1 = m"
  by (auto simp: removeSuspendedTx_def split: option.splits)

lemma inv_tryResume_wait:
  assumes "tx_inv L m" "tx_inv L (others m)"
  shows "tx_inv L (snd (tryResume_wait ops env others th i m))"
  using assms inv_removeSuspended[OF assms(1), of i] inv_removeSuspended[OF assms(2), of i]
  by (auto simp: tryResume_wait_def removeSuspendedTx_wait_def resumed_def split: prod.split option.split)

lemma inv_thread_end: "tx_inv L m \<Longrightarrow> tx_inv L (delete_TSSTXStateWrapper th m)"
  using inv_setTX_None[of L m th] by (simp add: delete_TSSTXStateWrapper_def)

lemma inv_on_expire:
  assumes "tx_inv L m"
  shows "tx_inv L (snd (on_expire_tx ops env th reply ref m))"
proof -
  obtain r m1 where t: "tryResume_cancel ops env th (task_tx m ref) False m = (r, m1)"
    by (rule prod.exhaust)
  have "tx_inv L m1" using inv_resume(2)[OF assms, of ops env th "task_tx m ref" False] t by simp
  moreover from this have "tx_inv L (snd (rollback_tx env th reply m1))"
    unfolding rollback_ends by (rule inv_delete_TXCleaner[OF _ refl])
  ultimately show ?thesis
    unfolding on_expire_tx_def t prod.case by (cases r) (simp_all split: bool.split)
qed

text \<open>
  The runs of a client: operations of any thread in any order, with any replies and any
  behaviour of the pools, while the counter has not reached its end. A thread that waits for
  a transaction lets the others run.
\<close>

inductive tx_run :: "'t timer_ops \<Rightarrow> 't tx_manager \<Rightarrow> 't tx_manager \<Rightarrow> bool" for ops where
  idle: "tx_run ops m m"
| begins: "tx_run ops m m1 \<Longrightarrow> m_transactionId m1 < 0x7ffffffe \<Longrightarrow> tx_run ops m (snd (begin_tx th m1))"
| commits: "tx_run ops m m1 \<Longrightarrow> tx_run ops m (snd (commit_tx env th reply m1))"
| rolls_back: "tx_run ops m m1 \<Longrightarrow> tx_run ops m (snd (rollback_tx env th reply m1))"
| prepares: "tx_run ops m m1 \<Longrightarrow> tx_run ops m (snd (prepare env th reply m1))"
| commits_2pc: "tx_run ops m m1 \<Longrightarrow> tx_run ops m (snd (commit_2pc env th reply m1))"
| rolls_back_2pc: "tx_run ops m m1 \<Longrightarrow> tx_run ops m (snd (rollback_2pc env th reply m1))"
| suspends: "tx_run ops m m1 \<Longrightarrow> tx_run ops m (snd (suspend_tx ops env now timeout ref timer th m1))"
| resumes: "tx_run ops m m1 \<Longrightarrow> tx_run ops m (snd (resume_tx ops env th i m1))"
| tries: "tx_run ops m m1 \<Longrightarrow> tx_run ops m (snd (tryResume ops env th i m1))"
| waits: "tx_run ops m m1 \<Longrightarrow> tx_run ops m1 (others m1) \<Longrightarrow>
    tx_run ops m (snd (tryResume_wait ops env others th i m1))"
| expires: "tx_run ops m m1 \<Longrightarrow> tx_run ops m (snd (on_expire_tx ops env th reply ref m1))"
| ends: "tx_run ops m m1 \<Longrightarrow> tx_run ops m (delete_TSSTXStateWrapper th m1)"

lemma inv_run:
  assumes "tx_run ops m m'" "tx_inv L m"
  shows "tx_inv L m'"
  using assms
proof (induction rule: tx_run.induct)
  case (commits m m1 env th reply)
  then show ?case by (intro inv_ends[OF _ commit_ends]) simp
next
  case (rolls_back m m1 env th reply)
  then show ?case unfolding rollback_ends by (intro inv_delete_TXCleaner[OF _ refl]) simp
next
  case (commits_2pc m m1 env th reply)
  then show ?case unfolding commit_2pc_def by (intro inv_ends[OF _ afterCompletion_ends]) simp_all
next
  case (rolls_back_2pc m m1 env th reply)
  then show ?case unfolding rollback_2pc_def by (intro inv_ends[OF _ afterCompletion_ends]) simp_all
next
  case (suspends m m1 env now timeout ref timer th)
  then show ?case by (intro inv_suspend[OF _ surjective_pairing]) simp
qed (simp_all add: inv_begin inv_prepare inv_resume inv_tryResume_wait inv_on_expire inv_thread_end tryResume_def)

lemma inv_lost:
  assumes "tx_inv {} m" "i \<in> set (m_TXs m)" "al_find (m_suspendedTXs m) i = None"
    "\<forall>th tx. tss_state m th = Some tx \<longrightarrow> m_txId tx \<noteq> i"
  shows "tx_inv {i} m"
  using assms unfolding tx_inv_def by blast

lemma inv_initial: "tx_inv {} (new_CacheTransactionManagerImpl em)"
  by (rule tx_invI) (simp_all add: new_CacheTransactionManagerImpl_def)

text \<open>A pool for examples: it is not sticky and gives a connection to the endpoint asked for.\<close>

definition good_pool :: pool_env where
  "good_pool = \<lparr>isSticky = \<lambda>dm. False,
     getConnectionToAnEndPoint = \<lambda>dm ep. (GF_NOERR, Some \<lparr>conn_name = ep, conn_pool = Some dm\<rparr>)\<rparr>"

definition bad_pool :: pool_env where
  "bad_pool = good_pool\<lparr>getConnectionToAnEndPoint := \<lambda>dm ep. (GF_NOTCON, None)\<rparr>"

definition small_tx :: tx_state where
  "small_tx = \<lparr>m_txId = 2, m_modSerialNum = 0, m_closed = False, m_dirty = False, m_prepared = False,
     m_replay = False, epNameStr = ''server:1'', m_pooldm = Some 0, m_suspendedExpiryTaskId = 0\<rparr>"

text \<open>A manager with the one transaction, of thread 1 or suspended.\<close>

definition active_manager :: "(nat \<times> int) tx_manager" where
  "active_manager = (new_CacheTransactionManagerImpl (small_manager [] 0))
     \<lparr>m_TXs := [2], m_transactionId := 2, tss_state := (\<lambda>th. None)(1 := Some small_tx),
      tss_conn := (\<lambda>th. None)(1 := Some \<lparr>conn_name = ''server:1'', conn_pool = Some 0\<rparr>)\<rparr>"

definition suspended_manager :: "(nat \<times> int) tx_manager" where
  "suspended_manager = (new_CacheTransactionManagerImpl (small_manager [(0, 5)] 1))
     \<lparr>m_TXs := [2], m_transactionId := 2, m_suspendedTXs := [(2, small_tx)]\<rparr>"

lemma example_inv: "tx_inv {} active_manager" "tx_inv {} suspended_manager"
  by (rule tx_invI; force simp: active_manager_def suspended_manager_def new_CacheTransactionManagerImpl_def
      small_tx_def al_find_Cons split: if_splits)+

section \<open>Properties\<close>



text \<open>
  C16. Commit and rollback always end the transaction of the calling thread, in one phase or
  in two, whatever the reply: the thread has no transaction afterwards, its number is no
  longer open, and no other transaction is touched. A commit reports that the servers'
  changes were applied exactly when a response with a commit message came back.
\<close>

theorem commit_and_rollback_end:
  assumes "tss_state m th = Some tx"
    "m' \<in> {snd (commit_tx env th reply m), snd (rollback_tx env th reply m),
           snd (commit_2pc env th reply m), snd (rollback_2pc env th reply m)}"
  shows "\<not> exists_tx th m' \<and> \<not> exists_id (m_txId tx) m' \<and> m_suspendedTXs m' = m_suspendedTXs m \<and>
    (\<forall>th'. th' \<noteq> th \<longrightarrow> tss_state m' th' = tss_state m th') \<and>
    (\<forall>i. i \<noteq> m_txId tx \<longrightarrow> exists_id i m' = exists_id i m) \<and>
    (fst (commit_tx env th reply m) = Inr True \<longleftrightarrow>
       getDM th m \<noteq> None \<and> rp_err reply = GF_NOERR \<and> rp_type reply = RESPONSE \<and> rp_commit reply)"
proof -
  have "m' \<in> {delete_TXCleaner env th (tss_state m th) m, clean th (tss_state m th) m}"
    using assms(2) commit_ends[of env th reply m] rollback_ends[of env th reply m]
      afterCompletion_ends[of STATUS_COMMITTED env th reply m] afterCompletion_ends[of STATUS_ROLLEDBACK env th reply m]
    unfolding commit_2pc_def rollback_2pc_def by auto
  moreover have "fst (commit_tx env th reply m) = Inr True \<longleftrightarrow>
       getDM th m \<noteq> None \<and> rp_err reply = GF_NOERR \<and> rp_type reply = RESPONSE \<and> rp_commit reply"
    using assms(1) by (auto simp: commit_tx_def Let_def split: msg_type.split)
  ultimately show ?thesis
    using assms(1) by (auto simp: exists_tx_def exists_id_def findTx_def clean_state)
qed

theorem commit_and_rollback_end_witness:
  "\<not> exists_id 2 (snd (commit_tx good_pool 1 \<lparr>rp_err = GF_NOTCON, rp_type = REPLY, rp_exception = GF_MSG, rp_commit = False\<rparr> active_manager))"
  using commit_and_rollback_end[of active_manager 1 small_tx _ good_pool
      "\<lparr>rp_err = GF_NOTCON, rp_type = REPLY, rp_exception = GF_MSG, rp_commit = False\<rparr>", OF _ insertI1]
  by (simp add: active_manager_def small_tx_def)

text \<open>
  C17. A suspended transaction can be taken up again by any thread: after a thread has
  suspended its transaction, a thread without one that resumes it gets the same transaction
  and a connection to the server it was on. The transaction is then no longer suspended, and
  its timed rollback is cancelled.
\<close>

theorem suspend_then_resume:
  assumes tx: "tss_state m a = Some tx" and conn: "tss_conn m a = Some conn" "conn_pool conn = Some dm"
    and timers: "running (expiry_tasks m)" "em_inv (expiry_tasks m)" "last_task_id (expiry_tasks m) \<noteq> invalid_id"
      "\<forall>i. al_find (task_map (expiry_tasks m)) i \<noteq> Some ref"
    and susp: "suspend_tx ops env now timeout ref timer a m = (r, m1)"
    and free: "tss_state m1 b = None"
    and pool: "getConnectionToAnEndPoint env dm (conn_name conn) = (GF_NOERR, Some conn')"
    and res: "resume_tx ops env b (m_txId tx) m1 = (r', m2)"
  shows "r = Inr (m_txId tx) \<and> isSuspendedTx (m_txId tx) m1 \<and> \<not> exists_tx a m1 \<and> r' = Inr () \<and>
    getTransactionId b m2 = Inr (m_txId tx) \<and> tss_conn m2 b = Some conn' \<and> \<not> isSuspendedTx (m_txId tx) m2 \<and>
    task_cancelled (em_task (expiry_tasks m2) ref)"
proof -
  define em0 where "em0 = (expiry_tasks m)\<lparr>em_task := (em_task (expiry_tasks m))(ref := new_ExpiryTask timer 0)\<rparr>"
  obtain tid em where sch: "schedule ops now ref timeout 0 em0 = (tid, em)" by (rule prod.exhaust)
  have "al_find (task_map em0) (last_task_id em0) = None"
    using em_inv_fresh[OF timers(2)] by (simp add: em0_def)
  then have reg: "al_find (task_map em) tid = Some ref"
    using schedule_running(3)[of em0 ops now ref timeout 0 tid em] timers(1,3) sch by (simp add: em0_def)
  define tx1 where "tx1 = tx\<lparr>epNameStr := conn_name conn, m_pooldm := conn_pool conn, m_suspendedExpiryTaskId := tid\<rparr>"
  have tx1: "m_txId tx1 = m_txId tx" "m_pooldm tx1 = Some dm" "epNameStr tx1 = conn_name conn"
    "m_suspendedExpiryTaskId tx1 = tid"
    using conn(2) by (simp_all add: tx1_def)
  note s = suspend_spec[OF tx conn(1) susp sch[unfolded em0_def], folded tx1_def]
  have rem: "removeSuspendedTx (m_txId tx) m1 =
      (Some tx1, m1\<lparr>m_suspendedTXs := al_erase (m_txId tx) (m_suspendedTXs m1)\<rparr>)"
    by (simp add: removeSuspendedTx_def s)
  obtain n em2 where can: "cancel_id ops tid em = (n, em2)" by (rule prod.exhaust)
  have "task_cancelled (em_task em2 ref)" by (rule cancel_id_spec(2)[OF reg can])
  moreover have "r' = Inr () \<and> tss_state m2 b = Some tx1 \<and> tss_conn m2 b = Some conn' \<and>
      al_find (m_suspendedTXs m2) (m_txId tx) = None \<and> expiry_tasks m2 = em2"
    using res free pool unfolding resume_tx_def rem
    by (auto simp: resumeTxUsingTxState_def Let_def tx1 s(5) can)
  ultimately show ?thesis
    by (simp add: s tx1 isSuspendedTx_def exists_tx_def getTransactionId_def)
qed

theorem suspend_then_resume_witness:
  "let m1 = snd (suspend_tx wait_count good_pool 0 1000 5 (0, 0) 1 active_manager);
       m2 = snd (resume_tx wait_count good_pool 3 2 m1)
   in isSuspendedTx 2 m1 \<and> getTransactionId 3 m2 = Inr 2"
proof -
  obtain r m1 where 1: "suspend_tx wait_count good_pool 0 1000 5 (0, 0) 1 active_manager = (r, m1)"
    by (rule prod.exhaust)
  obtain r' m2 where 2: "resume_tx wait_count good_pool 3 (m_txId small_tx) m1 = (r', m2)"
    by (rule prod.exhaust)
  have m: "tss_state active_manager 1 = Some small_tx"
    "tss_conn active_manager 1 = Some \<lparr>conn_name = ''server:1'', conn_pool = Some 0\<rparr>"
    "running (expiry_tasks active_manager)" "em_inv (expiry_tasks active_manager)"
    "last_task_id (expiry_tasks active_manager) \<noteq> invalid_id"
    "\<forall>i. al_find (task_map (expiry_tasks active_manager)) i \<noteq> Some 5"
    by (simp_all add: active_manager_def new_CacheTransactionManagerImpl_def small_manager_def em_inv_def invalid_id_def)
  obtain tid em where sch: "schedule wait_count 0 5 1000 0 ((expiry_tasks active_manager)
      \<lparr>em_task := (em_task (expiry_tasks active_manager))(5 := new_ExpiryTask (0, 0) 0)\<rparr>) = (tid, em)"
    by (rule prod.exhaust)
  have free: "tss_state m1 3 = None"
    unfolding suspend_spec(2)[OF m(1,2) 1 sch] by (simp add: active_manager_def)
  have pool: "getConnectionToAnEndPoint good_pool 0 (conn_name \<lparr>conn_name = ''server:1'', conn_pool = Some 0\<rparr>) =
      (GF_NOERR, Some \<lparr>conn_name = ''server:1'', conn_pool = Some 0\<rparr>)"
    by (simp add: good_pool_def)
  have "m_txId small_tx = 2" by (simp add: small_tx_def)
  then show ?thesis
    using suspend_then_resume[OF m(1,2) _ m(3-6) 1 free pool 2] 2
    unfolding Let_def 1 by simp
qed

text \<open>
  C38. A transaction whose resumption fails is lost: when the pool gives no connection, the
  call throws, the transaction is no longer suspended and no thread has it, although it
  still counts as open. That stays so in every later state, so it can be neither committed
  nor rolled back.
\<close>

theorem failed_resume_loses_transaction:
  assumes inv: "tx_inv {} m" and free: "tss_state m th = None"
    and susp: "al_find (m_suspendedTXs m) i = Some tx" "m_pooldm tx = Some dm"
    and pool: "fst (getConnectionToAnEndPoint env dm (epNameStr tx)) \<noteq> GF_NOERR"
    and res: "resume_tx ops env th i m = (r, m1)" and run: "tx_run ops m1 m2"
  shows "r = Inl (GfErr GF_CACHE_ILLEGAL_STATE_EXCEPTION) \<and> exists_id i m2 \<and> \<not> isSuspendedTx i m2 \<and>
    (\<forall>th'. getTransactionId th' m2 \<noteq> Inr i)"
proof -
  define m0 where "m0 = m\<lparr>m_suspendedTXs := al_erase i (m_suspendedTXs m)\<rparr>"
  have rem: "removeSuspendedTx i m = (Some tx, m0)" by (simp add: removeSuspendedTx_def susp(1) m0_def)
  have go: "resumeTxUsingTxState ops env th tx True m0 = (r, m1)"
    using res free by (simp add: resume_tx_def rem)
  then have r: "r = Inl (GfErr GF_CACHE_ILLEGAL_STATE_EXCEPTION)"
    using pool by (auto simp: resumeTxUsingTxState_def Let_def susp(2) case_prod_unfold)
  note s = resumeTx_spec[OF go, unfolded r]
  have i: "i \<in> set (m_TXs m)" "\<And>th' t. tss_state m th' = Some t \<Longrightarrow> m_txId t \<noteq> i"
    using tx_invD(2)[OF inv susp(1)] tx_invD(4)[OF inv] susp(1) by auto
  have inv0: "tx_inv {} m1" using inv_resumeTx[OF inv susp(1)] go unfolding m0_def by blast
  have "\<forall>th' t. tss_state m1 th' = Some t \<longrightarrow> m_txId t \<noteq> i"
    using i(2) by (simp add: s m0_def)
  moreover have "i \<in> set (m_TXs m1)" "al_find (m_suspendedTXs m1) i = None"
    using i(1) by (simp_all add: s m0_def)
  ultimately have "tx_inv {i} m1" using inv_lost[OF inv0] by blast
  from tx_invD(8-10)[OF inv_run[OF run this]] show ?thesis
    unfolding r by (auto simp: exists_id_def findTx_def isSuspendedTx_def getTransactionId_def split: option.splits)
qed

theorem failed_resume_loses_transaction_witness:
  "let m = snd (resume_tx wait_count bad_pool 3 2 suspended_manager)
   in exists_id 2 m \<and> \<not> isSuspendedTx 2 m"
proof -
  have m: "tss_state suspended_manager 3 = None" "al_find (m_suspendedTXs suspended_manager) 2 = Some small_tx"
    "m_pooldm small_tx = Some 0" "fst (getConnectionToAnEndPoint bad_pool 0 (epNameStr small_tx)) \<noteq> GF_NOERR"
    by (simp_all add: suspended_manager_def new_CacheTransactionManagerImpl_def small_tx_def al_find_Cons bad_pool_def)
  show ?thesis
    using failed_resume_loses_transaction[OF example_inv(2) m surjective_pairing tx_run.idle]
    unfolding Let_def by blast
qed

end
