(* ===== verification/Local_Region.thy ===== *)
theory Local_Region
  imports Entries_Map
begin

text \<open>
  The operations of a region on its entries (\<open>LocalRegion.cpp\<close>, \<open>LocalRegion.hpp\<close>,
  \<open>RegionInternal.hpp\<close>): put, create, destroy, remove and invalidate go through one
  template, which calls the cache writer, tracks the entry, sends the change to a server,
  changes the entry map and calls the cache listener; get, putAll, removeAll and getAll
  build on the same steps.

  The region of the model caches in a \<open>ConcurrentEntriesMap\<close> and has no entry
  expiration; statistics and access times are left out. The operations that a subclass
  overrides to talk to a server are a parameter. A remote operation takes time, in which
  other threads and notifications use the map, so its result has the map they leave next to
  the reply.
\<close>

section \<open>Flags of an event\<close>

type_synonym event_flags = u16

definition NORMAL :: event_flags where "NORMAL = 0x01"
definition LOCAL :: event_flags where "LOCAL = 0x02"
definition NOTIFICATION :: event_flags where "NOTIFICATION = 0x04"
definition NOTIFICATION_UPDATE :: event_flags where "NOTIFICATION_UPDATE = 0x08"
definition EVICTION :: event_flags where "EVICTION = 0x10"
definition EXPIRATION :: event_flags where "EXPIRATION = 0x20"
definition CACHE_CLOSE :: event_flags where "CACHE_CLOSE = 0x40"
definition NOCACHEWRITER :: event_flags where "NOCACHEWRITER = 0x80"
definition NOCALLBACKS :: event_flags where "NOCALLBACKS = 0x100"

lemmas flag_defs = NORMAL_def LOCAL_def NOTIFICATION_def NOTIFICATION_UPDATE_def EVICTION_def EXPIRATION_def
  CACHE_CLOSE_def NOCACHEWRITER_def NOCALLBACKS_def

definition isLocal :: "event_flags \<Rightarrow> bool" where
  "isLocal f \<longleftrightarrow> 0 < f AND 0x02"

definition isNormal :: "event_flags \<Rightarrow> bool" where
  "isNormal f \<longleftrightarrow> 0 < f AND 0x01"

definition isNotification :: "event_flags \<Rightarrow> bool" where
  "isNotification f \<longleftrightarrow> 0 < f AND 0x04"

definition isNotificationUpdate :: "event_flags \<Rightarrow> bool" where
  "isNotificationUpdate f \<longleftrightarrow> 0 < f AND 0x08"

definition isCacheClose :: "event_flags \<Rightarrow> bool" where
  "isCacheClose f \<longleftrightarrow> 0 < f AND 0x40"

definition isNoCallbacks :: "event_flags \<Rightarrow> bool" where
  "isNoCallbacks f \<longleftrightarrow> 0 < f AND 0x100"

definition isEvictOrExpire :: "event_flags \<Rightarrow> bool" where
  "isEvictOrExpire f \<longleftrightarrow> 0 < f AND (0x10 OR 0x20)"

definition invokeCacheWriter :: "event_flags \<Rightarrow> bool" where
  "invokeCacheWriter f \<longleftrightarrow> f AND (0x04 OR 0x10 OR 0x20 OR 0x80 OR 0x100) = 0"

lemmas flag_tests = isLocal_def isNormal_def isNotification_def isNotificationUpdate_def isCacheClose_def
  isNoCallbacks_def isEvictOrExpire_def invokeCacheWriter_def

section \<open>State and environment\<close>

datatype entry_event_type =
    BEFORE_CREATE | BEFORE_UPDATE | BEFORE_INVALIDATE | BEFORE_DESTROY
  | AFTER_CREATE | AFTER_UPDATE | AFTER_INVALIDATE | AFTER_DESTROY

text \<open>
  A call of the application: a method of the writer or the listener with the key, the old and
  the new value, or with the region.
\<close>

datatype cb_method =
    BeforeCreate | BeforeUpdate | BeforeDestroy
  | AfterCreate | AfterUpdate | AfterDestroy | AfterInvalidate

datatype region_method =
    BeforeRegionDestroy | BeforeRegionClear
  | AfterRegionDestroy | AfterRegionInvalidate | AfterRegionClear | Close_listener
  | AfterRegionLive | AfterRegionDisconnected

datatype ('k, 'v) cb_call =
    EntryCall cb_method 'k "'v ptr" "'v ptr"
  | RegionCall region_method

datatype region_event_type =
    BEFORE_REGION_INVALIDATE | BEFORE_REGION_DESTROY | BEFORE_REGION_CLEAR
  | AFTER_REGION_INVALIDATE | AFTER_REGION_DESTROY | AFTER_REGION_CLEAR

datatype entry_action = PutAction | CreateAction | DestroyAction | RemoveAction | RemoveActionEx | InvalidateAction

text \<open>\<open>calls\<close> is the history of the calls made to writer and listener.\<close>

record ('k, 'v) region =
  rg_entries :: "('k, 'v) entries_map"
  m_destroyPending :: bool
  m_released :: bool
  txDirty :: bool
  m_processedMarker :: bool
  calls :: "('k, 'v) cb_call list"

text \<open>
  The attributes of the region, its callbacks and its connection. The writer gives its vote,
  which is no when it throws; the listener gives whether it returned; the loader gives a value
  or throws, which is \<open>None\<close>. \<open>remote\<close> is one operation on a server: the error
  code, the value and the version tag of the reply, and the map as other threads leave it.
\<close>

datatype value_class = PrimitiveClass byte | DataSerializableClass string | PdxClass | InternalClass | OtherClass

record 'k part_list =
  succeededKeys :: "'k list option"
  versionTags :: "version_tag option list"

record ('k, 'v) region_env =
  rg_hash :: "'k \<Rightarrow> u32"
  rg_seg :: "('k, 'v) seg_env"
  cachingEnabled :: bool
  ccEnabled :: bool
  inTransaction :: bool
  plainLocalRegion :: bool
  haRegion :: bool
  isDurableClient :: bool
  writer :: "(('k, 'v) cb_call \<Rightarrow> bool) option"
  listener :: "(('k, 'v) cb_call \<Rightarrow> bool) option"
  loader :: "('k \<Rightarrow> 'v ptr option) option"
  remote :: "entry_action option \<Rightarrow> 'k \<Rightarrow> 'v ptr \<Rightarrow> version_tag option \<Rightarrow> ('k, 'v) entries_map \<Rightarrow>
    gf_err \<times> 'v ptr \<times> version_tag option \<times> ('k, 'v) entries_map"
  fullObject :: "'v ptr \<Rightarrow> gf_err \<times> 'v ptr \<times> version_tag option"
  remotePutAll :: "('k \<times> 'v ptr) list \<Rightarrow> ('k, 'v) entries_map \<Rightarrow> gf_err \<times> 'k part_list option \<times> ('k, 'v) entries_map"
  remoteRemoveAll :: "'k list \<Rightarrow> ('k, 'v) entries_map \<Rightarrow> gf_err \<times> 'k part_list option \<times> ('k, 'v) entries_map"
  remoteGetAll :: "'k list \<Rightarrow> bool \<Rightarrow> ('k, 'v) entries_map \<Rightarrow> gf_err \<times> ('k \<times> 'v ptr) list \<times> ('k, 'v) entries_map"
  remoteDestroyRegion :: gf_err
  remoteInvalidateRegion :: gf_err
  singleHop :: bool
  valueClass :: "'v \<Rightarrow> value_class"
  valueBytes :: "'v \<Rightarrow> byte list"
  pdxEqual :: "'v \<Rightarrow> 'v \<Rightarrow> bool"

text \<open>
  Whether a notification may change the region: the subclass for high availability holds that
  back, for a durable client, until the marker that ends the replay of the client's queue.
\<close>

definition getProcessedMarker :: "('k, 'v) region_env \<Rightarrow> ('k, 'v) region \<Rightarrow> bool" where
  "getProcessedMarker env R \<longleftrightarrow> \<not> haRegion env \<or> m_processedMarker R \<or> \<not> isDurableClient env"

text \<open>The remote operations of a region that is only local.\<close>

definition local_remote ::
  "entry_action option \<Rightarrow> 'k \<Rightarrow> 'v ptr \<Rightarrow> version_tag option \<Rightarrow> ('k, 'v) entries_map \<Rightarrow>
   gf_err \<times> 'v ptr \<times> version_tag option \<times> ('k, 'v) entries_map" where
  "local_remote action key value tag M = (GF_NOERR, value, tag, M)"

definition local_fullObject :: "'v ptr \<Rightarrow> gf_err \<times> 'v ptr \<times> version_tag option" where
  "local_fullObject value = (GF_NOERR, value, None)"

definition isLocalOp :: "('k, 'v) region_env \<Rightarrow> event_flags option \<Rightarrow> bool" where
  "isLocalOp env flags \<longleftrightarrow> plainLocalRegion env \<or> (case flags of None \<Rightarrow> False | Some f \<Rightarrow> isLocal f)"

definition set_entries :: "('k, 'v) entries_map \<Rightarrow> ('k, 'v) region \<Rightarrow> ('k, 'v) region" where
  "set_entries M R = R\<lparr>rg_entries := M\<rparr>"

definition log_call :: "('k, 'v) cb_call \<Rightarrow> ('k, 'v) region \<Rightarrow> ('k, 'v) region" where
  "log_call c R = R\<lparr>calls := calls R @ [c]\<rparr>"

section \<open>Callbacks\<close>

definition invokeCacheWriterForEntryEvent ::
  "('k, 'v) region_env \<Rightarrow> 'k \<Rightarrow> 'v ptr \<Rightarrow> 'v ptr \<Rightarrow> entry_event_type \<Rightarrow> ('k, 'v) region \<Rightarrow>
   bool \<times> 'v ptr \<times> ('k, 'v) region" where
  "invokeCacheWriterForEntryEvent env key oldValue newValue type R =
     (case writer env of
        None \<Rightarrow> (True, oldValue, R)
      | Some w \<Rightarrow>
          let old = (if oldValue = Some InvalidToken then None else oldValue);
              call = (\<lambda>c. (w (EntryCall c key old newValue), old, log_call (EntryCall c key old newValue) R))
          in case type of
               BEFORE_UPDATE \<Rightarrow> call (if old \<noteq> None then BeforeUpdate else BeforeCreate)
             | BEFORE_CREATE \<Rightarrow> call BeforeCreate
             | BEFORE_DESTROY \<Rightarrow> call BeforeDestroy
             | _ \<Rightarrow> (True, old, R))"

definition invokeCacheListenerForEntryEvent ::
  "('k, 'v) region_env \<Rightarrow> 'k \<Rightarrow> 'v ptr \<Rightarrow> 'v ptr \<Rightarrow> event_flags \<Rightarrow> entry_event_type \<Rightarrow> bool \<Rightarrow> ('k, 'v) region \<Rightarrow>
   gf_err \<times> 'v ptr \<times> ('k, 'v) region" where
  "invokeCacheListenerForEntryEvent env key oldValue newValue flags type local R =
     (case listener env of
        None \<Rightarrow> (GF_NOERR, oldValue, R)
      | Some l \<Rightarrow>
          let old = (if oldValue = Some InvalidToken then None else oldValue);
              call = (\<lambda>c. (if l (EntryCall c key old newValue) then GF_NOERR else GF_CACHE_LISTENER_EXCEPTION, old,
                           log_call (EntryCall c key old newValue) R))
          in case type of
               AFTER_UPDATE \<Rightarrow>
                 call (if old \<noteq> None \<or> isNotificationUpdate flags \<or> local then AfterUpdate else AfterCreate)
             | AFTER_CREATE \<Rightarrow> call AfterCreate
             | AFTER_DESTROY \<Rightarrow> call AfterDestroy
             | AFTER_INVALIDATE \<Rightarrow> call AfterInvalidate
             | _ \<Rightarrow> (GF_NOERR, old, R))"

section \<open>The actions\<close>

fun s_beforeEventType :: "entry_action \<Rightarrow> entry_event_type" where
  "s_beforeEventType PutAction = BEFORE_UPDATE"
| "s_beforeEventType CreateAction = BEFORE_CREATE"
| "s_beforeEventType InvalidateAction = BEFORE_INVALIDATE"
| "s_beforeEventType _ = BEFORE_DESTROY"

fun s_afterEventType :: "entry_action \<Rightarrow> entry_event_type" where
  "s_afterEventType PutAction = AFTER_UPDATE"
| "s_afterEventType CreateAction = AFTER_CREATE"
| "s_afterEventType InvalidateAction = AFTER_INVALIDATE"
| "s_afterEventType _ = AFTER_DESTROY"

definition s_addIfAbsent :: "entry_action \<Rightarrow> bool" where
  "s_addIfAbsent action = True"

definition s_failIfPresent :: "entry_action \<Rightarrow> bool" where
  "s_failIfPresent action = (action = CreateAction)"

definition checkArgs :: "entry_action \<Rightarrow> 'k option \<Rightarrow> 'v ptr \<Rightarrow> data_input option \<Rightarrow> gf_err" where
  "checkArgs action key value delta =
     (if key = None \<or> action = PutAction \<and> value = None \<and> delta = None
      then GF_CACHE_ILLEGAL_ARGUMENT_EXCEPTION else GF_NOERR)"

text \<open>The value a region finds under a key, null when it does not find the key.\<close>

definition entries_getEntry :: "('k, 'v) region_env \<Rightarrow> 'k \<Rightarrow> ('k, 'v) region \<Rightarrow> gf_exn + 'v ptr" where
  "entries_getEntry env key R =
     andThen (get_map (rg_hash env) key (rg_entries R)) (\<lambda>found. Inr (map_option snd found))"

definition getCallbackOldValue ::
  "('k, 'v) region_env \<Rightarrow> entry_action \<Rightarrow> 'k \<Rightarrow> 'v ptr \<Rightarrow> ('k, 'v) region \<Rightarrow> gf_exn + 'v ptr" where
  "getCallbackOldValue env action key oldValue R =
     (if action = CreateAction \<or> \<not> cachingEnabled env then Inr oldValue else entries_getEntry env key R)"

definition region_getEntry :: "('k, 'v) region_env \<Rightarrow> 'k \<Rightarrow> ('k, 'v) region \<Rightarrow> gf_exn + 'v ptr" where
  "region_getEntry env key R =
     (if m_destroyPending R then Inl RegionDestroyedException
      else if cachingEnabled env then entries_getEntry env key R else Inr None)"

text \<open>
  Whether two values are equal in their serialized form. The class of an object, what its
  \<open>toData\<close> writes and how PDX objects compare are the application's.
\<close>

definition class_of :: "('k, 'v) region_env \<Rightarrow> 'v cacheable \<Rightarrow> value_class" where
  "class_of env c = (case c of Obj v \<Rightarrow> valueClass env v | _ \<Rightarrow> InternalClass)"

definition toData_of :: "('k, 'v) region_env \<Rightarrow> 'v cacheable \<Rightarrow> byte list" where
  "toData_of env c =
     (case c of
        Obj v \<Rightarrow> valueBytes env v
      | InvalidToken \<Rightarrow> [0, 0, 0, 1]
      | DestroyedToken \<Rightarrow> [0, 0, 0, 2]
      | OverflowedToken \<Rightarrow> [0, 0, 0, 3]
      | TombstoneToken \<Rightarrow> [0, 0, 0, 4])"

definition serializedEqualTo :: "('k, 'v) region_env \<Rightarrow> 'v cacheable \<Rightarrow> 'v cacheable \<Rightarrow> gf_exn + bool" where
  "serializedEqualTo env lhs rhs =
     (case (class_of env lhs, class_of env rhs) of
        (PrimitiveClass c, PrimitiveClass d) \<Rightarrow> Inr (c = d \<and> toData_of env lhs = toData_of env rhs)
      | (DataSerializableClass c, DataSerializableClass d) \<Rightarrow> Inr (c = d \<and> toData_of env lhs = toData_of env rhs)
      | (PdxClass, PdxClass) \<Rightarrow>
          (case (lhs, rhs) of (Obj v, Obj w) \<Rightarrow> Inr (pdxEqual env v w) | _ \<Rightarrow> Inr False)
      | (InternalClass, InternalClass) \<Rightarrow> Inr (toData_of env lhs = toData_of env rhs)
      | (OtherClass, _) \<Rightarrow> Inl UnsupportedOperationException
      | _ \<Rightarrow> Inr False)"

text \<open>
  Sending the change to the server. Removing a value first compares it with the local one;
  \<open>serverResponse\<close> is the member in which the action keeps the answer. The result is the
  error code, the tag, the server's response and the region.
\<close>

definition send ::
  "('k, 'v) region_env \<Rightarrow> entry_action \<Rightarrow> 'k \<Rightarrow> 'v ptr \<Rightarrow> version_tag option \<Rightarrow> ('k, 'v) region \<Rightarrow>
   gf_err \<times> version_tag option \<times> gf_err \<times> ('k, 'v) region" where
  "send env action key value tag R =
     (let (err, _, tag1, M) = remote env (Some action) key value tag (rg_entries R)
      in (err, tag1, err, set_entries M R))"

definition remoteUpdate ::
  "('k, 'v) region_env \<Rightarrow> entry_action \<Rightarrow> 'k \<Rightarrow> 'v ptr \<Rightarrow> version_tag option \<Rightarrow> ('k, 'v) region \<Rightarrow>
   gf_exn + (gf_err \<times> version_tag option \<times> gf_err \<times> ('k, 'v) region)" where
  "remoteUpdate env action key value tag R =
     (if action = RemoveAction \<and> cachingEnabled env then
        andThen (region_getEntry env key R) (\<lambda>oldValue.
          case (oldValue, value) of
            (Some old, Some new) \<Rightarrow>
              andThen (serializedEqualTo env old new) (\<lambda>eq.
                if \<not> eq then Inr (GF_ENOENT, tag, GF_ENOENT, R)
                else Inr (send env action key value tag R))
          | (None, _) \<Rightarrow> Inr (send env action key value tag R)
          | (Some old, None) \<Rightarrow>
              if old = InvalidToken then Inr (send env action key value tag R)
              else Inr (GF_ENOENT, tag, GF_ENOENT, R))
      else Inr (send env action key value tag R))"

text \<open>
  The out-parameter \<open>oldValue\<close> of the map operations: it is assigned on some paths only.
\<close>

definition slot_value :: "('k \<Rightarrow> u32) \<Rightarrow> 'k \<Rightarrow> ('k, 'v) entries_map \<Rightarrow> 'v ptr option" where
  "slot_value hashcode key M =
     (case segmentFor hashcode key M of
        Inl _ \<Rightarrow> None
      | Inr s \<Rightarrow> map_option (\<lambda>e. getValueI (getImplPtr e)) (al_find (m_map s) key))"

definition old_after_put :: "'v ptr option \<Rightarrow> ('k, 'v) op_result \<Rightarrow> 'v ptr \<Rightarrow> 'v ptr" where
  "old_after_put slot r oldValue =
     (if r_err r = GF_NOERR \<and> slot \<noteq> None \<and> slot \<noteq> Some (Some TombstoneToken) then r_oldValue r else oldValue)"

definition old_after_create :: "'v ptr option \<Rightarrow> ('k, 'v) op_result \<Rightarrow> 'v ptr \<Rightarrow> 'v ptr" where
  "old_after_create slot r oldValue = (if slot \<noteq> None then r_oldValue r else oldValue)"

definition old_after_remove :: "('k, 'v) op_result \<Rightarrow> 'v ptr \<Rightarrow> 'v ptr" where
  "old_after_remove r oldValue =
     (if r_err r = GF_NOERR \<or> r_err r = GF_CACHE_ENTRY_NOT_FOUND then r_oldValue r else oldValue)"

section \<open>Changing the local map\<close>

type_synonym ('k, 'v) local_result = "gf_exn + (gf_err \<times> 'v ptr \<times> 'v ptr \<times> ('k, 'v) region)"

text \<open>
  The results of the local steps are the error code, the caller's \<open>oldValue\<close>, the
  caller's \<open>value\<close>, which a delta replaces, and the region.
\<close>

definition entries_put ::
  "('k, 'v) region_env \<Rightarrow> 'k \<Rightarrow> 'v ptr \<Rightarrow> 'v ptr \<Rightarrow> int \<Rightarrow> int \<Rightarrow> version_tag option \<Rightarrow> data_input option \<Rightarrow>
   ('k, 'v) region \<Rightarrow> ('k, 'v) local_result" where
  "entries_put env key value oldValue updateCount destroyTracker tag delta R =
     (let slot = slot_value (rg_hash env) key (rg_entries R) in
      andThen (put_map (rg_hash env) (rg_seg env) key value updateCount destroyTracker tag delta (rg_entries R))
        (\<lambda>(r, M). Inr (r_err r, old_after_put slot r oldValue, r_newValue r, set_entries M R)))"

definition putLocal ::
  "('k, 'v) region_env \<Rightarrow> bool \<Rightarrow> 'k \<Rightarrow> 'v ptr \<Rightarrow> 'v ptr \<Rightarrow> int \<Rightarrow> int \<Rightarrow> version_tag option \<Rightarrow> data_input option \<Rightarrow>
   ('k, 'v) region \<Rightarrow> ('k, 'v) local_result" where
  "putLocal env isCreate key value oldValue updateCount destroyTracker tag delta R =
     (if \<not> cachingEnabled env then Inr (GF_NOERR, oldValue, value, R)
      else if isCreate then
        let slot = slot_value (rg_hash env) key (rg_entries R) in
        andThen (create_map (rg_hash env) (rg_seg env) key value updateCount destroyTracker tag (rg_entries R))
          (\<lambda>(r, M). Inr (r_err r, old_after_create slot r oldValue, value, set_entries M R))
      else
        andThen (entries_put env key value oldValue updateCount destroyTracker tag delta R)
          (\<lambda>(err, oldValue1, value1, R1).
             if err = GF_INVALID_DELTA then
               let (err1, value2, tag1) = fullObject env value1 in
               if err1 = GF_NOERR \<and> value2 \<noteq> None then
                 entries_put env key value2 oldValue1 updateCount destroyTracker
                   (if tag1 \<noteq> None then tag1 else tag) None R1
               else Inr (err1, oldValue1, value2, R1)
             else Inr (err, oldValue1, value1, R1)))"

definition invalidateLocal ::
  "('k, 'v) region_env \<Rightarrow> 'k \<Rightarrow> event_flags \<Rightarrow> version_tag option \<Rightarrow> ('k, 'v) region \<Rightarrow>
   gf_exn + (gf_err \<times> ('k, 'v) region)" where
  "invalidateLocal env key flags tag R =
     (if m_destroyPending R then Inr (GF_CACHE_REGION_DESTROYED_EXCEPTION, R)
      else if (\<not> isNotification flags \<or> getProcessedMarker env R) \<and> cachingEnabled env then
        andThen (invalidate_map (rg_hash env) (rg_seg env) key tag (rg_entries R)) (\<lambda>(r, M).
          let R1 = set_entries M R in
          if r_err r = GF_NOERR then Inr (GF_NOERR, R1)
          else if r_err r = GF_CACHE_CONCURRENT_MODIFICATION_EXCEPTION then Inr (GF_NOERR, R1)
          else if \<not> isNotification flags \<or> r_err r \<noteq> GF_CACHE_ENTRY_NOT_FOUND then Inr (r_err r, R1)
          else Inr (GF_NOERR, R1))
      else if cachingEnabled env then
        andThen (entries_getEntry env key R) (\<lambda>_. Inr (GF_NOERR, R))
      else Inr (GF_NOERR, R))"

definition removeLocal ::
  "('k, 'v) region_env \<Rightarrow> 'k \<Rightarrow> 'v ptr \<Rightarrow> 'v ptr \<Rightarrow> event_flags \<Rightarrow> int \<Rightarrow> version_tag option \<Rightarrow> bool \<Rightarrow>
   ('k, 'v) region \<Rightarrow> ('k, 'v) local_result" where
  "removeLocal env key value oldValue flags updateCount tag afterRemote R =
     (if \<not> cachingEnabled env then Inr (GF_NOERR, oldValue, value, R)
      else
        andThen (remove_map (rg_hash env) (rg_seg env) key updateCount tag afterRemote (rg_entries R)) (\<lambda>(r, M).
          Inr (if isNotification flags then GF_NOERR else r_err r,
               old_after_remove r oldValue, value, set_entries M R)))"

text \<open>Dropping the tracker of a key.\<close>

definition dropTracker :: "('k, 'v) region_env \<Rightarrow> 'k \<Rightarrow> int \<Rightarrow> ('k, 'v) region \<Rightarrow> gf_exn + ('k, 'v) region" where
  "dropTracker env key updateCount R =
     (if 0 \<le> updateCount \<and> \<not> ccEnabled env then
        andThen (removeTrackerForEntry_map (rg_hash env) key (rg_entries R)) (\<lambda>M. Inr (set_entries M R))
      else Inr R)"

text \<open>
  The local half of removing a key under the condition that it has a value: the value of the
  map and the server's response decide whether the map is changed at all.
\<close>

definition removeActionLocal ::
  "('k, 'v) region_env \<Rightarrow> 'k \<Rightarrow> 'v ptr \<Rightarrow> 'v ptr \<Rightarrow> event_flags \<Rightarrow> int \<Rightarrow> version_tag option \<Rightarrow> gf_err \<Rightarrow> bool \<Rightarrow>
   ('k, 'v) region \<Rightarrow> ('k, 'v) local_result" where
  "removeActionLocal env key value oldValue flags updateCount tag serverResponse afterRemote R =
     (if \<not> cachingEnabled env then removeLocal env key value oldValue flags updateCount tag afterRemote R
      else
        andThen (region_getEntry env key R) (\<lambda>valuePtr.
          case (valuePtr, value) of
            (Some v, Some w) \<Rightarrow>
              andThen (serializedEqualTo env v w) (\<lambda>eq.
                if \<not> eq then Inr (GF_ENOENT, oldValue, value, R)
                else removeLocal env key value oldValue flags updateCount tag afterRemote R)
          | (_, None) \<Rightarrow>
              if valuePtr \<noteq> Some InvalidToken then
                andThen (dropTracker env key updateCount R) (\<lambda>R1.
                  Inr (if serverResponse = GF_NOERR \<and> valuePtr = None then GF_NOERR else GF_ENOENT,
                       oldValue, value, R1))
              else removeLocal env key value oldValue flags updateCount tag afterRemote R
          | (None, Some w) \<Rightarrow>
              if serverResponse \<noteq> GF_NOERR then Inr (GF_ENOENT, oldValue, value, R)
              else removeLocal env key value oldValue flags updateCount tag afterRemote R))"

fun localUpdate ::
  "('k, 'v) region_env \<Rightarrow> entry_action \<Rightarrow> 'k \<Rightarrow> 'v ptr \<Rightarrow> 'v ptr \<Rightarrow> event_flags \<Rightarrow> int \<Rightarrow> version_tag option \<Rightarrow>
   data_input option \<Rightarrow> gf_err \<Rightarrow> bool \<Rightarrow> ('k, 'v) region \<Rightarrow> ('k, 'v) local_result" where
  "localUpdate env PutAction key value oldValue flags updateCount tag delta response afterRemote R =
     putLocal env False key value oldValue updateCount 0 tag delta R"
| "localUpdate env CreateAction key value oldValue flags updateCount tag delta response afterRemote R =
     putLocal env True key value oldValue updateCount 0 tag None R"
| "localUpdate env DestroyAction key value oldValue flags updateCount tag delta response afterRemote R =
     removeLocal env key value oldValue flags updateCount tag afterRemote R"
| "localUpdate env RemoveAction key value oldValue flags updateCount tag delta response afterRemote R =
     removeActionLocal env key value oldValue flags updateCount tag response afterRemote R"
| "localUpdate env RemoveActionEx key value oldValue flags updateCount tag delta response afterRemote R =
     removeLocal env key value oldValue flags updateCount tag afterRemote R"
| "localUpdate env InvalidateAction key value oldValue flags updateCount tag delta response afterRemote R =
     andThen (invalidateLocal env key flags tag R) (\<lambda>(err, R1). Inr (err, oldValue, value, R1))"

section \<open>The template of the operations\<close>

text \<open>
  The result of an operation is its error code, \<open>oldValue\<close> and the region. The steps
  after the arguments and the destroy flag are checked:
  the writer's vote,
\<close>

definition writerStep ::
  "('k, 'v) region_env \<Rightarrow> entry_action \<Rightarrow> 'k \<Rightarrow> 'v ptr \<Rightarrow> 'v ptr \<Rightarrow> event_flags \<Rightarrow> ('k, 'v) region \<Rightarrow>
   gf_exn + (bool \<times> 'v ptr \<times> ('k, 'v) region)" where
  "writerStep env action key value oldValue flags R =
     (if writer env \<noteq> None \<and> invokeCacheWriter flags then
        andThen (getCallbackOldValue env action key oldValue R) (\<lambda>old.
          Inr (invokeCacheWriterForEntryEvent env key old value (s_beforeEventType action) R))
      else Inr (True, oldValue, R))"

text \<open>the tracker and the server,\<close>

definition trackStep ::
  "('k, 'v) region_env \<Rightarrow> entry_action \<Rightarrow> 'k \<Rightarrow> 'v ptr \<Rightarrow> int \<Rightarrow> ('k, 'v) region \<Rightarrow>
   gf_exn + (int \<times> 'v ptr \<times> ('k, 'v) region)" where
  "trackStep env action key oldValue updateCount R =
     (if cachingEnabled env \<and> updateCount < 0 \<and> \<not> ccEnabled env then
        andThen (addTrackerForEntry_map (rg_hash env) key (s_addIfAbsent action) (s_failIfPresent action) True
            (rg_entries R))
          (\<lambda>(count, old, M). Inr (count, old, set_entries M R))
      else Inr (updateCount, oldValue, R))"

definition needsTracker :: "('k, 'v) region_env \<Rightarrow> int \<Rightarrow> bool" where
  "needsTracker env updateCount \<longleftrightarrow> cachingEnabled env \<and> updateCount < 0 \<and> \<not> ccEnabled env"

text \<open>the local change, which ends the operation or goes on to the listener with \<open>Some\<close>,\<close>

definition localStep ::
  "('k, 'v) region_env \<Rightarrow> entry_action \<Rightarrow> 'k \<Rightarrow> 'v ptr \<Rightarrow> 'v ptr \<Rightarrow> event_flags \<Rightarrow> int \<Rightarrow> version_tag option \<Rightarrow>
   data_input option \<Rightarrow> gf_err \<Rightarrow> bool \<Rightarrow> ('k, 'v) region \<Rightarrow>
   gf_exn + (bool \<times> gf_err \<times> 'v ptr \<times> 'v ptr \<times> ('k, 'v) region)" where
  "localStep env action key value oldValue flags updateCount tag delta response remoteOpDone R =
     (if \<not> isNotification flags \<or> getProcessedMarker env R then
        andThen (localUpdate env action key value oldValue flags updateCount tag delta response remoteOpDone R)
          (\<lambda>(err, old, value1, R1).
             if err = GF_CACHE_ENTRY_UPDATED then Inr (True, GF_NOERR, old, value1, R1)
             else if err = GF_CACHE_CONCURRENT_MODIFICATION_EXCEPTION then Inr (False, GF_NOERR, old, value1, R1)
             else if err = GF_INVALID_DELTA then
               let (err1, value2, tag1) = fullObject env value1 in
               if err1 = GF_NOERR \<and> value2 \<noteq> None then
                 andThen (entries_put env key value2 old updateCount 0 (if tag1 \<noteq> None then tag1 else tag) None R1)
                   (\<lambda>(err2, old2, value3, R2).
                      if err2 = GF_CACHE_CONCURRENT_MODIFICATION_EXCEPTION
                      then Inr (False, GF_NOERR, old2, value3, R2)
                      else Inr (err2 = GF_NOERR, err2, old2, value3, R2))
               else Inr (True, err1, old, value2, R1)
             else Inr (err = GF_NOERR, err, old, value1, R1))
      else
        andThen (getCallbackOldValue env action key oldValue R) (\<lambda>old.
          andThen (dropTracker env key updateCount R) (\<lambda>R1.
            Inr (True, GF_NOERR, old, value, R1))))"

text \<open>and the listener.\<close>

definition listenerStep ::
  "('k, 'v) region_env \<Rightarrow> entry_action \<Rightarrow> 'k \<Rightarrow> event_flags \<Rightarrow>
   bool \<times> gf_err \<times> 'v ptr \<times> 'v ptr \<times> ('k, 'v) region \<Rightarrow> gf_err \<times> 'v ptr \<times> ('k, 'v) region" where
  "listenerStep env action key flags = (\<lambda>(go, err, old, value, R).
     if go \<and> \<not> isNoCallbacks flags
     then invokeCacheListenerForEntryEvent env key old value flags (s_afterEventType action) False R
     else (err, old, R))"

definition inTxUpdate ::
  "('k, 'v) region_env \<Rightarrow> entry_action \<Rightarrow> 'k \<Rightarrow> 'v ptr \<Rightarrow> 'v ptr \<Rightarrow> event_flags \<Rightarrow> version_tag option \<Rightarrow>
   ('k, 'v) region \<Rightarrow> gf_exn + (gf_err \<times> 'v ptr \<times> ('k, 'v) region)" where
  "inTxUpdate env action key value oldValue flags tag R =
     (if isLocalOp env (Some flags) then Inr (GF_NOTSUP, oldValue, R)
      else
        andThen (remoteUpdate env action key value tag R) (\<lambda>(err, _, _, R1).
          Inr (err, oldValue, if err = GF_NOERR then R1\<lparr>txDirty := True\<rparr> else R1)))"

text \<open>
  The remote and the local half of an operation, after the writer agreed. A failing
  create without a value in the map goes on to the server.
\<close>

definition propagate ::
  "('k, 'v) region_env \<Rightarrow> entry_action \<Rightarrow> 'k \<Rightarrow> 'v ptr \<Rightarrow> 'v ptr \<Rightarrow> int \<Rightarrow> event_flags \<Rightarrow> version_tag option \<Rightarrow>
   data_input option \<Rightarrow> ('k, 'v) region \<Rightarrow> gf_exn + (gf_err \<times> 'v ptr \<times> ('k, 'v) region)" where
  "propagate env action key value oldValue updateCount flags tag delta R =
     (if \<not> isLocal flags \<and> \<not> isNotification flags then
        andThen (trackStep env action key oldValue updateCount R) (\<lambda>(count, old, R1).
          if needsTracker env updateCount \<and> count < 0 \<and> old \<noteq> None then Inr (GF_CACHE_ENTRY_EXISTS, old, R1)
          else
            andThen (remoteUpdate env action key value tag R1) (\<lambda>(err, tag1, response, R2).
              if err \<noteq> GF_NOERR then
                andThen (dropTracker env key count R2) (\<lambda>R3. Inr (err, old, R3))
              else
                andThen (localStep env action key value old flags count tag1 delta response True R2)
                  (\<lambda>res. Inr (listenerStep env action key flags res))))
      else
        andThen (localStep env action key value oldValue flags updateCount tag delta GF_ENOENT False R)
          (\<lambda>res. Inr (listenerStep env action key flags res)))"

definition updateNoThrow ::
  "('k, 'v) region_env \<Rightarrow> entry_action \<Rightarrow> 'k option \<Rightarrow> 'v ptr \<Rightarrow> 'v ptr \<Rightarrow> int \<Rightarrow> event_flags \<Rightarrow> version_tag option \<Rightarrow>
   data_input option \<Rightarrow> ('k, 'v) region \<Rightarrow> gf_exn + (gf_err \<times> 'v ptr \<times> ('k, 'v) region)" where
  "updateNoThrow env action keyp value oldValue updateCount flags tag delta R =
     (case keyp of
        None \<Rightarrow> Inr (checkArgs action keyp value delta, oldValue, R)
      | Some key \<Rightarrow>
          if checkArgs action keyp value delta \<noteq> GF_NOERR
          then Inr (checkArgs action keyp value delta, oldValue, R)
          else if m_destroyPending R then Inr (GF_CACHE_REGION_DESTROYED_EXCEPTION, oldValue, R)
          else if inTransaction env then inTxUpdate env action key value oldValue flags tag R
          else
            andThen (writerStep env action key value oldValue flags R) (\<lambda>(ok, old, R1).
              if \<not> ok then Inr (GF_CACHEWRITER_ERROR, old, R1)
              else propagate env action key value old updateCount flags tag delta R1))"

text \<open>
  The variant that applies the changes of a committed transaction: it has no writer and no
  remote half, and a put may carry a null value.
\<close>

definition localStepTX ::
  "('k, 'v) region_env \<Rightarrow> entry_action \<Rightarrow> 'k \<Rightarrow> 'v ptr \<Rightarrow> 'v ptr \<Rightarrow> event_flags \<Rightarrow> int \<Rightarrow> version_tag option \<Rightarrow>
   data_input option \<Rightarrow> ('k, 'v) region \<Rightarrow> gf_exn + (bool \<times> gf_err \<times> 'v ptr \<times> 'v ptr \<times> ('k, 'v) region)" where
  "localStepTX env action key value oldValue flags updateCount tag delta R =
     (if \<not> isNotification flags \<or> getProcessedMarker env R then
        andThen (localUpdate env action key value oldValue flags updateCount tag delta GF_ENOENT False R)
          (\<lambda>(err, old, value1, R1).
             if err = GF_CACHE_ENTRY_UPDATED \<or> err = GF_CACHE_ENTRY_NOT_FOUND
             then Inr (True, GF_NOERR, old, value1, R1)
             else Inr (err = GF_NOERR, err, old, value1, R1))
      else
        andThen (getCallbackOldValue env action key oldValue R) (\<lambda>old.
          andThen (dropTracker env key updateCount R) (\<lambda>R1.
            Inr (True, GF_NOERR, old, value, R1))))"

definition updateNoThrowTX ::
  "('k, 'v) region_env \<Rightarrow> entry_action \<Rightarrow> 'k option \<Rightarrow> 'v ptr \<Rightarrow> 'v ptr \<Rightarrow> int \<Rightarrow> event_flags \<Rightarrow> version_tag option \<Rightarrow>
   data_input option \<Rightarrow> ('k, 'v) region \<Rightarrow> gf_exn + (gf_err \<times> 'v ptr \<times> ('k, 'v) region)" where
  "updateNoThrowTX env action keyp value oldValue updateCount flags tag delta R =
     (case keyp of
        None \<Rightarrow> Inr (GF_CACHE_ILLEGAL_ARGUMENT_EXCEPTION, oldValue, R)
      | Some key \<Rightarrow>
          if m_destroyPending R then Inr (GF_CACHE_REGION_DESTROYED_EXCEPTION, oldValue, R)
          else
            andThen (localStepTX env action key value oldValue flags updateCount tag delta R)
              (\<lambda>(go, err, old, value1, R1).
                 Inr (if go then invokeCacheListenerForEntryEvent env key old value1 flags (s_afterEventType action)
                        False R1
                      else (err, old, R1))))"

section \<open>The operations on one entry\<close>

definition putNoThrow ::
  "('k, 'v) region_env \<Rightarrow> 'k option \<Rightarrow> 'v ptr \<Rightarrow> 'v ptr \<Rightarrow> int \<Rightarrow> event_flags \<Rightarrow> version_tag option \<Rightarrow>
   data_input option \<Rightarrow> ('k, 'v) region \<Rightarrow> gf_exn + (gf_err \<times> 'v ptr \<times> ('k, 'v) region)" where
  "putNoThrow env = updateNoThrow env PutAction"

definition putNoThrowTX ::
  "('k, 'v) region_env \<Rightarrow> 'k option \<Rightarrow> 'v ptr \<Rightarrow> 'v ptr \<Rightarrow> int \<Rightarrow> event_flags \<Rightarrow> version_tag option \<Rightarrow>
   data_input option \<Rightarrow> ('k, 'v) region \<Rightarrow> gf_exn + (gf_err \<times> 'v ptr \<times> ('k, 'v) region)" where
  "putNoThrowTX env = updateNoThrowTX env PutAction"

type_synonym ('k, 'v) entry_op =
  "'k option \<Rightarrow> int \<Rightarrow> event_flags \<Rightarrow> version_tag option \<Rightarrow> ('k, 'v) region \<Rightarrow>
   gf_exn + (gf_err \<times> 'v ptr \<times> ('k, 'v) region)"

definition createNoThrow :: "('k, 'v) region_env \<Rightarrow> 'v ptr \<Rightarrow> ('k, 'v) entry_op" where
  "createNoThrow env value key updateCount flags tag =
     updateNoThrow env CreateAction key value None updateCount flags tag None"

definition destroyNoThrow :: "('k, 'v) region_env \<Rightarrow> ('k, 'v) entry_op" where
  "destroyNoThrow env key updateCount flags tag =
     updateNoThrow env DestroyAction key None None updateCount flags tag None"

definition destroyNoThrowTX :: "('k, 'v) region_env \<Rightarrow> ('k, 'v) entry_op" where
  "destroyNoThrowTX env key updateCount flags tag =
     updateNoThrowTX env DestroyAction key None None updateCount flags tag None"

definition removeNoThrow :: "('k, 'v) region_env \<Rightarrow> 'v ptr \<Rightarrow> ('k, 'v) entry_op" where
  "removeNoThrow env value key updateCount flags tag =
     updateNoThrow env RemoveAction key value None updateCount flags tag None"

definition removeNoThrowEx :: "('k, 'v) region_env \<Rightarrow> ('k, 'v) entry_op" where
  "removeNoThrowEx env key updateCount flags tag =
     updateNoThrow env RemoveActionEx key None None updateCount flags tag None"

definition invalidateNoThrow :: "('k, 'v) region_env \<Rightarrow> ('k, 'v) entry_op" where
  "invalidateNoThrow env key updateCount flags tag =
     updateNoThrow env InvalidateAction key None None updateCount flags tag None"

definition invalidateNoThrowTX :: "('k, 'v) region_env \<Rightarrow> ('k, 'v) entry_op" where
  "invalidateNoThrowTX env key updateCount flags tag =
     updateNoThrowTX env InvalidateAction key None None updateCount flags tag None"

definition containsKey_internal :: "('k, 'v) region_env \<Rightarrow> 'k option \<Rightarrow> ('k, 'v) region \<Rightarrow> gf_exn + bool" where
  "containsKey_internal env keyp R =
     (case keyp of
        None \<Rightarrow> Inl IllegalArgumentException
      | Some key \<Rightarrow>
          if \<not> cachingEnabled env then Inr False else containsKey_map (rg_hash env) key (rg_entries R))"

definition containsKey :: "('k, 'v) region_env \<Rightarrow> 'k option \<Rightarrow> ('k, 'v) region \<Rightarrow> gf_exn + bool" where
  "containsKey env keyp R =
     (if keyp = None then Inl IllegalArgumentException
      else if m_destroyPending R then Inl RegionDestroyedException
      else containsKey_internal env keyp R)"

definition containsValueForKey_remote :: "('k, 'v) region_env \<Rightarrow> 'k \<Rightarrow> ('k, 'v) region \<Rightarrow> gf_exn + bool" where
  "containsValueForKey_remote env key R =
     (if m_destroyPending R then Inl RegionDestroyedException
      else if \<not> cachingEnabled env then Inr False
      else andThen (entries_getEntry env key R) (\<lambda>v. Inr (v \<noteq> None \<and> v \<noteq> Some InvalidToken)))"

section \<open>Reading an entry\<close>

definition isDead :: "'v ptr \<Rightarrow> bool" where
  "isDead v \<longleftrightarrow> v = Some InvalidToken \<or> v = Some TombstoneToken"

text \<open>Storing what the server or the loader gave, and telling the listener.\<close>

definition storeLoaded ::
  "('k, 'v) region_env \<Rightarrow> 'k \<Rightarrow> 'v ptr \<Rightarrow> 'v ptr \<Rightarrow> gf_err \<Rightarrow> int \<Rightarrow> version_tag option \<Rightarrow> bool \<Rightarrow> bool \<Rightarrow>
   ('k, 'v) region \<Rightarrow> gf_exn + (gf_err \<times> 'v ptr \<times> ('k, 'v) region)" where
  "storeLoaded env key value localValue err updateCount tag isLoaderInvoked local R =
     (let finish = (\<lambda>err old value R.
            let value1 = (if isDead value then None else value) in
            if \<not> isLoaderInvoked \<and> err = GF_NOERR \<and> value1 \<noteq> None then
              let (err1, _, R1) = invokeCacheListenerForEntryEvent env key old value1 NORMAL AFTER_UPDATE local R
              in Inr (err1, value1, R1)
            else Inr (err, value1, R))
      in if value \<noteq> None \<and> cachingEnabled env \<and>
            \<not> (value = Some TombstoneToken \<and> (localValue = None \<or> localValue = Some InvalidToken))
         then
           andThen (putLocal env False key value None updateCount 0 tag None R) (\<lambda>(err1, old, value1, R1).
             if err1 = GF_CACHE_CONCURRENT_MODIFICATION_EXCEPTION
             then Inr (GF_NOERR, if isDead value1 then None else value1, R1)
             else if err1 \<noteq> GF_NOERR
             then finish GF_NOERR old (if old \<noteq> None \<and> old \<noteq> Some InvalidToken then old else value1) R1
             else finish err1 old value1 R1)
         else finish err None value R)"

text \<open>
  A miss: ask the server, then the loader. The tracker is removed on every way out.
\<close>

definition loadMissing ::
  "('k, 'v) region_env \<Rightarrow> 'k \<Rightarrow> 'v ptr \<Rightarrow> 'v ptr \<Rightarrow> int \<Rightarrow> bool \<Rightarrow> ('k, 'v) region \<Rightarrow>
   gf_exn + (gf_err \<times> 'v ptr \<times> ('k, 'v) region)" where
  "loadMissing env key value localValue updateCount local R =
     (let (err, value1, tag, M) = remote env None key value None (rg_entries R);
          R1 = set_entries M R
      in andThen
           (if (value1 = None \<or> isDead value1) \<and> loader env \<noteq> None then
              (case the (loader env) key of
                 None \<Rightarrow> Inr (GF_CACHE_LOADER_EXCEPTION, value1, R1)
               | Some value2 \<Rightarrow>
                   if err \<noteq> GF_NOERR then Inr (err, value2, R1)
                   else storeLoaded env key value2 localValue err updateCount tag True local R1)
            else storeLoaded env key value1 localValue err updateCount tag False local R1)
           (\<lambda>(err1, value3, R2).
              andThen (dropTracker env key updateCount R2) (\<lambda>R3. Inr (err1, value3, R3))))"

definition getNoThrow ::
  "('k, 'v) region_env \<Rightarrow> 'k option \<Rightarrow> 'v ptr \<Rightarrow> ('k, 'v) region \<Rightarrow> gf_exn + (gf_err \<times> 'v ptr \<times> ('k, 'v) region)" where
  "getNoThrow env keyp value R =
     (if m_destroyPending R then Inr (GF_CACHE_REGION_DESTROYED_EXCEPTION, value, R)
      else
        (case keyp of
           None \<Rightarrow> Inr (GF_CACHE_ILLEGAL_ARGUMENT_EXCEPTION, value, R)
         | Some key \<Rightarrow>
             if inTransaction env then
               (if isLocalOp env None then Inr (GF_NOTSUP, value, R)
                else
                  let (err, value1, _, M) = remote env None key value None (rg_entries R);
                      R1 = set_entries M R
                  in Inr (err, if isDead value1 then None else value1,
                          if err = GF_NOERR then R1\<lparr>txDirty := True\<rparr> else R1))
             else if cachingEnabled env then
               andThen (entries_getEntry env key R) (\<lambda>found.
                 if found \<noteq> None \<and> found \<noteq> Some InvalidToken then Inr (GF_NOERR, found, R)
                 else if ccEnabled env then loadMissing env key None found (-1) (found \<noteq> None) R
                 else
                   andThen (addTrackerForEntry_map (rg_hash env) key True False False (rg_entries R))
                     (\<lambda>(count, old, M). loadMissing env key old found count (found \<noteq> None) (set_entries M R)))
             else loadMissing env key value None (-1) False R))"

section \<open>Operations on many entries\<close>

text \<open>The keys of a getAll that the map does not answer, and the values it does.\<close>

fun getAllLocal ::
  "('k, 'v) region_env \<Rightarrow> 'k list \<Rightarrow> ('k \<times> 'v ptr) list option \<Rightarrow> ('k, 'v) region \<Rightarrow>
   gf_exn + ('k list \<times> ('k \<times> 'v ptr) list option)" where
  "getAllLocal env [] values R = Inr ([], values)"
| "getAllLocal env (key # keys) values R =
     (case values of
        Some vs \<Rightarrow>
          if cachingEnabled env then
            andThen (entries_getEntry env key R) (\<lambda>value.
              if value \<noteq> None \<and> value \<noteq> Some InvalidToken
              then getAllLocal env keys (Some (al_emplace key value vs)) R
              else andThen (getAllLocal env keys values R) (\<lambda>(missed, vs'). Inr (key # missed, vs')))
          else andThen (getAllLocal env keys values R) (\<lambda>(missed, vs'). Inr (key # missed, vs'))
      | None \<Rightarrow> andThen (getAllLocal env keys values R) (\<lambda>(missed, vs'). Inr (key # missed, vs')))"

definition merge_values :: "('k \<times> 'v ptr) list \<Rightarrow> ('k \<times> 'v ptr) list option \<Rightarrow> ('k \<times> 'v ptr) list option" where
  "merge_values received = map_option (fold (\<lambda>(k, v). al_emplace k v) received)"

definition getAllNoThrow ::
  "('k, 'v) region_env \<Rightarrow> 'k list \<Rightarrow> ('k \<times> 'v ptr) list option \<Rightarrow> bool \<Rightarrow> ('k, 'v) region \<Rightarrow>
   gf_exn + (gf_err \<times> ('k \<times> 'v ptr) list option \<times> ('k, 'v) region)" where
  "getAllNoThrow env keys values addToLocalCache R =
     (if m_destroyPending R then Inr (GF_CACHE_REGION_DESTROYED_EXCEPTION, values, R)
      else if inTransaction env then
        (if isLocalOp env None then Inr (GF_NOTSUP, values, R)
         else
           let (err, received, M) = remoteGetAll env keys False (rg_entries R); R1 = set_entries M R
           in Inr (err, merge_values received values, if err = GF_NOERR then R1\<lparr>txDirty := True\<rparr> else R1))
      else
        andThen (getAllLocal env keys values R) (\<lambda>(serverKeys, values1).
          if serverKeys \<noteq> [] then
            let (err, received, M) = remoteGetAll env serverKeys addToLocalCache (rg_entries R)
            in Inr (err, merge_values received values1, set_entries M R)
          else Inr (GF_NOERR, values1, R)))"

text \<open>
  The first half of putAll: for every key the tracker and the writer. The variable
  \<open>oldValue\<close> lives across the iterations. \<open>oldValueMap\<close> is a map from keys to the
  old value and the update count.
\<close>

type_synonym ('k, 'v) old_values = "('k \<times> 'v ptr \<times> int) list"

fun putAllPrepare ::
  "('k, 'v) region_env \<Rightarrow> ('k \<times> 'v ptr) list \<Rightarrow> 'v ptr \<Rightarrow> ('k, 'v) old_values \<Rightarrow> ('k, 'v) region \<Rightarrow>
   gf_exn + (gf_err \<times> ('k, 'v) old_values \<times> ('k, 'v) region)" where
  "putAllPrepare env [] oldValue oldValueMap R = Inr (GF_NOERR, oldValueMap, R)"
| "putAllPrepare env ((key, value) # m) oldValue oldValueMap R =
     andThen
       (if cachingEnabled env \<and> \<not> ccEnabled env then
          andThen (addTrackerForEntry_map (rg_hash env) key True False True (rg_entries R)) (\<lambda>(count, old, M).
            Inr (old, al_emplace key (old, count) oldValueMap, set_entries M R))
        else Inr (oldValue, oldValueMap, R))
       (\<lambda>(old, oldValueMap1, R1).
          if writer env \<noteq> None then
            let (ok, old1, R2) = invokeCacheWriterForEntryEvent env key old value BEFORE_UPDATE R1 in
            if \<not> ok then Inr (GF_CACHEWRITER_ERROR, oldValueMap1, R2)
            else putAllPrepare env m old1 oldValueMap1 R2
          else putAllPrepare env m old oldValueMap1 R1)"

text \<open>
  The trackers removed on the way out. \<open>oldValueMap[key]\<close> inserts a missing key with a null
  value and the count 0, which \<open>oldValueMap_at\<close> reads.
\<close>

fun removeTracking :: "('k, 'v) region_env \<Rightarrow> ('k, 'v) old_values \<Rightarrow> ('k, 'v) region \<Rightarrow> gf_exn + ('k, 'v) region" where
  "removeTracking env [] R = Inr R"
| "removeTracking env ((key, old, count) # m) R =
     andThen (dropTracker env key count R) (removeTracking env m)"

definition oldValueMap_at :: "'k \<Rightarrow> ('k, 'v) old_values \<Rightarrow> 'v ptr \<times> int" where
  "oldValueMap_at key m = (case al_find m key of None \<Rightarrow> (None, 0) | Some p \<Rightarrow> p)"

text \<open>The tag of an index: the last one read when the list has no tags.\<close>

definition tag_at :: "'k part_list option \<Rightarrow> nat \<Rightarrow> version_tag option \<Rightarrow> gf_exn + version_tag option" where
  "tag_at parts index tag =
     (case parts of
        None \<Rightarrow> Inr tag
      | Some p \<Rightarrow>
          if versionTags p = [] then Inr tag
          else if index < length (versionTags p) then Inr (versionTags p ! index)
          else Inl MemoryFault)"

text \<open>
  The local puts of putAll, in the order of the keys given: the result is the error code, the
  map of old values and the region. A key that is not in the user's map is null.
\<close>

fun putAllLocal ::
  "('k, 'v) region_env \<Rightarrow> ('k \<times> 'v ptr option) list \<Rightarrow> 'k part_list option \<Rightarrow> nat \<Rightarrow> version_tag option \<Rightarrow> gf_err \<Rightarrow>
   ('k, 'v) old_values \<Rightarrow> ('k, 'v) region \<Rightarrow> gf_exn + (gf_err \<times> ('k, 'v) old_values \<times> ('k, 'v) region)" where
  "putAllLocal env [] parts index tag err oldValueMap R = Inr (err, oldValueMap, R)"
| "putAllLocal env ((key, found) # m) parts index tag err oldValueMap R =
     andThen (tag_at parts index tag) (\<lambda>tag1.
       case found of
         None \<Rightarrow> if ccEnabled env then Inr (GF_CACHE_ILLEGAL_ARGUMENT_EXCEPTION, oldValueMap, R) else Inl MemoryFault
       | Some value \<Rightarrow>
           let (old, count) = oldValueMap_at key oldValueMap;
               oldValueMap1 = al_emplace key (None, 0) oldValueMap
           in andThen (putNoThrow env (Some key) value old count (LOCAL OR NOCACHEWRITER) tag1 None R)
                (\<lambda>(localErr, old1, R1).
                   let oldValueMap2 = al_assign key (old1, count) oldValueMap1 in
                   if localErr = GF_CACHE_ENTRY_UPDATED \<or> localErr = GF_NOERR
                   then putAllLocal env m parts (index + 1) tag1 err oldValueMap2 R1
                   else if localErr = GF_CACHE_LISTENER_EXCEPTION
                   then putAllLocal env m parts (index + 1) tag1 localErr oldValueMap2 R1
                   else Inr (localErr, oldValueMap2, R1)))"

definition putAllKeys ::
  "('k, 'v) region_env \<Rightarrow> ('k \<times> 'v ptr) list \<Rightarrow> 'k part_list option \<Rightarrow> gf_exn + ('k \<times> 'v ptr option) list" where
  "putAllKeys env m parts =
     (if singleHop env then
        (case parts of
           None \<Rightarrow> Inl MemoryFault
         | Some p \<Rightarrow>
             (case succeededKeys p of
                None \<Rightarrow> Inl MemoryFault
              | Some ks \<Rightarrow> Inr (map (\<lambda>k. (k, al_find m k)) ks)))
      else Inr (map (\<lambda>(k, v). (k, Some v)) m))"

definition putAllNoThrow ::
  "('k, 'v) region_env \<Rightarrow> ('k \<times> 'v ptr) list \<Rightarrow> ('k, 'v) region \<Rightarrow> gf_exn + (gf_err \<times> ('k, 'v) region)" where
  "putAllNoThrow env m R =
     (if m_destroyPending R then Inr (GF_CACHE_REGION_DESTROYED_EXCEPTION, R)
      else if inTransaction env then
        (if isLocalOp env None then Inr (GF_NOTSUP, R)
         else
           let (err, _, M) = remotePutAll env m (rg_entries R); R1 = set_entries M R
           in Inr (err, if err = GF_NOERR then R1\<lparr>txDirty := True\<rparr> else R1))
      else
        andThen
          (if cachingEnabled env \<or> writer env \<noteq> None then putAllPrepare env m None [] R
           else Inr (GF_NOERR, [], R))
          (\<lambda>(err, oldValueMap, R1).
             let out = (\<lambda>(e, ovm, R). andThen (removeTracking env ovm R) (\<lambda>R'. Inr (e, R'))) in
             if err \<noteq> GF_NOERR then out (err, oldValueMap, R1)
             else
               let (err1, parts, M) = remotePutAll env m (rg_entries R1); R2 = set_entries M R1 in
               if err1 \<noteq> GF_NOERR \<or> \<not> cachingEnabled env then out (err1, oldValueMap, R2)
               else
                 andThen (putAllKeys env m parts) (\<lambda>ks.
                   andThen (putAllLocal env ks parts 0 None GF_NOERR oldValueMap R2) out)))"

fun removeAllLocal ::
  "('k, 'v) region_env \<Rightarrow> 'k list \<Rightarrow> 'k part_list option \<Rightarrow> nat \<Rightarrow> version_tag option \<Rightarrow> gf_err \<Rightarrow> ('k, 'v) region \<Rightarrow>
   gf_exn + (gf_err \<times> ('k, 'v) region)" where
  "removeAllLocal env [] parts index tag err R = Inr (err, R)"
| "removeAllLocal env (key # ks) parts index tag err R =
     andThen (tag_at parts index tag) (\<lambda>tag1.
       if parts \<noteq> None \<and> tag1 = None then removeAllLocal env ks parts (index + 1) tag1 err R
       else
         andThen (destroyNoThrow env (Some key) (-1) (LOCAL OR NOCACHEWRITER) tag1 R) (\<lambda>(localErr, _, R1).
           if localErr \<in> {GF_NOERR, GF_CACHE_ENTRY_UPDATED, GF_CACHE_ENTRY_NOT_FOUND}
           then removeAllLocal env ks parts (index + 1) tag1 err R1
           else if localErr = GF_CACHE_LISTENER_EXCEPTION
           then removeAllLocal env ks parts (index + 1) tag1 localErr R1
           else Inr (localErr, R1)))"

definition removeAllKeys :: "('k, 'v) region_env \<Rightarrow> 'k list \<Rightarrow> 'k part_list option \<Rightarrow> gf_exn + 'k list" where
  "removeAllKeys env keys parts =
     (if singleHop env then
        (case parts of
           None \<Rightarrow> Inl MemoryFault
         | Some p \<Rightarrow> (case succeededKeys p of None \<Rightarrow> Inl MemoryFault | Some ks \<Rightarrow> Inr ks))
      else Inr keys)"

definition removeAllNoThrow ::
  "('k, 'v) region_env \<Rightarrow> 'k list \<Rightarrow> ('k, 'v) region \<Rightarrow> gf_exn + (gf_err \<times> ('k, 'v) region)" where
  "removeAllNoThrow env keys R =
     (if m_destroyPending R then Inr (GF_CACHE_REGION_DESTROYED_EXCEPTION, R)
      else if inTransaction env \<and> isLocalOp env None then Inr (GF_NOTSUP, R)
      else
        let (err, parts, M) = remoteRemoveAll env keys (rg_entries R); R1 = set_entries M R in
        if inTransaction env then Inr (err, if err = GF_NOERR then R1\<lparr>txDirty := True\<rparr> else R1)
        else if err \<noteq> GF_NOERR \<or> \<not> cachingEnabled env then Inr (err, R1)
        else
          andThen (removeAllKeys env keys parts) (\<lambda>ks.
            removeAllLocal env ks parts 0 None err R1))"

section \<open>Operations on the region\<close>

definition invokeCacheWriterForRegionEvent ::
  "('k, 'v) region_env \<Rightarrow> region_event_type \<Rightarrow> ('k, 'v) region \<Rightarrow> bool \<times> ('k, 'v) region" where
  "invokeCacheWriterForRegionEvent env type R =
     (case writer env of
        None \<Rightarrow> (True, R)
      | Some w \<Rightarrow>
          (case type of
             BEFORE_REGION_DESTROY \<Rightarrow> (w (RegionCall BeforeRegionDestroy), log_call (RegionCall BeforeRegionDestroy) R)
           | BEFORE_REGION_CLEAR \<Rightarrow> (w (RegionCall BeforeRegionClear), log_call (RegionCall BeforeRegionClear) R)
           | _ \<Rightarrow> (True, R)))"

definition invokeCacheListenerForRegionEvent ::
  "('k, 'v) region_env \<Rightarrow> event_flags \<Rightarrow> region_event_type \<Rightarrow> ('k, 'v) region \<Rightarrow> gf_err \<times> ('k, 'v) region" where
  "invokeCacheListenerForRegionEvent env flags type R =
     (case listener env of
        None \<Rightarrow> (GF_NOERR, R)
      | Some l \<Rightarrow>
          let call = (\<lambda>c R. (if l (RegionCall c) then GF_NOERR else GF_CACHE_LISTENER_EXCEPTION,
                            log_call (RegionCall c) R))
          in case type of
               AFTER_REGION_DESTROY \<Rightarrow>
                 let (err, R1) = call AfterRegionDestroy R in
                 if err = GF_NOERR \<and> isCacheClose flags then call Close_listener R1 else (err, R1)
             | AFTER_REGION_INVALIDATE \<Rightarrow> call AfterRegionInvalidate R
             | AFTER_REGION_CLEAR \<Rightarrow> call AfterRegionClear R
             | _ \<Rightarrow> (GF_NOERR, R))"

definition localClearNoThrow ::
  "('k, 'v) region_env \<Rightarrow> event_flags \<Rightarrow> ('k, 'v) region \<Rightarrow> gf_err \<times> ('k, 'v) region" where
  "localClearNoThrow env flags R =
     (if m_released R \<or> m_destroyPending R then (GF_NOERR, R)
      else
        let (ok, R1) = invokeCacheWriterForRegionEvent env BEFORE_REGION_CLEAR R in
        if \<not> ok then (GF_CACHEWRITER_ERROR, R1)
        else
          let R2 = (if cachingEnabled env then set_entries (clear_map (rg_entries R1)) R1 else R1) in
          if \<not> isNormal flags then invokeCacheListenerForRegionEvent env flags AFTER_REGION_CLEAR R2
          else (GF_NOERR, R2))"

definition size_remote :: "('k, 'v) region_env \<Rightarrow> ('k, 'v) region \<Rightarrow> gf_exn + u32" where
  "size_remote env R =
     (if m_destroyPending R then Inl RegionDestroyedException
      else if cachingEnabled env then Inr (size_map (rg_entries R)) else Inr 0)"

text \<open>
  The size of a region. \<open>remote_size\<close> is the subclass's method; in a transaction on a
  region that is only local the error code is returned as the size.
\<close>

definition GF_NOTSUP_code :: u32 where
  "GF_NOTSUP_code = 12"

definition size_region :: "('k, 'v) region_env \<Rightarrow> gf_exn + u32 \<Rightarrow> ('k, 'v) region \<Rightarrow> gf_exn + u32" where
  "size_region env remote_size R =
     (if inTransaction env then (if isLocalOp env None then Inr GF_NOTSUP_code else remote_size)
      else size_remote env R)"

text \<open>
  Garbage collection of tombstones on the server's word: by the versions of members, a key
  of which may be of another class, or by keys.
\<close>

fun gcVersions_of ::
  "(member option \<times> u64) list \<Rightarrow> member_list \<Rightarrow> (u16 \<times> u64) list \<Rightarrow> member_list \<times> (u16 \<times> u64) list" where
  "gcVersions_of [] members gc = (members, gc)"
| "gcVersions_of ((None, version) # ts) members gc = gcVersions_of ts members gc"
| "gcVersions_of ((Some m, version) # ts) members gc =
     (let (memberId, members1) = add_member m members in gcVersions_of ts members1 (al_assign memberId version gc))"

definition tombstoneOperationNoThrow ::
  "('k, 'v) region_env \<Rightarrow> (member option \<times> u64) list option \<Rightarrow> 'k list \<Rightarrow> ('k, 'v) region \<Rightarrow>
   member_list \<times> ('k, 'v) region" where
  "tombstoneOperationNoThrow env tombstoneVersions tombstoneKeys R =
     (let members = env_members (rg_seg env) in
      if \<not> cachingEnabled env then (members, R)
      else
        (case tombstoneVersions of
           Some ts \<Rightarrow>
             let (members1, gc) = gcVersions_of ts members []
             in (members1, set_entries (reapTombstones_versions_map gc (rg_entries R)) R)
         | None \<Rightarrow> (members, set_entries (reapTombstones_keys_map tombstoneKeys (rg_entries R)) R)))"

definition localDestroyNoCallbacks ::
  "('k, 'v) region_env \<Rightarrow> 'k \<Rightarrow> ('k, 'v) region \<Rightarrow> gf_exn + (gf_err \<times> ('k, 'v) region)" where
  "localDestroyNoCallbacks env key R =
     andThen (destroyNoThrow env (Some key) (-1) (LOCAL OR NOCALLBACKS) None R) (\<lambda>(err, _, R1). Inr (err, R1))"

text \<open>
  Dropping the keys of interest. An error other than a missing entry is thrown; the error
  code stands for the exception.
\<close>

fun clearKeys ::
  "('k, 'v) region_env \<Rightarrow> 'k list \<Rightarrow> ('k, 'v) region \<Rightarrow> gf_exn + (gf_err \<times> ('k, 'v) region)" where
  "clearKeys env [] R = Inr (GF_NOERR, R)"
| "clearKeys env (key # ks) R =
     andThen (localDestroyNoCallbacks env key R) (\<lambda>(err, R1).
       if err \<noteq> GF_CACHE_ENTRY_NOT_FOUND \<and> err \<noteq> GF_NOERR then Inr (err, R1) else clearKeys env ks R1)"

definition clearKeysOfInterest ::
  "('k, 'v) region_env \<Rightarrow> 'k list \<Rightarrow> ('k, 'v) region \<Rightarrow> gf_exn + (gf_err \<times> ('k, 'v) region)" where
  "clearKeysOfInterest env ks R =
     (if empty_map (rg_entries R) then Inr (GF_NOERR, R) else clearKeys env ks R)"

end
