(* ===== verification/Region_Cache.thy ===== *)
theory Region_Cache
  imports Local_Region
begin

text \<open>
  Properties of the region operations of \<open>Local_Region\<close>: what they keep of the entry map
  whatever the server and other threads do meanwhile, how versions and trackers decide
  between an operation and the ones that overtake it, and when the application is called.

  The contract of the virtual operations that a subclass provides is the locale
  \<open>server_link\<close>; it is interpreted for the operations of a local region.
\<close>

section \<open>Frames\<close>

text \<open>The map is consistent again and the keys outside of a set are as before.\<close>

definition kept :: "('k \<Rightarrow> u32) \<Rightarrow> 'k set \<Rightarrow> ('k, 'v) entries_map \<Rightarrow> ('k, 'v) entries_map \<Rightarrow> bool" where
  "kept hashcode K M M' \<longleftrightarrow>
     map_inv hashcode M' \<and> (\<forall>k. k \<notin> K \<longrightarrow> lookup_map hashcode M' k = lookup_map hashcode M k)"

lemma kept_refl: "map_inv hashcode M \<Longrightarrow> kept hashcode K M M"
  by (simp add: kept_def)

lemma kept_trans: "kept hashcode K M M' \<Longrightarrow> kept hashcode K M' M'' \<Longrightarrow> kept hashcode K M M''"
  by (simp add: kept_def)

lemma kept_inv: "kept hashcode K M M' \<Longrightarrow> map_inv hashcode M'"
  by (simp add: kept_def)

lemma lookup_add_size [simp]: "lookup_map hashcode (add_size d M) = lookup_map hashcode M"
  by (auto simp: lookup_map_def segmentFor_def segmentIdx_def add_size_def)

lemma map_inv_add_size [simp]: "map_inv hashcode (add_size d M) = map_inv hashcode M"
  by (simp add: map_inv_def segmentIdx_def add_size_def)

lemma kept_add_size [simp]: "kept hashcode K M (add_size d M') = kept hashcode K M M'"
  by (simp add: kept_def)

lemma kept_on_segment:
  assumes inv: "map_inv hashcode M" and run: "on_segment hashcode key op M = Inr (r, M')" and k: "key \<in> K"
    and eff: "\<And>s s'. \<lbrakk>conc_inv s; op s = Inr (r, s')\<rbrakk> \<Longrightarrow> \<exists>w. op_effect key s s' w"
  shows "kept hashcode K M M'"
proof -
  let ?s = "m_segments M ! segmentIdx hashcode key M"
  note at = segmentFor_inv[OF inv, of key]
  from run at obtain s' where s': "op ?s = Inr (r, s')"
    by (auto simp: on_segment_def andThen_Inr_conv)
  obtain w where w: "op_effect key ?s s' w" using eff[OF at(3) s'] by blast
  have "map_inv hashcode M' \<and> lookup_map hashcode M' = (lookup_map hashcode M)(key := w) \<and> m_size M' = m_size M"
  proof (rule on_segment_effect[OF inv run])
    fix s s''
    assume "s = ?s" "conc_inv s" "op s = Inr (r, s'')"
    with s' w show "op_effect key s s'' w" by simp
  qed
  with k show ?thesis by (auto simp: kept_def)
qed

lemma put_map_kept:
  assumes inv: "map_inv hashcode M" and v: "storable v" and k: "key \<in> K"
    and run: "put_map hashcode env key v uc dt tag None M = Inr (r, M')"
  shows "kept hashcode K M M'"
proof -
  from run obtain M1 where on: "on_segment hashcode key (put_seg env (sint (m_numDestroyTrackers M)) key v uc dt tag None) M = Inr (r, M1)"
    and M': "M' = (if r_err r \<noteq> GF_NOERR then M1 else if \<not> r_flag r then add_size 1 M1 else M1)"
    by (auto simp: put_map_def andThen_Inr_conv)
  have "kept hashcode K M M1" by (rule kept_on_segment[OF inv on k]) (rule exI, rule conjunct1, rule put_seg_effect[OF _ v])
  then show ?thesis by (simp add: M')
qed

lemma create_map_kept:
  assumes inv: "map_inv hashcode M" and v: "storable v" and k: "key \<in> K"
    and run: "create_map hashcode env key v uc dt tag M = Inr (r, M')"
  shows "kept hashcode K M M'"
proof -
  from run obtain M1 where on: "on_segment hashcode key (create_seg env (sint (m_numDestroyTrackers M)) key v uc dt tag) M = Inr (r, M1)"
    and M': "M' = (if r_err r = GF_NOERR \<and> r_oldValue r = None then add_size 1 M1 else M1)"
    by (auto simp: create_map_def andThen_Inr_conv)
  have "kept hashcode K M M1" by (rule kept_on_segment[OF inv on k]) (rule exI, rule conjunct1, rule create_seg_effect[OF _ v])
  then show ?thesis by (simp add: M')
qed

lemma invalidate_map_kept:
  assumes inv: "map_inv hashcode M" and k: "key \<in> K"
    and run: "invalidate_map hashcode env key tag M = Inr (r, M')"
  shows "kept hashcode K M M'"
proof -
  from run obtain M1 where on: "on_segment hashcode key (invalidate_seg env (sint (m_numDestroyTrackers M)) key tag) M = Inr (r, M1)"
    and M': "M' = (if r_flag r then add_size 1 M1 else M1)"
    by (auto simp: invalidate_map_def andThen_Inr_conv)
  have "kept hashcode K M M1" by (rule kept_on_segment[OF inv on k]) (rule exI, rule conjunct1, rule invalidate_seg_effect)
  then show ?thesis by (simp add: M')
qed

lemma remove_map_kept:
  assumes inv: "map_inv hashcode M" and k: "key \<in> K"
    and run: "remove_map hashcode env key uc tag ar M = Inr (r, M')"
  shows "kept hashcode K M M'"
proof -
  from run obtain M1 where on: "on_segment hashcode key (remove_seg env (sint (m_numDestroyTrackers M)) key uc tag ar) M = Inr (r, M1)"
    and M': "M' = (if r_err r = GF_NOERR \<and> r_flag r then add_size (- 1) M1 else M1)"
    by (auto simp: remove_map_def andThen_Inr_conv)
  have "kept hashcode K M M1" by (rule kept_on_segment[OF inv on k]) (rule exI, rule conjunct1, rule remove_seg_effect)
  then show ?thesis by (simp add: M')
qed

section \<open>The local steps keep the map\<close>

lemma set_entries_sel [simp]:
  "rg_entries (set_entries M R) = M" "m_destroyPending (set_entries M R) = m_destroyPending R"
  "calls (set_entries M R) = calls R" "m_released (set_entries M R) = m_released R"
  "txDirty (set_entries M R) = txDirty R"
  by (simp_all add: set_entries_def)

lemma set_entries_same [simp]: "set_entries (rg_entries R) R = R" "set_entries M (set_entries M' R) = set_entries M R"
  by (simp_all add: set_entries_def)

lemma log_call_sel [simp]:
  "rg_entries (log_call c R) = rg_entries R" "m_destroyPending (log_call c R) = m_destroyPending R"
  "calls (log_call c R) = calls R @ [c]"
  by (simp_all add: log_call_def)

text \<open>
  \<open>rkept\<close> is \<open>kept\<close> for regions. The full object a server sends for a failed
  delta is a value.
\<close>

definition rkept :: "('k, 'v) region_env \<Rightarrow> 'k set \<Rightarrow> ('k, 'v) region \<Rightarrow> ('k, 'v) region \<Rightarrow> bool" where
  "rkept env K R R' \<longleftrightarrow> kept (rg_hash env) K (rg_entries R) (rg_entries R')"

definition full_ok :: "('k, 'v) region_env \<Rightarrow> bool" where
  "full_ok env \<longleftrightarrow>
     (\<forall>v err v' tag. fullObject env v = (err, v', tag) \<longrightarrow> v' \<noteq> None \<longrightarrow> v = None \<or> storable v \<longrightarrow> storable v')"

lemma rkept_refl: "map_inv (rg_hash env) (rg_entries R) \<Longrightarrow> rkept env K R R"
  by (simp add: rkept_def kept_refl)

lemma rkept_trans: "rkept env K R R' \<Longrightarrow> rkept env K R' R'' \<Longrightarrow> rkept env K R R''"
  unfolding rkept_def by (rule kept_trans)

lemma rkept_inv: "rkept env K R R' \<Longrightarrow> map_inv (rg_hash env) (rg_entries R')"
  unfolding rkept_def by (rule kept_inv)

lemma rkept_same_entries: "rg_entries R' = rg_entries R \<Longrightarrow> map_inv (rg_hash env) (rg_entries R) \<Longrightarrow> rkept env K R R'"
  by (simp add: rkept_def kept_refl)

lemma putForTrackedEntry_newValue:
  "putForTrackedEntry env key v e uc st None s = Inr (err, nv, i, s') \<Longrightarrow> nv = v"
  by (auto simp: putForTrackedEntry_def Let_def split: if_splits)

lemma put_seg_newValue:
  assumes "put_seg env n key v uc dt tag None s = Inr (r, s')"
  shows "r_newValue r = v"
proof -
  from assms obtain s1 where s1: "check_rehash s = Inr s1" by (auto simp: put_seg_def andThen_Inr_conv)
  show ?thesis
  proof (cases "al_find (m_map s1) key")
    case None
    with assms s1 show ?thesis by (auto simp: put_seg_def result_def split: prod.splits)
  next
    case (Some e)
    with assms s1 obtain err st where st: "next_stamp env tag False e s1 = Inr (err, st)"
      by (auto simp: put_seg_def andThen_Inr_conv Let_def)
    show ?thesis
    proof (cases "err \<noteq> GF_NOERR \<or> getValueI (getImplPtr e) = Some TombstoneToken")
      case True
      with assms s1 Some st show ?thesis
        by (auto simp: put_seg_def result_def Let_def split: prod.splits if_splits)
    next
      case False
      with assms s1 Some st obtain err1 nv i s2 where
        p: "putForTrackedEntry env key v e uc st None s1 = Inr (err1, nv, i, s2)"
        and "r_newValue r = nv"
        by (auto simp: put_seg_def result_def Let_def andThen_Inr_conv split: if_splits)
      with putForTrackedEntry_newValue[OF p] show ?thesis by simp
    qed
  qed
qed

lemma put_newValue:
  assumes "put_map hashcode env key v uc dt tag None M = Inr (r, M')"
  shows "r_newValue r = v"
  using assms put_seg_newValue by (fastforce simp: put_map_def on_segment_def andThen_Inr_conv)

lemma entries_put_kept:
  assumes inv: "map_inv (rg_hash env) (rg_entries R)" and v: "storable value" and k: "key \<in> K"
    and run: "entries_put env key value old uc dt tag None R = Inr (err, old', value', R')"
  shows "rkept env K R R' \<and> value' = value"
proof -
  from run obtain r M where p: "put_map (rg_hash env) (rg_seg env) key value uc dt tag None (rg_entries R) = Inr (r, M)"
    and R': "R' = set_entries M R" "value' = r_newValue r"
    by (auto simp: entries_put_def andThen_Inr_conv Let_def)
  with put_map_kept[OF inv v k p] put_newValue[OF p] show ?thesis by (simp add: rkept_def)
qed

lemma putLocal_kept:
  assumes inv: "map_inv (rg_hash env) (rg_entries R)" and v: "storable value" and full: "full_ok env" and k: "key \<in> K"
    and run: "putLocal env isCreate key value old uc dt tag None R = Inr (err, old', value', R')"
  shows "rkept env K R R' \<and> (value' = None \<or> storable value')"
proof (cases "cachingEnabled env \<and> \<not> isCreate")
  case True
  with run obtain err1 old1 value1 R1 where p: "entries_put env key value old uc dt tag None R = Inr (err1, old1, value1, R1)"
    by (auto simp: putLocal_def andThen_Inr_conv)
  note p1 = entries_put_kept[OF inv v k p]
  show ?thesis
  proof (cases "err1 = GF_INVALID_DELTA")
    case False
    with run True p have "R' = R1" "value' = value1" by (simp_all add: putLocal_def)
    with p1 v show ?thesis by simp
  next
    case delta: True
    obtain err2 value2 tag2 where f: "fullObject env value1 = (err2, value2, tag2)" by (cases "fullObject env value1")
    with p1 v full have v2: "value2 \<noteq> None \<Longrightarrow> storable value2" unfolding full_ok_def by blast
    show ?thesis
    proof (cases "err2 = GF_NOERR \<and> value2 \<noteq> None")
      case True': True
      with run True p delta f
      have q: "entries_put env key value2 old1 uc dt (if tag2 \<noteq> None then tag2 else tag) None R1 = Inr (err, old', value', R')"
        by (simp add: putLocal_def)
      have inv1: "map_inv (rg_hash env) (rg_entries R1)" using p1 rkept_inv by blast
      from entries_put_kept[OF inv1 _ k q] v2 True' p1 show ?thesis by (auto intro: rkept_trans)
    next
      case False
      with run True p delta f have "R' = R1" "value' = value2" by (auto simp: putLocal_def)
      with p1 v2 show ?thesis by blast
    qed
  qed
next
  case False
  show ?thesis
  proof (cases "cachingEnabled env")
    case True
    with False run obtain r M where "create_map (rg_hash env) (rg_seg env) key value uc dt tag (rg_entries R) = Inr (r, M)"
      "R' = set_entries M R" "value' = value"
      by (auto simp: putLocal_def andThen_Inr_conv Let_def)
    with create_map_kept[OF inv v k] v show ?thesis by (simp add: rkept_def)
  next
    case False
    with run inv v show ?thesis by (simp add: putLocal_def rkept_refl)
  qed
qed

lemma invalidateLocal_kept:
  assumes inv: "map_inv (rg_hash env) (rg_entries R)" and k: "key \<in> K"
    and run: "invalidateLocal env key flags tag R = Inr (err, R')"
  shows "rkept env K R R'"
proof (cases "\<not> m_destroyPending R \<and> (\<not> isNotification flags \<or> getProcessedMarker env R) \<and> cachingEnabled env")
  case True
  with run obtain r M where p: "invalidate_map (rg_hash env) (rg_seg env) key tag (rg_entries R) = Inr (r, M)"
    and "R' = set_entries M R"
    by (auto simp: invalidateLocal_def andThen_Inr_conv Let_def split: if_splits)
  with invalidate_map_kept[OF inv k p] show ?thesis by (simp add: rkept_def)
next
  case False
  with run have "R' = R" by (auto simp: invalidateLocal_def andThen_Inr_conv split: if_splits)
  with inv show ?thesis by (simp add: rkept_refl)
qed

lemma removeLocal_kept:
  assumes inv: "map_inv (rg_hash env) (rg_entries R)" and k: "key \<in> K"
    and run: "removeLocal env key value old flags uc tag ar R = Inr (err, old', value', R')"
  shows "rkept env K R R' \<and> value' = value"
proof (cases "cachingEnabled env")
  case True
  with run obtain r M where p: "remove_map (rg_hash env) (rg_seg env) key uc tag ar (rg_entries R) = Inr (r, M)"
    and "R' = set_entries M R" "value' = value"
    by (auto simp: removeLocal_def andThen_Inr_conv)
  with remove_map_kept[OF inv k p] show ?thesis by (simp add: rkept_def)
next
  case False
  with run inv show ?thesis by (simp add: removeLocal_def rkept_refl)
qed

lemma dropTracker_kept:
  assumes inv: "map_inv (rg_hash env) (rg_entries R)" and run: "dropTracker env key count R = Inr R'"
  shows "R' = R"
proof -
  from inv have "cem_concurrencyChecksEnabled (rg_entries R)" by (simp add: map_inv_def)
  with run show ?thesis
    by (auto simp: dropTracker_def removeTrackerForEntry_map_def andThen_Inr_conv split: if_splits)
qed

lemma removeActionLocal_kept:
  assumes inv: "map_inv (rg_hash env) (rg_entries R)" and k: "key \<in> K"
    and run: "removeActionLocal env key value old flags uc tag response ar R = Inr (err, old', value', R')"
  shows "rkept env K R R' \<and> value' = value"
proof -
  from run have "removeLocal env key value old flags uc tag ar R = Inr (err, old', value', R') \<or>
      dropTracker env key uc R = Inr R' \<and> value' = value \<or> R' = R \<and> value' = value"
    by (auto simp: removeActionLocal_def andThen_Inr_conv split: if_splits option.splits)
  then show ?thesis
    using removeLocal_kept[OF inv k] dropTracker_kept[OF inv] rkept_refl[OF inv] by blast
qed

text \<open>The values an action may carry: a put and a create have one.\<close>

definition value_ok :: "entry_action \<Rightarrow> 'v ptr \<Rightarrow> bool" where
  "value_ok action value \<longleftrightarrow> storable value \<or> value = None \<and> action \<noteq> PutAction \<and> action \<noteq> CreateAction"

lemma localUpdate_kept:
  assumes inv: "map_inv (rg_hash env) (rg_entries R)" and v: "value_ok action value" and full: "full_ok env" and k: "key \<in> K"
    and run: "localUpdate env action key value old flags uc tag None response ar R = Inr (err, old', value', R')"
  shows "rkept env K R R' \<and> (value' = None \<or> storable value')"
proof (cases action)
  case PutAction
  with run v putLocal_kept[OF inv _ full k] show ?thesis by (simp add: value_ok_def)
next
  case CreateAction
  with run v putLocal_kept[OF inv _ full k] show ?thesis by (simp add: value_ok_def)
next
  case DestroyAction
  with run v removeLocal_kept[OF inv k] show ?thesis by (fastforce simp: value_ok_def)
next
  case RemoveAction
  with run v removeActionLocal_kept[OF inv k] show ?thesis by (fastforce simp: value_ok_def)
next
  case RemoveActionEx
  with run v removeLocal_kept[OF inv k] show ?thesis by (fastforce simp: value_ok_def)
next
  case InvalidateAction
  with run v invalidateLocal_kept[OF inv k] show ?thesis by (fastforce simp: value_ok_def andThen_Inr_conv)
qed

lemma localStep_kept:
  assumes inv: "map_inv (rg_hash env) (rg_entries R)" and v: "value_ok action value" and full: "full_ok env" and k: "key \<in> K"
    and run: "localStep env action key value old flags uc tag None response ar R = Inr (go, err, old', value', R')"
  shows "rkept env K R R'"
proof (cases "\<not> isNotification flags \<or> getProcessedMarker env R")
  case True
  with run obtain err1 old1 value1 R1 where
    p: "localUpdate env action key value old flags uc tag None response ar R = Inr (err1, old1, value1, R1)"
    by (auto simp: localStep_def andThen_Inr_conv)
  note p1 = localUpdate_kept[OF inv v full k p]
  obtain err2 value2 tag2 where f: "fullObject env value1 = (err2, value2, tag2)" by (cases "fullObject env value1")
  show ?thesis
  proof (cases "err1 = GF_INVALID_DELTA \<and> err2 = GF_NOERR \<and> value2 \<noteq> None")
    case delta: True
    with run True p f obtain err3 old3 value3 where
      q: "entries_put env key value2 old1 uc 0 (if tag2 \<noteq> None then tag2 else tag) None R1 = Inr (err3, old3, value3, R')"
      by (auto simp: localStep_def andThen_Inr_conv split: if_splits)
    have "map_inv (rg_hash env) (rg_entries R1)" using p1 rkept_inv by blast
    moreover have "storable value2" using delta p1 f full unfolding full_ok_def by blast
    ultimately have "rkept env K R1 R'" using entries_put_kept[OF _ _ k q] by blast
    with p1 show ?thesis by (blast intro: rkept_trans)
  next
    case False
    with run True p f have "R' = R1" by (auto simp: localStep_def split: if_splits)
    with p1 show ?thesis by simp
  qed
next
  case False
  with run obtain R1 where "dropTracker env key uc R = Inr R1" "R' = R1"
    by (auto simp: localStep_def andThen_Inr_conv)
  with dropTracker_kept[OF inv] rkept_refl[OF inv] show ?thesis by blast
qed

lemma writer_entries:
  "invokeCacheWriterForEntryEvent env key old new type R = (ok, old', R') \<Longrightarrow>
   rg_entries R' = rg_entries R \<and> m_destroyPending R' = m_destroyPending R"
  by (auto simp: invokeCacheWriterForEntryEvent_def Let_def split: option.splits entry_event_type.splits)

lemma listener_entries:
  "invokeCacheListenerForEntryEvent env key old new flags type local R = (err, old', R') \<Longrightarrow>
   rg_entries R' = rg_entries R \<and> m_destroyPending R' = m_destroyPending R"
  by (auto simp: invokeCacheListenerForEntryEvent_def Let_def split: option.splits entry_event_type.splits)

lemma listenerStep_entries:
  "listenerStep env action key flags (go, err, old, value, R) = (err', old', R') \<Longrightarrow> rg_entries R' = rg_entries R"
  using listener_entries by (fastforce simp: listenerStep_def split: if_splits)

lemma writerStep_entries:
  "writerStep env action key value old flags R = Inr (ok, old', R') \<Longrightarrow>
   rg_entries R' = rg_entries R \<and> m_destroyPending R' = m_destroyPending R"
  using writer_entries by (fastforce simp: writerStep_def andThen_Inr_conv split: if_splits)

section \<open>The contract of the virtual operations\<close>

text \<open>
  What a region relies on when it calls a server: other threads and notifications change the
  map through its operations only, so the map stays consistent. \<open>K\<close> is the set of keys
  they may touch.
\<close>

definition loader_ok :: "('k, 'v) region_env \<Rightarrow> bool" where
  "loader_ok env \<longleftrightarrow> (\<forall>l k v. loader env = Some l \<longrightarrow> l k = Some v \<longrightarrow> v = None \<or> storable v)"

lemma storeLoaded_kept:
  assumes inv: "map_inv (rg_hash env) (rg_entries R)" and full: "full_ok env" and k: "key \<in> K"
    and v: "value = None \<or> storable value \<or> value = Some TombstoneToken"
    and l: "localValue \<in> {None, Some InvalidToken} \<or> \<not> cachingEnabled env"
    and run: "storeLoaded env key value localValue err uc tag isLoaded local R = Inr (err', value', R')"
  shows "rkept env K R R'"
proof (cases "storable value \<and> cachingEnabled env")
  case True
  then have "value \<noteq> None" "value \<noteq> Some TombstoneToken" by (auto simp: storable_def stored_def)
  with run True obtain err1 old1 value1 R1 where
    p: "putLocal env False key value None uc 0 tag None R = Inr (err1, old1, value1, R1)"
    by (auto simp: storeLoaded_def Let_def andThen_Inr_conv)
  from True have "rkept env K R R1" using putLocal_kept[OF inv _ full k p] by blast
  moreover from run True p \<open>value \<noteq> None\<close> \<open>value \<noteq> Some TombstoneToken\<close> have "rg_entries R' = rg_entries R1"
    using listener_entries by (fastforce simp: storeLoaded_def Let_def split: if_splits prod.splits)
  ultimately show ?thesis by (simp add: rkept_def)
next
  case False
  with v l have "value = None \<or> \<not> cachingEnabled env \<or> value = Some TombstoneToken \<and> localValue \<in> {None, Some InvalidToken}"
    by auto
  with run have "rg_entries R' = rg_entries R"
    using listener_entries by (fastforce simp: storeLoaded_def Let_def split: if_splits prod.splits)
  with inv show ?thesis by (rule rkept_same_entries[rotated])
qed

locale server_link =
  fixes hashcode :: "'k \<Rightarrow> u32" and K :: "'k set"
    and call :: "entry_action option \<Rightarrow> 'k \<Rightarrow> 'v ptr \<Rightarrow> version_tag option \<Rightarrow> ('k, 'v) entries_map \<Rightarrow>
      gf_err \<times> 'v ptr \<times> version_tag option \<times> ('k, 'v) entries_map"
  assumes link: "map_inv hashcode M \<Longrightarrow> call a k v t M = (err, v', t', M') \<Longrightarrow> kept hashcode K M M'"
    and reply: "call a k v t M = (err, v', t', M') \<Longrightarrow> v \<in> {None, Some InvalidToken} \<Longrightarrow>
      v' = None \<or> storable v' \<or> v' = Some TombstoneToken"
begin

lemma remoteUpdate_kept:
  assumes env: "rg_hash env = hashcode" "remote env = call" and inv: "map_inv hashcode (rg_entries R)"
    and run: "remoteUpdate env action key value tag R = Inr (err, tag', response, R')"
  shows "rkept env K R R' \<and> m_destroyPending R' = m_destroyPending R"
proof -
  obtain err1 v1 tag1 M where c: "call (Some action) key value tag (rg_entries R) = (err1, v1, tag1, M)"
    by (cases "call (Some action) key value tag (rg_entries R)")
  have s: "send env action key value tag R = (err1, tag1, err1, set_entries M R)"
    by (simp add: send_def env c)
  from run s have "R' = R \<or> R' = set_entries M R"
    by (auto simp: remoteUpdate_def andThen_Inr_conv split: if_splits option.splits)
  then show ?thesis
    using link[OF inv c] rkept_refl[of env R] inv env by (auto simp: rkept_def)
qed

lemma trackStep_same:
  assumes env: "rg_hash env = hashcode" and inv: "map_inv hashcode (rg_entries R)"
    and run: "trackStep env action key old uc R = Inr (count, old', R')"
  shows "R' = R"
proof -
  from inv have "cem_concurrencyChecksEnabled (rg_entries R)" by (simp add: map_inv_def)
  with run show ?thesis
    by (auto simp: trackStep_def addTrackerForEntry_map_def split: if_splits)
qed

lemma propagate_kept:
  assumes env: "rg_hash env = hashcode" "remote env = call" and inv: "map_inv hashcode (rg_entries R)"
    and v: "value_ok action value" and full: "full_ok env" and k: "key \<in> K"
    and run: "propagate env action key value old uc flags tag None R = Inr (err, old', R')"
  shows "rkept env K R R'"
proof (cases "\<not> isLocal flags \<and> \<not> isNotification flags")
  case True
  with run obtain count old1 R1 where t: "trackStep env action key old uc R = Inr (count, old1, R1)"
    by (auto simp: propagate_def andThen_Inr_conv)
  have R1: "R1 = R" by (rule trackStep_same[OF env(1) inv t])
  note inv' = inv[folded env(1)]
  show ?thesis
  proof (cases "needsTracker env uc \<and> count < 0 \<and> old1 \<noteq> None")
    case True': True
    with True run t R1 have "R' = R" by (simp add: propagate_def)
    with rkept_refl[OF inv'] show ?thesis by simp
  next
    case False
    from run True t False obtain err1 tag1 response R2 where
      r: "remoteUpdate env action key value tag R = Inr (err1, tag1, response, R2)"
      unfolding propagate_def R1 by (auto simp: andThen_Inr_conv)
    note k2 = conjunct1[OF remoteUpdate_kept[OF env inv r]]
    note inv2 = rkept_inv[OF k2]
    show ?thesis
    proof (cases "err1 = GF_NOERR")
      case False': False
      with run True t False r obtain R3 where "dropTracker env key count R2 = Inr R3" "R' = R3"
        unfolding propagate_def R1 by (auto simp: andThen_Inr_conv)
      with dropTracker_kept[OF inv2] k2 show ?thesis by blast
    next
      case True': True
      from run True t False r True' obtain go err3 old3 value3 R3 where
        l: "localStep env action key value old1 flags count tag1 None response True R2 = Inr (go, err3, old3, value3, R3)"
        and f: "listenerStep env action key flags (go, err3, old3, value3, R3) = (err, old', R')"
        unfolding propagate_def R1 by (auto simp: andThen_Inr_conv)
      from localStep_kept[OF inv2 v full k l] listenerStep_entries[OF f] k2
      show ?thesis by (auto simp: rkept_def intro: kept_trans)
    qed
  qed
next
  case False
  with run obtain go err3 old3 value3 R3 where
    l: "localStep env action key value old flags uc tag None GF_ENOENT False R = Inr (go, err3, old3, value3, R3)"
    and f: "listenerStep env action key flags (go, err3, old3, value3, R3) = (err, old', R')"
    by (auto simp: propagate_def andThen_Inr_conv)
  from localStep_kept[OF inv[folded env(1)] v full k l] listenerStep_entries[OF f]
  show ?thesis by (simp add: rkept_def)
qed

lemma updateNoThrow_kept:
  assumes env: "rg_hash env = hashcode" "remote env = call" and inv: "map_inv hashcode (rg_entries R)"
    and v: "value_ok action value" and full: "full_ok env" and k: "key \<in> K"
    and run: "updateNoThrow env action (Some key) value old uc flags tag None R = Inr (err, old', R')"
  shows "rkept env K R R'"
proof -
  note inv' = inv[folded env(1)]
  consider (same) "R' = R"
    | (tx) "inTxUpdate env action key value old flags tag R = Inr (err, old', R')"
    | (veto) ok old1 where "writerStep env action key value old flags R = Inr (ok, old1, R')"
    | (go) ok old1 R1 where "writerStep env action key value old flags R = Inr (ok, old1, R1)"
        "propagate env action key value old1 uc flags tag None R1 = Inr (err, old', R')"
    using run by (auto simp: updateNoThrow_def andThen_Inr_conv split: if_splits)
  then show ?thesis
  proof cases
    case same
    with rkept_refl[OF inv'] show ?thesis by simp
  next
    case tx
    then consider "R' = R" | tag1 response R1 where
      "remoteUpdate env action key value tag R = Inr (err, tag1, response, R1)" "rg_entries R' = rg_entries R1"
      by (auto simp: inTxUpdate_def andThen_Inr_conv split: if_splits)
    then show ?thesis
      using remoteUpdate_kept[OF env inv] rkept_refl[OF inv'] by cases (auto simp: rkept_def)
  next
    case veto
    with writerStep_entries[OF veto] inv' show ?thesis by (simp add: rkept_same_entries)
  next
    case go
    with writerStep_entries[OF go(1)] inv have "map_inv hashcode (rg_entries R1)" by simp
    from propagate_kept[OF env this v full k go(2)] writerStep_entries[OF go(1)] show ?thesis
      by (simp add: rkept_def)
  qed
qed

lemma loadMissing_kept:
  assumes env: "rg_hash env = hashcode" "remote env = call" and inv: "map_inv hashcode (rg_entries R)"
    and full: "full_ok env" and ld: "loader_ok env" and k: "key \<in> K"
    and v: "value \<in> {None, Some InvalidToken}" and l: "localValue \<in> {None, Some InvalidToken} \<or> \<not> cachingEnabled env"
    and run: "loadMissing env key value localValue uc local R = Inr (err, value', R')"
  shows "rkept env K R R'"
proof -
  obtain err1 value1 tag1 M where c: "call None key value None (rg_entries R) = (err1, value1, tag1, M)"
    by (cases "call None key value None (rg_entries R)")
  note k1 = link[OF inv c]
  let ?R1 = "set_entries M R"
  have inv1: "map_inv (rg_hash env) (rg_entries ?R1)" using k1 env(1) by (simp add: kept_def)
  have v1: "value1 = None \<or> storable value1 \<or> value1 = Some TombstoneToken" by (rule reply[OF c v])
  from run c obtain R2 where d: "dropTracker env key uc R2 = Inr R'" and
    or: "R2 = ?R1 \<or> (\<exists>value2 err2 value3 isL. (value2 = value1 \<or> (\<exists>ld. loader env = Some ld \<and> ld key = Some value2)) \<and>
       storeLoaded env key value2 localValue err1 uc tag1 isL local ?R1 = Inr (err2, value3, R2))"
    unfolding loadMissing_def env
    by (auto simp: andThen_Inr_conv Let_def split: if_splits option.splits) blast+
  have "rkept env K ?R1 R2"
    using or
  proof
    assume "R2 = ?R1"
    with inv1 show ?thesis by (simp add: rkept_refl)
  next
    assume "\<exists>value2 err2 value3 isL. (value2 = value1 \<or> (\<exists>ld. loader env = Some ld \<and> ld key = Some value2)) \<and>
       storeLoaded env key value2 localValue err1 uc tag1 isL local ?R1 = Inr (err2, value3, R2)"
    then obtain value2 err2 value3 isL where
      w: "value2 = value1 \<or> (\<exists>ld. loader env = Some ld \<and> ld key = Some value2)" and
      st: "storeLoaded env key value2 localValue err1 uc tag1 isL local ?R1 = Inr (err2, value3, R2)" by blast
    from w v1 ld have "value2 = None \<or> storable value2 \<or> value2 = Some TombstoneToken"
      unfolding loader_ok_def by blast
    from storeLoaded_kept[OF inv1 full k this l st] show ?thesis .
  qed
  moreover have "rkept env K R ?R1" using k1 env(1) by (simp add: rkept_def)
  ultimately show ?thesis using dropTracker_kept[OF rkept_inv d] by (blast intro: rkept_trans)
qed

lemma getNoThrow_kept:
  assumes env: "rg_hash env = hashcode" "remote env = call" and inv: "map_inv hashcode (rg_entries R)"
    and full: "full_ok env" and ld: "loader_ok env" and k: "key \<in> K"
    and run: "getNoThrow env (Some key) None R = Inr (err, value', R')"
  shows "rkept env K R R'"
proof -
  note inv' = inv[folded env(1)]
  have cc: "cem_concurrencyChecksEnabled (rg_entries R)" using inv by (simp add: map_inv_def)
  consider (same) "rg_entries R' = rg_entries R"
    | (tx) err1 value1 tag1 where "call None key None None (rg_entries R) = (err1, value1, tag1, rg_entries R')"
    | (load) found count b where "loadMissing env key None found count b R = Inr (err, value', R')"
        "found \<in> {None, Some InvalidToken} \<or> \<not> cachingEnabled env"
    using run cc unfolding getNoThrow_def env(2)
    by (auto simp: andThen_Inr_conv addTrackerForEntry_map_def Let_def split: if_splits prod.splits)
  then show ?thesis
  proof cases
    case same
    with inv' show ?thesis by (simp add: rkept_same_entries)
  next
    case tx
    from link[OF inv tx] env(1) show ?thesis by (simp add: rkept_def)
  next
    case load
    show ?thesis by (rule loadMissing_kept[OF env inv full ld k _ load(2) load(1)]) simp
  qed
qed

end

text \<open>The operations of a local region keep the contract.\<close>

interpretation local_link: server_link hashcode K local_remote
  by unfold_locales (auto simp: local_remote_def kept_refl storable_def stored_def)

lemma flag_eval [simp]:
  "isLocal LOCAL" "\<not> isLocal NORMAL" "\<not> isNotification LOCAL" "\<not> isNotification NORMAL" "isNotification (NOTIFICATION OR LOCAL)"
  "isLocal (NOTIFICATION OR LOCAL)" "\<not> isNoCallbacks LOCAL" "\<not> isNoCallbacks NORMAL" "\<not> isNoCallbacks (NOTIFICATION OR LOCAL)"
  "\<not> isNotificationUpdate LOCAL" "\<not> isNotificationUpdate NORMAL" "\<not> isNotificationUpdate (NOTIFICATION OR LOCAL)"
  "\<not> invokeCacheWriter (NOTIFICATION OR LOCAL)" "isLocal (LOCAL OR NOCACHEWRITER)" "\<not> isNotification (LOCAL OR NOCACHEWRITER)"
  by (simp_all add: flag_tests flag_defs)

section \<open>What a put stores\<close>

lemma entries_getEntry_lookup:
  assumes "map_inv (rg_hash env) (rg_entries R)"
  shows "entries_getEntry env key R = Inr (lookup_map (rg_hash env) (rg_entries R) key)"
proof -
  obtain x where "get_map (rg_hash env) key (rg_entries R) = Inr x"
    "map_option snd x = lookup_map (rg_hash env) (rg_entries R) key"
    by (rule get_map_lookup[OF assms])
  then show ?thesis by (simp add: entries_getEntry_def)
qed

lemma put_without_tag_succeeds:
  assumes inv: "map_inv hashcode M" and v: "storable v"
    and run: "put_map hashcode env key v uc dt None None M = Inr (r, M')"
  shows "r_err r = GF_NOERR"
proof -
  let ?s = "m_segments M ! segmentIdx hashcode key M"
  note at = segmentFor_inv[OF inv, of key]
  from run at obtain s' where p: "put_seg env (sint (m_numDestroyTrackers M)) key v uc dt None None ?s = Inr (r, s')"
    by (auto simp: put_map_def on_segment_def andThen_Inr_conv)
  then obtain s1 where s1: "check_rehash ?s = Inr s1" by (auto simp: put_seg_def andThen_Inr_conv)
  note inv1 = conc_inv_check_rehash[OF s1 at(3)]
  note conc = conc_inv_D[OF inv1]
  from inv1 show ?thesis
  proof (cases rule: conc_inv_cases[where k = key])
    case absent
    with p s1 conc show ?thesis by (auto simp: put_seg_def putNoEntry_def result_def Let_def split: prod.splits)
  next
    case (live i)
    then have "getValueI i \<noteq> Some TombstoneToken" using getValueI_stored[of i] by (auto simp: storable_def)
    with p s1 live conc show ?thesis
      by (auto simp: put_seg_def Let_def next_stamp_conc putForTrackedEntry_conc[OF conc refl] result_def)
  next
    case (dead i t)
    then have "getValueI i = Some TombstoneToken" by (simp add: getValueI_tomb)
    moreover have "m_concurrencyChecksEnabled (remove_entry key s1)"
      using conc_inv_D[OF conc_inv_remove_entry[OF inv1]] .
    ultimately show ?thesis using p s1 dead conc
      by (auto simp: put_seg_def Let_def next_stamp_conc putNoEntry_def result_def split: prod.splits)
  qed
qed

text \<open>A put of an object into the map of a region, with or without a local region's remote half.\<close>

lemma putLocal_stores:
  assumes inv: "map_inv (rg_hash env) (rg_entries R)" and caching: "cachingEnabled env"
    and run: "putLocal env False key (Some (Obj v)) old uc dt None None R = Inr (err, old', value', R')"
  shows "err = GF_NOERR \<and> map_inv (rg_hash env) (rg_entries R') \<and>
    lookup_map (rg_hash env) (rg_entries R') = (lookup_map (rg_hash env) (rg_entries R))(key \<mapsto> Obj v) \<and>
    value' = Some (Obj v) \<and> m_destroyPending R' = m_destroyPending R \<and> calls R' = calls R"
proof -
  have v: "storable (Some (Obj v))" by (simp add: storable_def)
  from run caching obtain r M where
    p: "put_map (rg_hash env) (rg_seg env) key (Some (Obj v)) uc dt None None (rg_entries R) = Inr (r, M)"
    by (auto simp: putLocal_def entries_put_def andThen_Inr_conv Let_def)
  note ok = put_without_tag_succeeds[OF inv v p]
  from run caching p ok have "R' = set_entries M R" "err = GF_NOERR" "value' = r_newValue r"
    by (simp_all add: putLocal_def entries_put_def Let_def)
  with put_map_refines[OF inv v p] put_newValue[OF p] ok show ?thesis by simp
qed

lemma listener_error:
  "invokeCacheListenerForEntryEvent env key old new flags type local R = (err, old', R') \<Longrightarrow>
   err = GF_NOERR \<or> err = GF_CACHE_LISTENER_EXCEPTION"
  by (auto simp: invokeCacheListenerForEntryEvent_def Let_def split: option.splits entry_event_type.splits if_splits)

text \<open>In a region with concurrency checks there is nothing to track.\<close>

lemma trackStep_conc:
  "ccEnabled env \<Longrightarrow> trackStep env action key old uc R = Inr (uc, old, R) \<and> \<not> needsTracker env uc"
  by (simp add: trackStep_def needsTracker_def)

lemma putAction_stores:
  assumes inv: "map_inv (rg_hash env) (rg_entries R)" and caching: "cachingEnabled env" "ccEnabled env"
    and flags: "flags = NORMAL \<or> flags = LOCAL" and loc: "remote env = local_remote"
    and run: "propagate env PutAction key (Some (Obj v)) old uc flags None None R = Inr (err, old', R')"
  shows "(err = GF_NOERR \<or> err = GF_CACHE_LISTENER_EXCEPTION) \<and> map_inv (rg_hash env) (rg_entries R') \<and>
    lookup_map (rg_hash env) (rg_entries R') = (lookup_map (rg_hash env) (rg_entries R))(key \<mapsto> Obj v) \<and>
    m_destroyPending R' = m_destroyPending R"
proof -
  from flags have nn: "\<not> isNotification flags" "\<not> isNoCallbacks flags" by (auto simp: flag_tests flag_defs)
  have remote: "remoteUpdate env PutAction key (Some (Obj v)) None R = Inr (GF_NOERR, None, GF_NOERR, R)"
    by (simp add: remoteUpdate_def send_def loc local_remote_def)
  obtain response b go err1 old1 value1 R1 where
    l: "localStep env PutAction key (Some (Obj v)) old flags uc None None response b R = Inr (go, err1, old1, value1, R1)"
    and f: "listenerStep env PutAction key flags (go, err1, old1, value1, R1) = (err, old', R')"
    using run nn remote trackStep_conc[OF caching(2), of PutAction key old uc R]
    by (auto simp: propagate_def andThen_Inr_conv split: if_splits)
  from l nn obtain err2 old2 value2 R2 where
    p: "putLocal env False key (Some (Obj v)) old uc 0 None None R = Inr (err2, old2, value2, R2)"
    by (auto simp: localStep_def andThen_Inr_conv)
  note st = putLocal_stores[OF inv caching(1) p]
  with l nn p have "(go, err1, old1, value1, R1) = (True, GF_NOERR, old2, value2, R2)" by (simp add: localStep_def)
  with f nn have "invokeCacheListenerForEntryEvent env key old2 value2 flags AFTER_UPDATE False R2 = (err, old', R')"
    by (simp add: listenerStep_def)
  with listener_error[OF this] listener_entries[OF this] st show ?thesis by auto
qed

text \<open>
  A put into a local region that the writer does not veto is read back by the next get,
  which takes the value from the map.
\<close>

lemma get_hit:
  assumes "map_inv (rg_hash env) (rg_entries R)" "cachingEnabled env" "\<not> inTransaction env" "\<not> m_destroyPending R"
    "lookup_map (rg_hash env) (rg_entries R) key = Some (Obj v)"
  shows "getNoThrow env (Some key) value R = Inr (GF_NOERR, Some (Obj v), R)"
  using assms by (simp add: getNoThrow_def entries_getEntry_lookup)

section \<open>Rejected versions\<close>

text \<open>The map has the key with a version that wins over a tag.\<close>

definition rejected :: "('k, 'v) region_env \<Rightarrow> version_tag option \<Rightarrow> 'k \<Rightarrow> ('k, 'v) entries_map \<Rightarrow> bool" where
  "rejected env tag key M \<longleftrightarrow>
     (case segmentFor (rg_hash env) key M of
        Inl _ \<Rightarrow> False
      | Inr s \<Rightarrow>
          (case al_find (m_map s) key of
             None \<Rightarrow> False
           | Some e \<Rightarrow>
               (case next_stamp (rg_seg env) tag False e s of
                  Inl _ \<Rightarrow> False
                | Inr (err, stamp) \<Rightarrow> err = GF_CACHE_CONCURRENT_MODIFICATION_EXCEPTION)))"

lemma rejectedE:
  assumes "rejected env tag key M" "map_inv (rg_hash env) M"
  obtains s e stamp where "segmentFor (rg_hash env) key M = Inr s" "s = m_segments M ! segmentIdx (rg_hash env) key M"
    "conc_inv s" "al_find (m_map s) key = Some e"
    "next_stamp (rg_seg env) tag False e s = Inr (GF_CACHE_CONCURRENT_MODIFICATION_EXCEPTION, stamp)"
  using assms segmentFor_inv[OF assms(2), of key]
  by (auto simp: rejected_def split: option.splits sum.splits)

lemma same_segment:
  "segmentFor hashcode key M = Inr s \<Longrightarrow> M\<lparr>m_segments := (m_segments M)[segmentIdx hashcode key M := s]\<rparr> = M"
  by (auto simp: segmentFor_def split: if_splits)

lemma rejected_invalidate:
  assumes "rejected env tag key M" "map_inv (rg_hash env) M"
  shows "invalidate_map (rg_hash env) (rg_seg env) key tag M =
    Inr (result GF_CACHE_CONCURRENT_MODIFICATION_EXCEPTION None None None False, M)"
  using assms(2)
  by (rule rejectedE[OF assms(1)])
    (simp add: invalidate_map_def on_segment_def invalidate_seg_def same_segment result_def)

lemma rejected_remove:
  assumes "rejected env tag key M" "map_inv (rg_hash env) M"
  shows "remove_map (rg_hash env) (rg_seg env) key uc tag ar M =
    Inr (result GF_CACHE_CONCURRENT_MODIFICATION_EXCEPTION None None None True, M)"
  using assms(2)
  by (rule rejectedE[OF assms(1)])
    (simp add: remove_map_def on_segment_def remove_seg_def conc_inv_D removeWhenConcurrencyEnabled_def same_segment
      result_def)

lemma next_stamp_rehash:
  "check_rehash s = Inr s1 \<Longrightarrow> next_stamp env tag dc e s1 = next_stamp env tag dc e s"
  using check_rehash_Inr[of s s1] by (simp add: next_stamp_def)

lemma rejected_put:
  assumes rej: "rejected env tag key M" and inv: "map_inv (rg_hash env) M"
    and run: "put_map (rg_hash env) (rg_seg env) key v uc dt tag None M = Inr (r, M')"
  shows "r_err r = GF_CACHE_CONCURRENT_MODIFICATION_EXCEPTION"
proof -
  obtain s e stamp where s: "segmentFor (rg_hash env) key M = Inr s" "al_find (m_map s) key = Some e"
    "next_stamp (rg_seg env) tag False e s = Inr (GF_CACHE_CONCURRENT_MODIFICATION_EXCEPTION, stamp)"
    using inv by (rule rejectedE[OF rej])
  from run s(1) obtain s' where p: "put_seg (rg_seg env) (sint (m_numDestroyTrackers M)) key v uc dt tag None s = Inr (r, s')"
    by (auto simp: put_map_def on_segment_def andThen_Inr_conv)
  then obtain s1 where s1: "check_rehash s = Inr s1" by (auto simp: put_seg_def andThen_Inr_conv)
  with s(2,3) have "al_find (m_map s1) key = Some e"
    "next_stamp (rg_seg env) tag False e s1 = Inr (GF_CACHE_CONCURRENT_MODIFICATION_EXCEPTION, stamp)"
    using check_rehash_Inr[OF s1] next_stamp_rehash[OF s1] by simp_all
  with p s1 show ?thesis by (auto simp: put_seg_def Let_def result_def)
qed

section \<open>Tracked entries\<close>

text \<open>
  A map without concurrency checks, and the slot of a key in it. The lemmas are about slots
  with an entry of the class family; an entry that left it is wrapped.
\<close>

definition tracking_map :: "('k, 'v) entries_map \<Rightarrow> bool" where
  "tracking_map M \<longleftrightarrow>
     \<not> cem_concurrencyChecksEnabled M \<and> 0 < m_concurrency M \<and> length (m_segments M) = m_concurrency M \<and>
     (\<forall>s \<in> set (m_segments M). \<not> m_concurrencyChecksEnabled s)"

definition slot_of :: "('k \<Rightarrow> u32) \<Rightarrow> 'k \<Rightarrow> ('k, 'v) entries_map \<Rightarrow> ('k, 'v) map_entry option" where
  "slot_of hashcode key M = al_find (m_map (m_segments M ! segmentIdx hashcode key M)) key"

definition release :: "('k, 'v) entry_impl \<Rightarrow> ('k, 'v) entry_impl" where
  "release i = getImplPtr (snd (removeTracker (MapEntryT i)))"

lemma release_eq:
  "release i = (if e_trackers i = 0 then i else if e_trackers i = 1 then i\<lparr>e_trackers := 0, e_updates := 0\<rparr>
     else i\<lparr>e_trackers := e_trackers i - 1\<rparr>)"
  by (simp add: release_def)

lemma tracking_segment:
  assumes "tracking_map M"
  shows "segmentIdx hashcode key M < length (m_segments M)"
    "segmentFor hashcode key M = Inr (m_segments M ! segmentIdx hashcode key M)"
    "\<not> m_concurrencyChecksEnabled (m_segments M ! segmentIdx hashcode key M)"
  using assms by (simp_all add: tracking_map_def segmentFor_def segmentIdx_def)

lemma tracking_off: "tracking_map M \<Longrightarrow> \<not> cem_concurrencyChecksEnabled M"
  by (simp add: tracking_map_def)

lemma tracking_update:
  assumes "tracking_map M" "\<not> m_concurrencyChecksEnabled s'"
    and "M' = M\<lparr>m_segments := (m_segments M)[segmentIdx hashcode key M := s']\<rparr>"
  shows "tracking_map M' \<and> slot_of hashcode key M' = al_find (m_map s') key"
proof -
  have "s \<in> set ((m_segments M)[segmentIdx hashcode key M := s']) \<Longrightarrow> s = s' \<or> s \<in> set (m_segments M)" for s
    using set_update_subset_insert[of "m_segments M" "segmentIdx hashcode key M" s'] by blast
  then show ?thesis
    using assms tracking_segment(1)[OF assms(1), of hashcode key]
    by (auto simp: tracking_map_def slot_of_def segmentIdx_def)
qed

lemma tracking_add_size [simp]:
  "tracking_map (add_size d M) = tracking_map M" "slot_of hashcode key (add_size d M) = slot_of hashcode key M"
  by (simp_all add: tracking_map_def slot_of_def segmentIdx_def add_size_def)

text \<open>Starting to track a key that the map does not have.\<close>

lemma track_absent:
  assumes t: "tracking_map M" and slot: "slot_of hashcode key M = None"
    and run: "addTrackerForEntry_map hashcode key True False inc M = Inr (count, old, M')"
  shows "tracking_map M' \<and> count = of_bool inc \<and> old = None \<and>
    (\<exists>i. slot_of hashcode key M' = Some (MapEntryT i) \<and> e_value i = Some DestroyedToken \<and> e_trackers i = 1 \<and>
      e_updates i = of_bool inc)"
proof -
  let ?s = "m_segments M ! segmentIdx hashcode key M"
  note at = tracking_segment[OF t, of hashcode key] tracking_off[OF t]
  from run at obtain s' where
    s': "addTrackerForEntry_seg key True False inc ?s = (count, old, s')"
    "M' = M\<lparr>m_segments := (m_segments M)[segmentIdx hashcode key M := s']\<rparr>"
    by (auto simp: addTrackerForEntry_map_def split: prod.splits)
  have slot': "al_find (m_map ?s) key = None" using slot by (simp add: slot_of_def)
  have e: "\<not> m_concurrencyChecksEnabled s' \<and> count = of_bool inc \<and> old = None \<and>
    (\<exists>i. al_find (m_map s') key = Some (MapEntryT i) \<and> e_value i = Some DestroyedToken \<and> e_trackers i = 1 \<and>
      e_updates i = of_bool inc)"
    using s'(1) at(3) slot'
    by (cases inc) (auto simp: addTrackerForEntry_seg_def newMapEntry_def setValueI_def rebound_def max_defs Let_def)
  with tracking_update[OF t _ s'(2)] show ?thesis by simp
qed

text \<open>Starting to track a key that has an entry with room in its counters.\<close>

lemma track_present:
  assumes t: "tracking_map M" and slot: "slot_of hashcode key M = Some (MapEntryT i)"
    and room: "e_trackers i < GF_TRACK_MAX" "e_updates i < GF_UPDATE_MAX"
    and run: "addTrackerForEntry_map hashcode key True False True M = Inr (count, old, M')"
  shows "tracking_map M' \<and> count = int (e_updates i) + 1 \<and> old = getValueI i \<and>
    slot_of hashcode key M' = Some (MapEntryT (i\<lparr>e_trackers := e_trackers i + 1, e_updates := e_updates i + 1\<rparr>))"
proof -
  let ?s = "m_segments M ! segmentIdx hashcode key M"
  note at = tracking_segment[OF t, of hashcode key] tracking_off[OF t]
  from run at obtain s' where
    s': "addTrackerForEntry_seg key True False True ?s = (count, old, s')"
    "M' = M\<lparr>m_segments := (m_segments M)[segmentIdx hashcode key M := s']\<rparr>"
    by (auto simp: addTrackerForEntry_map_def split: prod.splits)
  have slot': "al_find (m_map ?s) key = Some (MapEntryT i)" using slot by (simp add: slot_of_def)
  have e: "\<not> m_concurrencyChecksEnabled s' \<and> count = int (e_updates i) + 1 \<and> old = getValueI i \<and>
    al_find (m_map s') key = Some (MapEntryT (i\<lparr>e_trackers := e_trackers i + 1, e_updates := e_updates i + 1\<rparr>))"
    using s'(1) at(3) slot' room
    by (auto simp: addTrackerForEntry_seg_def bind_entry_def Let_def)
  with tracking_update[OF t _ s'(2)] show ?thesis by simp
qed

text \<open>A put that tracked the key: it stores its value only when nobody else did.\<close>

lemma put_tracked:
  assumes t: "tracking_map M" and slot: "slot_of hashcode key M = Some (MapEntryT i)" and count: "0 \<le> count"
    and val: "getValueI i \<noteq> None \<or> 1 < e_trackers i \<or> count = int (e_updates i)"
    and live: "getValueI i \<noteq> Some TombstoneToken"
    and run: "put_map hashcode env key (Some (Obj v)) count 0 None None M = Inr (r, M')"
  shows "tracking_map M' \<and> slot_of hashcode key M' =
      Some (MapEntryT (release (if count = int (e_updates i) then i\<lparr>e_value := Some (Obj v)\<rparr> else i))) \<and>
    r_err r = (if count = int (e_updates i) then GF_NOERR else GF_CACHE_ENTRY_UPDATED) \<and> r_newValue r = Some (Obj v)"
proof -
  let ?s = "m_segments M ! segmentIdx hashcode key M"
  note at = tracking_segment[OF t, of hashcode key] tracking_off[OF t]
  from run at obtain s' where p: "put_seg env (sint (m_numDestroyTrackers M)) key (Some (Obj v)) count 0 None None ?s = Inr (r, s')"
    and "\<exists>d. M' = add_size d (M\<lparr>m_segments := (m_segments M)[segmentIdx hashcode key M := s']\<rparr>) \<or>
      M' = M\<lparr>m_segments := (m_segments M)[segmentIdx hashcode key M := s']\<rparr>"
    unfolding put_map_def on_segment_def by (simp add: andThen_Inr_conv split: prod.splits) metis
  then have M': "tracking_map M' = tracking_map (M\<lparr>m_segments := (m_segments M)[segmentIdx hashcode key M := s']\<rparr>) \<and>
      slot_of hashcode key M' = slot_of hashcode key (M\<lparr>m_segments := (m_segments M)[segmentIdx hashcode key M := s']\<rparr>)"
    by auto
  have slot': "al_find (m_map ?s) key = Some (MapEntryT i)" using slot by (simp add: slot_of_def)
  from p obtain s1 where s1: "check_rehash ?s = Inr s1" by (auto simp: put_seg_def andThen_Inr_conv)
  have s1': "al_find (m_map s1) key = Some (MapEntryT i)" "\<not> m_concurrencyChecksEnabled s1"
    using check_rehash_Inr[OF s1] slot' at(3) by simp_all
  let ?i = "if count = int (e_updates i) then i\<lparr>e_value := Some (Obj v)\<rparr> else i"
  have stamp: "next_stamp env None False (MapEntryT i) s1 = Inr (GF_NOERR, new_VersionStamp)"
    using s1'(2) by (simp add: next_stamp_def)
  have rt: "removeTracker_slot key (MapEntryT j) s1 = bind_entry key (MapEntryT (release j)) s1"
    if "getValueI j \<noteq> None \<or> 1 < e_trackers j" for j
    using that s1'(2) by (auto simp: removeTracker_slot_def release_def getValueI_def)
  have pf: "putForTrackedEntry env key (Some (Obj v)) (MapEntryT i) count new_VersionStamp None s1 =
    Inr (if count = int (e_updates i) then GF_NOERR else GF_CACHE_ENTRY_UPDATED, Some (Obj v), ?i,
         bind_entry key (MapEntryT (release ?i)) s1)"
  proof (cases "count = int (e_updates i)")
    case True
    have "getValueI (i\<lparr>e_value := Some (Obj v)\<rparr>) \<noteq> None" by (simp add: getValueI_def)
    with True count s1'(2) rt show ?thesis by (simp add: putForTrackedEntry_def setValueI_def Let_def)
  next
    case False
    with count s1'(2) rt[of i] val show ?thesis by (simp add: putForTrackedEntry_def)
  qed
  have "s' = bind_entry key (MapEntryT (release ?i)) s1 \<and>
      r_err r = (if count = int (e_updates i) then GF_NOERR else GF_CACHE_ENTRY_UPDATED)"
    using p s1 s1'(1) stamp pf live by (auto simp: put_seg_def Let_def result_def split: if_splits)
  moreover have "\<not> m_concurrencyChecksEnabled (bind_entry key (MapEntryT (release ?i)) s1)"
    using s1'(2) by (simp add: bind_entry_def)
  ultimately show ?thesis
    using tracking_update[OF t _ refl, of s' hashcode key] M' put_newValue[OF run] by (auto simp: bind_entry_def)
qed

text \<open>Giving a tracker back.\<close>

lemma untrack:
  assumes t: "tracking_map M" and slot: "slot_of hashcode key M = Some (MapEntryT i)" and val: "getValueI i \<noteq> None"
    and run: "removeTrackerForEntry_map hashcode key M = Inr M'"
  shows "tracking_map M' \<and> slot_of hashcode key M' = Some (MapEntryT (release i))"
proof -
  let ?s = "m_segments M ! segmentIdx hashcode key M"
  note at = tracking_segment[OF t, of hashcode key] tracking_off[OF t]
  have slot': "al_find (m_map ?s) key = Some (MapEntryT i)" using slot by (simp add: slot_of_def)
  have s': "removeTrackerForEntry_seg key ?s = bind_entry key (MapEntryT (release i)) ?s"
    using at(3) slot' val by (auto simp: removeTrackerForEntry_seg_def removeTracker_slot_def release_def getValueI_def)
  from run at have "M' = M\<lparr>m_segments := (m_segments M)[segmentIdx hashcode key M := removeTrackerForEntry_seg key ?s]\<rparr>"
    by (simp add: removeTrackerForEntry_map_def)
  with tracking_update[OF t _ this] at(3) s' show ?thesis by (simp add: bind_entry_def)
qed

lemma tracking_lookup:
  assumes "tracking_map M" "slot_of hashcode key M = Some (MapEntryT i)"
  shows "lookup_map hashcode M key = (if getValueI i = Some TombstoneToken then None else getValueI i)"
  using assms tracking_segment(2)[OF assms(1), of hashcode key]
  by (auto simp: lookup_map_def lookup_seg_def getEntry_seg_def slot_of_def split: option.splits)

lemma release_value [simp]: "e_value (release i) = e_value i" "getValueI (release i) = getValueI i"
  by (simp_all add: release_eq getValueI_def)

lemma getValueI_counts [simp]:
  "getValueI (i\<lparr>e_trackers := a, e_updates := b\<rparr>) = getValueI i" "getValueI (i\<lparr>e_trackers := a\<rparr>) = getValueI i"
  "getValueI (i\<lparr>e_value := Some (Obj v)\<rparr>) = Some (Obj v)"
  by (simp_all add: getValueI_def)

text \<open>The local half of a tracked put, and a whole put to which nobody interferes.\<close>

lemma putLocal_tracked:
  assumes c: "cachingEnabled env" and t: "tracking_map (rg_entries R)"
    and slot: "slot_of (rg_hash env) key (rg_entries R) = Some (MapEntryT i)" and count: "0 \<le> count"
    and val: "getValueI i \<noteq> None \<or> 1 < e_trackers i \<or> count = int (e_updates i)"
    and live: "getValueI i \<noteq> Some TombstoneToken"
    and run: "putLocal env False key (Some (Obj v)) old count 0 None None R = Inr (err, old', value', R')"
  shows "tracking_map (rg_entries R') \<and> slot_of (rg_hash env) key (rg_entries R') =
      Some (MapEntryT (release (if count = int (e_updates i) then i\<lparr>e_value := Some (Obj v)\<rparr> else i))) \<and>
    err = (if count = int (e_updates i) then GF_NOERR else GF_CACHE_ENTRY_UPDATED) \<and> value' = Some (Obj v) \<and>
    m_destroyPending R' = m_destroyPending R \<and> (err \<noteq> GF_NOERR \<longrightarrow> old' = old)"
proof -
  from run c obtain r M where
    p: "put_map (rg_hash env) (rg_seg env) key (Some (Obj v)) count 0 None None (rg_entries R) = Inr (r, M)"
    by (auto simp: putLocal_def entries_put_def andThen_Inr_conv Let_def)
  note e = put_tracked[OF t slot count val live p]
  then have "r_err r \<noteq> GF_INVALID_DELTA" by simp
  with run c p have "R' = set_entries M R" "err = r_err r" "value' = r_newValue r"
    "old' = old_after_put (slot_value (rg_hash env) key (rg_entries R)) r old"
    by (simp_all add: putLocal_def entries_put_def Let_def)
  with e show ?thesis by (simp add: old_after_put_def)
qed

lemma localStep_tracked:
  assumes c: "cachingEnabled env" and f: "\<not> isNotification flags" and t: "tracking_map (rg_entries R)"
    and slot: "slot_of (rg_hash env) key (rg_entries R) = Some (MapEntryT i)" and count: "0 \<le> count"
    and val: "getValueI i \<noteq> None \<or> 1 < e_trackers i \<or> count = int (e_updates i)"
    and live: "getValueI i \<noteq> Some TombstoneToken"
    and run: "localStep env PutAction key (Some (Obj v)) old flags count None None response b R = Inr (go, err, old', value', R')"
  shows "tracking_map (rg_entries R') \<and> slot_of (rg_hash env) key (rg_entries R') =
      Some (MapEntryT (release (if count = int (e_updates i) then i\<lparr>e_value := Some (Obj v)\<rparr> else i))) \<and>
    m_destroyPending R' = m_destroyPending R"
proof -
  from run f obtain err1 old1 value1 R1 where
    p: "putLocal env False key (Some (Obj v)) old count 0 None None R = Inr (err1, old1, value1, R1)"
    by (auto simp: localStep_def andThen_Inr_conv)
  note e = putLocal_tracked[OF c t slot count val live p]
  from run f p e have "R' = R1" by (auto simp: localStep_def split: if_splits)
  with e show ?thesis by simp
qed

lemma put_undisturbed:
  assumes env: "cachingEnabled env" "\<not> ccEnabled env" "\<not> inTransaction env" "writer env = None" "remote env = local_remote"
    and R: "\<not> m_destroyPending R" and t: "tracking_map (rg_entries R)"
    and slot: "slot_of (rg_hash env) key (rg_entries R) = Some (MapEntryT i)"
    and room: "e_trackers i < GF_TRACK_MAX" "e_updates i < GF_UPDATE_MAX" and live: "getValueI i \<noteq> Some TombstoneToken"
    and run: "putNoThrow env (Some key) (Some (Obj v)) None (-1) NORMAL None None R = Inr (err, old', R')"
  shows "tracking_map (rg_entries R') \<and> slot_of (rg_hash env) key (rg_entries R') =
    Some (MapEntryT (release (i\<lparr>e_trackers := e_trackers i + 1, e_updates := e_updates i + 1, e_value := Some (Obj v)\<rparr>)))"
proof -
  from run env R obtain count old M where
    a: "addTrackerForEntry_map (rg_hash env) key True False True (rg_entries R) = Inr (count, old, M)"
    by (auto simp: putNoThrow_def updateNoThrow_def checkArgs_def writerStep_def propagate_def trackStep_def
        s_addIfAbsent_def s_failIfPresent_def andThen_Inr_conv)
  note tr = track_present[OF t slot room a]
  let ?R1 = "set_entries M R"
  have rem: "remoteUpdate env PutAction key (Some (Obj v)) None ?R1 = Inr (GF_NOERR, None, GF_NOERR, ?R1)"
    using env by (simp add: remoteUpdate_def send_def local_remote_def)
  from run env R a tr rem obtain go err1 old1 value1 R2 where
    l: "localStep env PutAction key (Some (Obj v)) old NORMAL count None None GF_NOERR True ?R1 = Inr (go, err1, old1, value1, R2)"
    and f: "listenerStep env PutAction key NORMAL (go, err1, old1, value1, R2) = (err, old', R')"
    by (auto simp: putNoThrow_def updateNoThrow_def checkArgs_def writerStep_def propagate_def trackStep_def
        s_addIfAbsent_def s_failIfPresent_def andThen_Inr_conv)
  have count: "0 \<le> count" "count = int (e_updates i + 1)" using tr by simp_all
  from localStep_tracked[OF env(1) _ _ _ count(1) _ _ l, where i = "i\<lparr>e_trackers := e_trackers i + 1, e_updates := e_updates i + 1\<rparr>"]
  have "tracking_map (rg_entries R2) \<and> slot_of (rg_hash env) key (rg_entries R2) =
      Some (MapEntryT (release (i\<lparr>e_trackers := e_trackers i + 1, e_updates := e_updates i + 1, e_value := Some (Obj v)\<rparr>)))"
    using tr live count(2) by simp
  with listenerStep_entries[OF f] show ?thesis by simp
qed

text \<open>The end of a get whose entry is tracked with the count 0.\<close>

lemma loadMissing_tracked:
  assumes env: "cachingEnabled env" "\<not> ccEnabled env"
    and reply: "remote env None key None None (rg_entries R) = (GF_NOERR, Some (Obj v), None, M)"
    and t: "tracking_map M" and slot: "slot_of (rg_hash env) key M = Some (MapEntryT i)"
    and live: "getValueI i \<noteq> None" "getValueI i \<noteq> Some TombstoneToken"
    and run: "loadMissing env key None None 0 b R = Inr (err, value', R')"
  shows "lookup_map (rg_hash env) (rg_entries R') key = (if e_updates i = 0 then Some (Obj v) else getValueI i)"
proof -
  let ?R1 = "set_entries M R"
  from run reply obtain R2 err2 value2 where
    st: "storeLoaded env key (Some (Obj v)) None GF_NOERR 0 None False b ?R1 = Inr (err2, value2, R2)"
    and d: "dropTracker env key 0 R2 = Inr R'"
    by (auto simp: loadMissing_def isDead_def andThen_Inr_conv Let_def split: if_splits)
  from st env obtain err1 old1 value1 R1 where
    p: "putLocal env False key (Some (Obj v)) None 0 0 None None ?R1 = Inr (err1, old1, value1, R1)"
    by (auto simp: storeLoaded_def andThen_Inr_conv Let_def)
  have e: "tracking_map (rg_entries R1) \<and> slot_of (rg_hash env) key (rg_entries R1) =
      Some (MapEntryT (release (if (0::int) = int (e_updates i) then i\<lparr>e_value := Some (Obj v)\<rparr> else i)))"
    using putLocal_tracked[OF env(1) _ _ _ _ _ p, of i] t slot live by simp
  from st env p have R2: "rg_entries R2 = rg_entries R1"
    using listener_entries by (fastforce simp: storeLoaded_def Let_def split: if_splits prod.splits)
  let ?j = "release (if (0::int) = int (e_updates i) then i\<lparr>e_value := Some (Obj v)\<rparr> else i)"
  have j: "getValueI ?j = (if e_updates i = 0 then Some (Obj v) else getValueI i)" by (simp add: getValueI_def)
  from d env obtain M' where M': "removeTrackerForEntry_map (rg_hash env) key (rg_entries R1) = Inr M'" "rg_entries R' = M'"
    by (auto simp: dropTracker_def andThen_Inr_conv R2)
  have "getValueI ?j \<noteq> None" "getValueI ?j \<noteq> Some TombstoneToken" using j live by simp_all
  with untrack[OF conjunct1[OF e] conjunct2[OF e] _ M'(1)] tracking_lookup[of M' "rg_hash env" key "release ?j"] M'(2) j
  show ?thesis by simp
qed

text \<open>A get of a key that is not in the map: it waits for the server with the key tracked.\<close>

lemma getNoThrow_miss:
  assumes env: "cachingEnabled env" "\<not> ccEnabled env" "\<not> inTransaction env" and R: "\<not> m_destroyPending R"
    and t: "tracking_map (rg_entries R)" and slot: "slot_of (rg_hash env) key (rg_entries R) = None"
    and a: "addTrackerForEntry_map (rg_hash env) key True False False (rg_entries R) = Inr (count, old, M)"
  shows "getNoThrow env (Some key) None R = loadMissing env key None None 0 False (set_entries M R)"
proof -
  have "entries_getEntry env key R = Inr None"
    using slot tracking_segment(2)[OF t, of "rg_hash env" key]
    by (simp add: entries_getEntry_def get_map_def getEntry_seg_def slot_of_def)
  moreover have "count = 0 \<and> old = None" using track_absent[OF t slot a] by simp
  ultimately show ?thesis using env R a by (simp add: getNoThrow_def)
qed

text \<open>A putAll of one key to which nobody interferes gives its tracker back twice.\<close>

lemma putAll_undisturbed:
  assumes env: "cachingEnabled env" "\<not> ccEnabled env" "\<not> inTransaction env" "writer env = None" "\<not> singleHop env"
      "remotePutAll env = (\<lambda>m M. (GF_NOERR, None, M))"
    and R: "\<not> m_destroyPending R" and t: "tracking_map (rg_entries R)"
    and slot: "slot_of (rg_hash env) key (rg_entries R) = Some (MapEntryT i)"
    and room: "e_trackers i < GF_TRACK_MAX" "e_updates i < GF_UPDATE_MAX" and live: "getValueI i \<noteq> Some TombstoneToken"
    and run: "putAllNoThrow env [(key, Some (Obj v))] R = Inr (err, R')"
  shows "tracking_map (rg_entries R') \<and> slot_of (rg_hash env) key (rg_entries R') =
    Some (MapEntryT (release (release
      (i\<lparr>e_trackers := e_trackers i + 1, e_updates := e_updates i + 1, e_value := Some (Obj v)\<rparr>))))"
proof -
  from run env R obtain count old M where
    a: "addTrackerForEntry_map (rg_hash env) key True False True (rg_entries R) = Inr (count, old, M)"
    by (auto simp: putAllNoThrow_def andThen_Inr_conv)
  note tr = track_present[OF t slot room a]
  let ?R1 = "set_entries M R"
  have prep: "putAllPrepare env [(key, Some (Obj v))] None [] R = Inr (GF_NOERR, [(key, old, count)], ?R1)"
    using env a by (simp add: al_emplace_def)
  from run env R prep obtain err1 ovm R2 where
    pl: "putAllLocal env [(key, Some (Some (Obj v)))] None 0 None GF_NOERR [(key, old, count)] ?R1 = Inr (err1, ovm, R2)"
    and rt: "removeTracking env ovm R2 = Inr R'"
    by (auto simp: putAllNoThrow_def putAllKeys_def andThen_Inr_conv Let_def
        simp del: putAllPrepare.simps putAllLocal.simps)
  from pl obtain lerr old2 R3 where
    p: "putNoThrow env (Some key) (Some (Obj v)) old count (LOCAL OR NOCACHEWRITER) None None ?R1 = Inr (lerr, old2, R3)"
    and R2: "R2 = R3" "ovm = [(key, old2, count)]"
    by (auto simp: tag_at_def oldValueMap_at_def al_find_def al_emplace_def andThen_Inr_conv Let_def split: if_splits)
  from p env R obtain go err4 old4 value4 R4 where
    l: "localStep env PutAction key (Some (Obj v)) old (LOCAL OR NOCACHEWRITER) count None None GF_ENOENT False ?R1 =
      Inr (go, err4, old4, value4, R4)"
    and f: "listenerStep env PutAction key (LOCAL OR NOCACHEWRITER) (go, err4, old4, value4, R4) = (lerr, old2, R3)"
    by (auto simp: putNoThrow_def updateNoThrow_def checkArgs_def writerStep_def propagate_def andThen_Inr_conv)
  have count: "0 \<le> count" "count = int (e_updates i + 1)" using tr by simp_all
  let ?i = "i\<lparr>e_trackers := e_trackers i + 1, e_updates := e_updates i + 1, e_value := Some (Obj v)\<rparr>"
  from localStep_tracked[OF env(1) _ _ _ count(1) _ _ l, where i = "i\<lparr>e_trackers := e_trackers i + 1, e_updates := e_updates i + 1\<rparr>"]
  have e: "tracking_map (rg_entries R4)" "slot_of (rg_hash env) key (rg_entries R4) = Some (MapEntryT (release ?i))"
    using tr live count(2) by simp_all
  from rt R2 env count(1) obtain M' where
    d: "removeTrackerForEntry_map (rg_hash env) key (rg_entries R4) = Inr M'" "rg_entries R' = M'"
    using listenerStep_entries[OF f] by (auto simp: dropTracker_def andThen_Inr_conv)
  have "getValueI (release ?i) \<noteq> None" by simp
  from untrack[OF e this d(1)] d(2) show ?thesis by simp
qed

text \<open>Tracking changes no value of the map.\<close>

lemma lookup_slot_update:
  assumes seg: "segmentFor hashcode key M = Inr s" and M': "M' = M\<lparr>m_segments := (m_segments M)[segmentIdx hashcode key M := s']\<rparr>"
    and eq: "\<And>k. lookup_seg k s' = lookup_seg k s"
  shows "lookup_map hashcode M' = lookup_map hashcode M"
proof
  fix k
  show "lookup_map hashcode M' k = lookup_map hashcode M k"
    using seg eq[of k] by (cases "segmentIdx hashcode k M = segmentIdx hashcode key M")
      (auto simp: lookup_map_def segmentFor_def segmentIdx_def M' split: if_splits)
qed

definition slot_lookup :: "('k, 'v) map_entry option \<Rightarrow> 'v ptr" where
  "slot_lookup e = (case e of None \<Rightarrow> None | Some x \<Rightarrow>
     (if getValueI (getImplPtr x) = Some TombstoneToken then None else getValueI (getImplPtr x)))"

lemma lookup_seg_slot: "lookup_seg k s = slot_lookup (al_find (m_map s) k)"
  by (auto simp: lookup_seg_def getEntry_seg_def slot_lookup_def split: option.splits)

lemma removeTracker_value: "e_value (getImplPtr (snd (removeTracker e))) = e_value (getImplPtr e)"
  by (cases e) (simp_all add: Let_def)

lemma untrack_lookup:
  assumes "removeTrackerForEntry_map hashcode key M = Inr M'"
  shows "lookup_map hashcode M' = lookup_map hashcode M"
proof (cases "cem_concurrencyChecksEnabled M")
  case True
  with assms show ?thesis by (simp add: removeTrackerForEntry_map_def)
next
  case False
  with assms obtain s where s: "segmentFor hashcode key M = Inr s"
    "M' = M\<lparr>m_segments := (m_segments M)[segmentIdx hashcode key M := removeTrackerForEntry_seg key s]\<rparr>"
    by (auto simp: removeTrackerForEntry_map_def andThen_Inr_conv)
  have "lookup_seg k (removeTrackerForEntry_seg key s) = lookup_seg k s" for k
  proof (cases "k = key \<and> \<not> m_concurrencyChecksEnabled s")
    case True
    then show ?thesis
    proof (cases "al_find (m_map s) key")
      case (Some e)
      obtain rep n e1 where rt: "removeTracker e = ((rep, n), e1)" by (metis prod.collapse)
      with removeTracker_value[of e] have "getValueI (getImplPtr e1) = getValueI (getImplPtr e)" by (simp add: getValueI_def)
      with True Some rt show ?thesis
        by (simp add: removeTrackerForEntry_seg_def removeTracker_slot_def bind_entry_def lookup_seg_slot slot_lookup_def)
    qed (simp add: removeTrackerForEntry_seg_def)
  next
    case False
    then show ?thesis
      by (auto simp: removeTrackerForEntry_seg_def removeTracker_slot_def bind_entry_def lookup_seg_slot Let_def
          split: option.splits prod.splits)
  qed
  with lookup_slot_update[OF s] show ?thesis by blast
qed

lemma incrementUpdateCount_value:
  "incrementUpdateCount e = (c, e', n) \<Longrightarrow> e_value (getImplPtr e') = e_value (getImplPtr e) \<and>
   (\<forall>x. n = Some x \<longrightarrow> e_value (getImplPtr x) = e_value (getImplPtr e))"
  by (cases e) (auto split: if_splits)

lemma addTracker_value:
  "addTracker e = (c, e', n) \<Longrightarrow> e_value (getImplPtr e') = e_value (getImplPtr e) \<and>
   (\<forall>x. n = Some x \<longrightarrow> e_value (getImplPtr x) = e_value (getImplPtr e))"
  by (cases e) (auto split: if_splits)

lemma addTrackerForEntry_seg_slot:
  assumes run: "addTrackerForEntry_seg key True False True s = (count, old, s')" and cc: "\<not> m_concurrencyChecksEnabled s"
  shows "slot_lookup (al_find (m_map s') k) = slot_lookup (al_find (m_map s) k)"
proof (cases "al_find (m_map s) key")
  case None
  let ?e = "\<lparr>e_id = seg_next s, e_key = key, e_value = Some DestroyedToken, e_stamp = new_VersionStamp, e_trackers = 1,
    e_updates = 1\<rparr>"
  from None cc have "addTrackerForEntry_seg key True False True s =
      (1, None, s\<lparr>seg_next := seg_next s + 1, m_map := al_emplace key (MapEntryT ?e) (m_map s)\<rparr>)"
    by (simp add: addTrackerForEntry_seg_def newMapEntry_def setValueI_def max_defs)
  with run have "m_map s' = al_emplace key (MapEntryT ?e) (m_map s)" by auto
  with None show ?thesis by (simp add: slot_lookup_def getValueI_def)
next
  case (Some e)
  obtain c1 e1 n1 where a: "addTracker e = (c1, e1, n1)" by (cases "addTracker e")
  obtain c2 e2 n2 where b: "incrementUpdateCount e1 = (c2, e2, n2)" by (cases "incrementUpdateCount e1")
  let ?x = "case n2 of Some n \<Rightarrow> n | None \<Rightarrow> (case n1 of Some n \<Rightarrow> update_impl (\<lambda>_. getImplPtr e2) n | None \<Rightarrow> e2)"
  have e1: "e_value (getImplPtr e1) = e_value (getImplPtr e)" using addTracker_value[OF a] by blast
  have e2: "e_value (getImplPtr e2) = e_value (getImplPtr e)" using incrementUpdateCount_value[OF b] e1 by metis
  have n2: "e_value (getImplPtr n) = e_value (getImplPtr e)" if "n2 = Some n" for n
    using incrementUpdateCount_value[OF b] e1 that by metis
  have "e_value (getImplPtr ?x) = e_value (getImplPtr e)"
  proof (cases n2)
    case None
    with e2 show ?thesis by (cases n1) simp_all
  next
    case (Some n)
    with n2[OF Some] show ?thesis by simp
  qed
  then have same: "getValueI (getImplPtr ?x) = getValueI (getImplPtr e)" unfolding getValueI_def by simp
  from Some cc a b have "addTrackerForEntry_seg key True False True s = (c2, getValueI (getImplPtr e), bind_entry key ?x s)"
    by (simp add: addTrackerForEntry_seg_def)
  with run have "s' = bind_entry key ?x s" by simp
  with Some same show ?thesis by (simp add: bind_entry_def slot_lookup_def)
qed

lemma track_lookup:
  assumes "addTrackerForEntry_map hashcode key True False True M = Inr (count, old, M')"
  shows "lookup_map hashcode M' = lookup_map hashcode M"
proof (cases "cem_concurrencyChecksEnabled M")
  case True
  with assms show ?thesis by (simp add: addTrackerForEntry_map_def)
next
  case False
  with assms obtain s where s: "segmentFor hashcode key M = Inr s"
    by (auto simp: addTrackerForEntry_map_def andThen_Inr_conv)
  obtain c0 old0 s' where s0: "addTrackerForEntry_seg key True False True s = (c0, old0, s')"
    by (cases "addTrackerForEntry_seg key True False True s")
  with assms False s have s': "addTrackerForEntry_seg key True False True s = (count, old, s')"
    and M': "M' = M\<lparr>m_segments := (m_segments M)[segmentIdx hashcode key M := s']\<rparr>"
    by (simp_all add: addTrackerForEntry_map_def)
  have "lookup_seg k s' = lookup_seg k s" for k
  proof (cases "m_concurrencyChecksEnabled s")
    case True
    with s' show ?thesis by (simp add: addTrackerForEntry_seg_def)
  next
    case False
    from addTrackerForEntry_seg_slot[OF s' False] show ?thesis by (simp add: lookup_seg_slot)
  qed
  with lookup_slot_update[OF s M'] show ?thesis by blast
qed

text \<open>An entry with sound counters gives its tracker a count that is not negative.\<close>

lemma tracker_count:
  assumes "entry_inv e" "addTracker e = (c1, e1, n1)" "incrementUpdateCount e1 = (c2, e2, n2)"
  shows "0 \<le> c2"
  using assms by (cases e) (auto split: if_splits)

lemma track_count:
  assumes run: "addTrackerForEntry_map hashcode key True False True M = Inr (count, old, M')"
    and sound: "\<And>e. slot_of hashcode key M = Some e \<Longrightarrow> entry_inv e"
  shows "0 \<le> count \<or> old = None"
proof (cases "cem_concurrencyChecksEnabled M")
  case True
  with run show ?thesis by (simp add: addTrackerForEntry_map_def)
next
  case False
  with run obtain s where s: "segmentFor hashcode key M = Inr s"
    by (auto simp: addTrackerForEntry_map_def andThen_Inr_conv)
  then have slot: "slot_of hashcode key M = al_find (m_map s) key"
    by (auto simp: segmentFor_def slot_of_def split: if_splits)
  obtain c0 old0 s' where s0: "addTrackerForEntry_seg key True False True s = (c0, old0, s')"
    by (cases "addTrackerForEntry_seg key True False True s")
  with run False s have c0: "c0 = count" "old0 = old" by (simp_all add: addTrackerForEntry_map_def)
  show ?thesis
  proof (cases "m_concurrencyChecksEnabled s \<or> al_find (m_map s) key = None")
    case True
    with s0 c0 show ?thesis
      by (cases "m_concurrencyChecksEnabled s") (auto simp: addTrackerForEntry_seg_def newMapEntry_def Let_def split: prod.splits)
  next
    case False
    then obtain e where e: "al_find (m_map s) key = Some e" by auto
    obtain c1 e1 n1 where a: "addTracker e = (c1, e1, n1)" by (cases "addTracker e")
    obtain c2 e2 n2 where b: "incrementUpdateCount e1 = (c2, e2, n2)" by (cases "incrementUpdateCount e1")
    have "c0 = c2" using s0 False e a b by (simp add: addTrackerForEntry_seg_def)
    with tracker_count[OF _ a b] sound slot e c0 show ?thesis by simp
  qed
qed

section \<open>Examples\<close>

text \<open>A local region over the small map, with a listener that accepts every call.\<close>

definition small_renv :: "(nat, nat) region_env" where
  "small_renv = \<lparr>rg_hash = of_nat, rg_seg = small_env, cachingEnabled = True, ccEnabled = True, inTransaction = False,
     plainLocalRegion = True, haRegion = False, isDurableClient = False, writer = None, listener = Some (\<lambda>_. True), loader = None,
     remote = local_remote, fullObject = local_fullObject, remotePutAll = (\<lambda>_ M. (GF_NOERR, None, M)),
     remoteRemoveAll = (\<lambda>_ M. (GF_NOERR, None, M)), remoteGetAll = (\<lambda>_ _ M. (GF_NOERR, [], M)),
     remoteDestroyRegion = GF_NOERR, remoteInvalidateRegion = GF_NOERR, singleHop = False,
     valueClass = (\<lambda>_. InternalClass), valueBytes = (\<lambda>_. []), pdxEqual = (=)\<rparr>"

definition small_region :: "(nat, nat) entries_map \<Rightarrow> (nat, nat) region" where
  "small_region M = \<lparr>rg_entries = M, m_destroyPending = False, m_released = False, txDirty = False, m_processedMarker = False, calls = []\<rparr>"

lemma small_renv_sel [simp]:
  "rg_hash small_renv = of_nat" "rg_seg small_renv = small_env" "cachingEnabled small_renv" "ccEnabled small_renv"
  "\<not> inTransaction small_renv" "getProcessedMarker small_renv R" "writer small_renv = None"
  "listener small_renv = Some (\<lambda>_. True)" "loader small_renv = None" "remote small_renv = local_remote"
  "fullObject small_renv = local_fullObject"
  by (simp_all add: small_renv_def getProcessedMarker_def)

lemma small_region_sel [simp]:
  "rg_entries (small_region M) = M" "\<not> m_destroyPending (small_region M)" "calls (small_region M) = []"
  "set_entries M' (small_region M) = small_region M'"
  by (simp_all add: small_region_def set_entries_def)

lemma small_renv_ok: "full_ok small_renv" "loader_ok small_renv"
  by (auto simp: full_ok_def loader_ok_def small_renv_def local_fullObject_def)

text \<open>The small map with the value 7 under the key 1 in version 5, and the tags of versions 3 and 5.\<close>

definition small_tag :: "u32 \<Rightarrow> version_tag" where
  "small_tag v = new_VersionTag v 0 1 1 0"

definition small_map_v :: "(nat, nat) entries_map" where
  "small_map_v = small_map\<lparr>m_segments := [small_segment, small_segment\<lparr>m_map :=
     [(1, MapEntryT (small_entry\<lparr>e_stamp := setVersions (small_tag 5) new_VersionStamp\<rparr>))], seg_next := 1\<rparr>], m_size := 1\<rparr>"

lemma small_put_v:
  "put_map of_nat small_env 1 (Some (Obj 7)) (-1) 0 (Some (small_tag 5)) None small_map =
   Inr (result GF_NOERR (Some (small_entry\<lparr>e_stamp := setVersions (small_tag 5) new_VersionStamp\<rparr>)) None (Some (Obj 7)) False,
     small_map_v)"
  by (simp add: put_map_def on_segment_def segmentFor_def segmentIdx_def small_map_def put_seg_def check_rehash_def
      getPrime_def g_primeTable_def small_segment_def putNoEntry_def newMapEntry_def setValueI_def small_entry_def
      small_map_v_def result_def add_size_def al_emplace_def Let_def)

lemma small_put0:
  "put_map of_nat small_env 1 (Some (Obj 7)) (-1) 0 None None small_map =
   Inr (result GF_NOERR (Some small_entry) None (Some (Obj 7)) False, small_map1)"
  by (simp add: put_map_def on_segment_def segmentFor_def segmentIdx_def small_map_def put_seg_def check_rehash_def
      getPrime_def g_primeTable_def small_segment_def putNoEntry_def newMapEntry_def setValueI_def small_entry_def
      small_map1_def result_def add_size_def al_emplace_def Let_def)

lemma small_put_run:
  "updateNoThrow small_renv PutAction (Some 1) (Some (Obj 7)) None (-1) LOCAL None None (small_region small_map) =
   Inr (GF_NOERR, None, log_call (EntryCall AfterCreate 1 None (Some (Obj 7))) (small_region small_map1))"
proof -
  have slot: "slot_value of_nat 1 small_map = None"
    by (simp add: slot_value_def segmentFor_def segmentIdx_def small_map_def small_segment_def)
  have "putLocal small_renv False 1 (Some (Obj 7)) None (-1) 0 None None (small_region small_map) =
      Inr (GF_NOERR, None, Some (Obj 7), small_region small_map1)"
    using small_put0 slot
    by (simp add: putLocal_def entries_put_def small_renv_def small_region_def set_entries_def result_def old_after_put_def)
  then show ?thesis
    by (simp add: updateNoThrow_def checkArgs_def writerStep_def propagate_def localStep_def listenerStep_def
        invokeCacheListenerForEntryEvent_def Let_def)
qed

lemma map_inv_small:
  "map_inv of_nat small_map" "map_inv of_nat small_map1" "map_inv of_nat small_map_v"
proof -
  show "map_inv of_nat small_map" using reachable_inv[OF reachable_small_map[of of_nat small_env]] by simp
  then show "map_inv of_nat small_map_v" using put_map_refines(1)[OF _ _ small_put_v] by (simp add: storable_def)
  show "map_inv of_nat small_map1" using reachable_inv[OF reachable_small_map1] by simp
qed

lemma small_conflict:
  "checkForConflict members (small_tag 3) False (setVersions (small_tag 5) new_VersionStamp) =
   Inr GF_CACHE_CONCURRENT_MODIFICATION_EXCEPTION"
proof -
  have "getEntryVersion (setVersions (small_tag 5) new_VersionStamp) = 5"
    by (simp add: getEntryVersion_def setVersions_def small_tag_def new_VersionTag_def new_VersionStamp_def)
  moreover have "m_memberID (setVersions (small_tag 5) new_VersionStamp) = 1"
    by (simp add: setVersions_def small_tag_def new_VersionTag_def)
  ultimately show ?thesis
    by (simp add: checkForConflict_def adjust_rollover_def small_tag_def new_VersionTag_def)
qed

lemma small_rejected:
  "rejected small_renv (Some (small_tag 3)) 1 small_map_v"
  "rejected (small_renv\<lparr>remote := f\<rparr>) (Some (small_tag 3)) 1 small_map_v"
  using small_conflict
  by (simp_all add: rejected_def segmentFor_def segmentIdx_def small_map_v_def small_map_def al_find_def
      next_stamp_def small_segment_def processVersionTag_def)

lemma small_put_rejected:
  "put_map of_nat small_env 1 (Some (Obj 8)) (-1) 0 (Some (small_tag 3)) None small_map_v =
   Inr (result GF_CACHE_CONCURRENT_MODIFICATION_EXCEPTION None None (Some (Obj 8)) False, small_map_v)"
  using small_conflict
  by (simp add: put_map_def on_segment_def segmentFor_def segmentIdx_def small_map_v_def small_map_def put_seg_def
      check_rehash_def getPrime_def g_primeTable_def small_segment_def al_find_def next_stamp_def processVersionTag_def
      result_def Let_def)

text \<open>The small map without concurrency checks, with one entry under the key 1 or none.\<close>

definition tseg :: "(nat, nat) segment" where
  "tseg = small_segment\<lparr>m_concurrencyChecksEnabled := False\<rparr>"

definition tentry :: "nat \<Rightarrow> nat \<Rightarrow> nat cacheable \<Rightarrow> (nat, nat) entry_impl" where
  "tentry t u v = \<lparr>e_id = 0, e_key = 1, e_value = Some v, e_stamp = new_VersionStamp, e_trackers = t, e_updates = u\<rparr>"

definition tmap0 :: "(nat, nat) entries_map" where
  "tmap0 = small_map\<lparr>cem_concurrencyChecksEnabled := False, m_segments := [tseg, tseg]\<rparr>"

definition tmap :: "u32 \<Rightarrow> (nat, nat) entry_impl \<Rightarrow> (nat, nat) entries_map" where
  "tmap n e = tmap0\<lparr>m_segments := [tseg, tseg\<lparr>m_map := [(1, MapEntryT e)], seg_next := 1\<rparr>], m_size := n\<rparr>"

lemmas tmap_eval = tmap_def tmap0_def tseg_def tentry_def small_map_def small_segment_def segmentFor_def segmentIdx_def
  al_find_def max_defs

lemma tmap_tracking: "tracking_map tmap0" "slot_of of_nat 1 tmap0 = None"
  by (simp_all add: tracking_map_def slot_of_def tmap_eval)

lemma tmap_track:
  "addTrackerForEntry_map of_nat 1 True False False tmap0 = Inr (0, None, tmap 0 (tentry 1 0 DestroyedToken))"
  "addTrackerForEntry_map of_nat 1 True False True (tmap 0 (tentry 1 0 DestroyedToken)) =
   Inr (1, None, tmap 0 (tentry 2 1 DestroyedToken))"
  by (simp_all add: addTrackerForEntry_map_def addTrackerForEntry_seg_def tmap_eval newMapEntry_def setValueI_def
      rebound_def al_emplace_def getValueI_def bind_entry_def)

lemma tmap_put:
  "put_map of_nat small_env 1 (Some (Obj 8)) 1 0 None None (tmap 0 (tentry 2 1 DestroyedToken)) =
   Inr (result GF_NOERR (Some (tentry 2 1 (Obj 8))) None (Some (Obj 8)) False, tmap 1 (tentry 1 1 (Obj 8)))"
  "put_map of_nat small_env 1 (Some (Obj 7)) 0 0 None None (tmap 1 (tentry 1 1 (Obj 8))) =
   Inr (result GF_CACHE_ENTRY_UPDATED None None (Some (Obj 7)) False, tmap 1 (tentry 0 0 (Obj 8)))"
  "put_map of_nat small_env 1 (Some (Obj 7)) 0 0 None None (tmap 1 (tentry 0 0 (Obj 8))) =
   Inr (result GF_NOERR (Some (tentry 0 0 (Obj 7))) (Some (Obj 8)) (Some (Obj 7)) True, tmap 1 (tentry 0 0 (Obj 7)))"
  by (simp_all add: put_map_def on_segment_def put_seg_def check_rehash_def getPrime_def g_primeTable_def tmap_eval
      next_stamp_def putForTrackedEntry_def removeTracker_slot_def setValueI_def getValueI_def bind_entry_def
      result_def add_size_def Let_def)

lemma tmap_untrack:
  "removeTrackerForEntry_map of_nat 1 (tmap 1 (tentry 1 1 (Obj 8))) = Inr (tmap 1 (tentry 0 0 (Obj 8)))"
  "removeTrackerForEntry_map of_nat 1 (tmap 1 (tentry 0 0 (Obj v))) = Inr (tmap 1 (tentry 0 0 (Obj v)))"
  by (simp_all add: removeTrackerForEntry_map_def removeTrackerForEntry_seg_def removeTracker_slot_def tmap_eval
      bind_entry_def getValueI_def Let_def)

text \<open>
  A region over it without callbacks, whose server answers a get with the value 7 and
  meanwhile the map given becomes the entry map.
\<close>

definition trenv :: "(nat, nat) entries_map \<Rightarrow> (nat, nat) region_env" where
  "trenv M = small_renv\<lparr>ccEnabled := False, listener := None, remote := (\<lambda>_ _ _ _ _. (GF_NOERR, Some (Obj 7), None, M))\<rparr>"

lemma trenv_put:
  "putNoThrow ((trenv M)\<lparr>remote := local_remote\<rparr>) (Some 1) (Some (Obj 8)) None (-1) NORMAL None None
     (small_region (tmap 0 (tentry 1 0 DestroyedToken))) =
   Inr (GF_NOERR, None, small_region (tmap 1 (tentry 1 1 (Obj 8))))"
proof -
  have "slot_value of_nat 1 (tmap 0 (tentry 2 1 DestroyedToken)) = Some None"
    by (simp add: slot_value_def tmap_eval getValueI_def)
  then show ?thesis
    using tmap_track(2) tmap_put(1)
    by (simp add: trenv_def putNoThrow_def updateNoThrow_def checkArgs_def writerStep_def propagate_def trackStep_def
        needsTracker_def s_addIfAbsent_def s_failIfPresent_def remoteUpdate_def send_def local_remote_def localStep_def
        putLocal_def entries_put_def old_after_put_def result_def listenerStep_def invokeCacheListenerForEntryEvent_def
        Let_def)
qed

lemma trenv_putAll:
  "putAllNoThrow (trenv M) [(1, Some (Obj 8))] (small_region (tmap 0 (tentry 1 0 DestroyedToken))) =
   Inr (GF_NOERR, small_region (tmap 1 (tentry 0 0 (Obj 8))))"
proof -
  have "slot_value of_nat 1 (tmap 0 (tentry 2 1 DestroyedToken)) = Some None"
    by (simp add: slot_value_def tmap_eval getValueI_def)
  then have p: "putNoThrow (trenv M) (Some 1) (Some (Obj 8)) None 1 (LOCAL OR NOCACHEWRITER) None None
      (small_region (tmap 0 (tentry 2 1 DestroyedToken))) = Inr (GF_NOERR, None, small_region (tmap 1 (tentry 1 1 (Obj 8))))"
    using tmap_put(1)
    by (simp add: trenv_def putNoThrow_def updateNoThrow_def checkArgs_def writerStep_def propagate_def localStep_def
        putLocal_def entries_put_def old_after_put_def result_def listenerStep_def invokeCacheListenerForEntryEvent_def
        Let_def)
  have env: "cachingEnabled (trenv M)" "\<not> ccEnabled (trenv M)" "writer (trenv M) = None" "\<not> inTransaction (trenv M)"
    "rg_hash (trenv M) = of_nat" "\<not> singleHop (trenv M)" "remotePutAll (trenv M) = (\<lambda>_ M. (GF_NOERR, None, M))"
    by (simp_all add: trenv_def) (simp_all add: small_renv_def)
  have prep: "putAllPrepare (trenv M) [(1, Some (Obj 8))] None [] (small_region (tmap 0 (tentry 1 0 DestroyedToken))) =
      Inr (GF_NOERR, [(1, None, 1)], small_region (tmap 0 (tentry 2 1 DestroyedToken)))"
    using tmap_track(2) env by (simp add: al_emplace_def)
  have loc: "putAllLocal (trenv M) [(1, Some (Some (Obj 8)))] None 0 None GF_NOERR [(1, None, 1)]
      (small_region (tmap 0 (tentry 2 1 DestroyedToken))) =
      Inr (GF_NOERR, [(1, None, 1)], small_region (tmap 1 (tentry 1 1 (Obj 8))))"
    using p by (simp add: tag_at_def oldValueMap_at_def al_find_def al_emplace_def)
  have "removeTracking (trenv M) [(1, None, 1)] (small_region (tmap 1 (tentry 1 1 (Obj 8)))) =
      Inr (small_region (tmap 1 (tentry 0 0 (Obj 8))))"
    using tmap_untrack(1) env by (simp add: dropTracker_def)
  with prep loc env show ?thesis
    by (simp add: putAllNoThrow_def putAllKeys_def Let_def del: putAllPrepare.simps putAllLocal.simps removeTracking.simps)
qed

text \<open>The get in each of the two histories.\<close>

lemma trenv_get:
  "\<exists>R'. getNoThrow (trenv (tmap 1 (tentry 1 1 (Obj 8)))) (Some 1) None (small_region tmap0) = Inr (GF_NOERR, Some (Obj 7), R')"
  "\<exists>R'. getNoThrow (trenv (tmap 1 (tentry 0 0 (Obj 8)))) (Some 1) None (small_region tmap0) = Inr (GF_NOERR, Some (Obj 7), R')"
proof -
  have v: "slot_value of_nat 1 (tmap 1 (tentry t u (Obj 8))) = Some (Some (Obj 8))" for t u
    by (simp add: slot_value_def tmap_eval getValueI_def)
  have m: "getNoThrow (trenv M) (Some 1) None (small_region tmap0) =
      loadMissing (trenv M) 1 None None 0 False (small_region (tmap 0 (tentry 1 0 DestroyedToken)))" for M
    using getNoThrow_miss[of "trenv M" "small_region tmap0" 1 0 None] tmap_tracking tmap_track(1) by (simp add: trenv_def)
  show "\<exists>R'. getNoThrow (trenv (tmap 1 (tentry 1 1 (Obj 8)))) (Some 1) None (small_region tmap0) = Inr (GF_NOERR, Some (Obj 7), R')"
    unfolding m using tmap_put(2) tmap_untrack(2)[of 8] v
    by (simp add: loadMissing_def storeLoaded_def trenv_def putLocal_def entries_put_def old_after_put_def result_def
        isDead_def invokeCacheListenerForEntryEvent_def dropTracker_def Let_def)
  show "\<exists>R'. getNoThrow (trenv (tmap 1 (tentry 0 0 (Obj 8)))) (Some 1) None (small_region tmap0) = Inr (GF_NOERR, Some (Obj 7), R')"
    unfolding m using tmap_put(3) tmap_untrack(2)[of 7] v
    by (simp add: loadMissing_def storeLoaded_def trenv_def putLocal_def entries_put_def old_after_put_def result_def
        isDead_def invokeCacheListenerForEntryEvent_def dropTracker_def Let_def)
qed

section \<open>Properties\<close>

text \<open>
  C3. Whatever a server answers and other threads do to the keys they may touch while a region waits
  for it, an update of an entry by any of the six actions and a get leave the region's entry map
  consistent, and change no key but their own and those the others may touch.
\<close>

theorem region_keeps_cache:
  assumes "server_link (rg_hash env) K (remote env)" "map_inv (rg_hash env) (rg_entries R)"
    and "full_ok env" "loader_ok env" "key \<in> K" "value_ok action value"
  shows "(updateNoThrow env action (Some key) value old uc flags tag None R = Inr (err, old', R') \<longrightarrow>
      kept (rg_hash env) K (rg_entries R) (rg_entries R')) \<and>
    (getNoThrow env (Some key) None R = Inr (err, old', R') \<longrightarrow>
      kept (rg_hash env) K (rg_entries R) (rg_entries R'))"
  using server_link.updateNoThrow_kept[OF assms(1) refl refl assms(2,6,3,5), of old uc flags tag err old' R']
    server_link.getNoThrow_kept[OF assms(1) refl refl assms(2,3,4,5), of err old' R']
  by (simp add: rkept_def)

theorem region_keeps_cache_witness:
  "\<exists>err old' R'. updateNoThrow small_renv PutAction (Some 1) (Some (Obj 7)) None (-1) LOCAL None None (small_region small_map) =
     Inr (err, old', R') \<and> kept of_nat {1} small_map (rg_entries R')"
proof -
  note run = small_put_run
  have link: "server_link (rg_hash small_renv) {1} (remote small_renv)"
    by (simp add: local_link.server_link_axioms)
  have "kept (rg_hash small_renv) {1} (rg_entries (small_region small_map))
      (rg_entries (log_call (EntryCall AfterCreate 1 None (Some (Obj 7))) (small_region small_map1)))"
    by (rule conjunct1[OF region_keeps_cache[OF link _ small_renv_ok], THEN mp, OF _ _ _ run])
      (simp_all add: map_inv_small value_ok_def storable_def)
  then show ?thesis using run by auto
qed

text \<open>
  C10. A put of an object into a local region with a local copy of its entries either is
  vetoed by the cache writer, and then the map is as before, or reports at most a failing
  listener, and then the next get returns the object from the map and no other key changed.
\<close>

theorem put_is_read_back:
  assumes "map_inv (rg_hash env) (rg_entries R)" "cachingEnabled env" "ccEnabled env" "\<not> inTransaction env"
    "\<not> m_destroyPending R" "remote env = local_remote" "flags = NORMAL \<or> flags = LOCAL"
    and "putNoThrow env (Some key) (Some (Obj v)) old (-1) flags None None R = Inr (err, old', R')"
  shows "if err = GF_CACHEWRITER_ERROR then rg_entries R' = rg_entries R
    else (err = GF_NOERR \<or> err = GF_CACHE_LISTENER_EXCEPTION) \<and>
      getNoThrow env (Some key) None R' = Inr (GF_NOERR, Some (Obj v), R') \<and>
      (\<forall>k. k \<noteq> key \<longrightarrow> lookup_map (rg_hash env) (rg_entries R') k = lookup_map (rg_hash env) (rg_entries R) k)"
proof -
  from assms(4,5,8) obtain ok old1 R1 where
    w: "writerStep env PutAction key (Some (Obj v)) old flags R = Inr (ok, old1, R1)"
    by (auto simp: putNoThrow_def updateNoThrow_def checkArgs_def andThen_Inr_conv)
  note R1 = writerStep_entries[OF w]
  show ?thesis
  proof (cases ok)
    case False
    with assms(4,5,8) w have "err = GF_CACHEWRITER_ERROR" "R' = R1"
      by (simp_all add: putNoThrow_def updateNoThrow_def checkArgs_def)
    with R1 show ?thesis by simp
  next
    case True
    with assms(4,5,8) w have p: "propagate env PutAction key (Some (Obj v)) old1 (-1) flags None None R1 = Inr (err, old', R')"
      by (simp add: putNoThrow_def updateNoThrow_def checkArgs_def)
    have inv1: "map_inv (rg_hash env) (rg_entries R1)" using assms(1) R1 by simp
    note st = putAction_stores[OF inv1 assms(2,3,7,6) p]
    then have "getNoThrow env (Some key) None R' = Inr (GF_NOERR, Some (Obj v), R')"
      using assms(2,4,5) R1 by (intro get_hit) simp_all
    with st R1 show ?thesis by auto
  qed
qed

theorem put_is_read_back_witness:
  "getNoThrow small_renv (Some 1) None
     (log_call (EntryCall AfterCreate 1 None (Some (Obj 7))) (small_region small_map1)) =
   Inr (GF_NOERR, Some (Obj 7), log_call (EntryCall AfterCreate 1 None (Some (Obj 7))) (small_region small_map1))"
  using put_is_read_back[of small_renv "small_region small_map" LOCAL 1 7 None] small_put_run map_inv_small(1)
  by (simp add: putNoThrow_def)

text \<open>
  C14. When the reply of a server to a put arrives after an update with a higher version, the
  put succeeds, the value of the later update stays and the listener is not called. The map
  the other threads leave is any consistent one that has the key with a version that wins over the tag of
  the reply.
\<close>

theorem overtaken_put_is_dropped:
  assumes "cachingEnabled env" "ccEnabled env" "\<not> inTransaction env" "\<not> m_destroyPending R" "writer env = None"
    and "remote env (Some PutAction) key (Some v) None (rg_entries R) = (GF_NOERR, reply, tag, M)"
    and "map_inv (rg_hash env) M" "rejected env tag key M" "storable (Some v)"
    and "putNoThrow env (Some key) (Some v) None (-1) NORMAL None None R = Inr (err, old', R')"
  shows "err = GF_NOERR \<and> lookup_map (rg_hash env) (rg_entries R') = lookup_map (rg_hash env) M \<and> calls R' = calls R"
proof -
  let ?R1 = "set_entries M R"
  have rem: "remoteUpdate env PutAction key (Some v) None R = Inr (GF_NOERR, tag, GF_NOERR, ?R1)"
    using assms(6) by (simp add: remoteUpdate_def send_def)
  from assms(10) obtain go err1 old1 value1 R1 where
    l: "localStep env PutAction key (Some v) None NORMAL (-1) tag None GF_NOERR True ?R1 = Inr (go, err1, old1, value1, R1)"
    and f: "listenerStep env PutAction key NORMAL (go, err1, old1, value1, R1) = (err, old', R')"
    using assms(3-5) rem trackStep_conc[OF assms(2), of PutAction key None "-1" R]
    by (auto simp: putNoThrow_def updateNoThrow_def checkArgs_def writerStep_def propagate_def andThen_Inr_conv)
  from l assms(1) obtain r M1 where
    p: "put_map (rg_hash env) (rg_seg env) key (Some v) (-1) 0 tag None M = Inr (r, M1)"
    by (auto simp: localStep_def putLocal_def entries_put_def andThen_Inr_conv Let_def)
  note rej = rejected_put[OF assms(8,7) p]
  from l assms(1) p rej have "(go, err1, R1) = (False, GF_NOERR, set_entries M1 R)"
    by (simp add: localStep_def putLocal_def entries_put_def Let_def)
  with f put_map_refines(3)[OF assms(7,9) p] rej show ?thesis by (auto simp: listenerStep_def)
qed

definition late_renv :: "(nat, nat) region_env" where
  "late_renv = small_renv\<lparr>remote := (\<lambda>_ _ _ _ _. (GF_NOERR, None, Some (small_tag 3), small_map_v))\<rparr>"

theorem overtaken_put_is_dropped_witness:
  "\<exists>old' R'. putNoThrow late_renv (Some 1) (Some (Obj 8)) None (-1) NORMAL None None (small_region small_map) =
     Inr (GF_NOERR, old', R') \<and> lookup_map of_nat (rg_entries R') = lookup_map of_nat small_map_v \<and> calls R' = []"
proof -
  have run: "putNoThrow late_renv (Some 1) (Some (Obj 8)) None (-1) NORMAL None None (small_region small_map) =
      Inr (GF_NOERR, None, small_region small_map_v)"
    using small_put_rejected
    by (simp add: putNoThrow_def updateNoThrow_def checkArgs_def writerStep_def propagate_def trackStep_def needsTracker_def
        remoteUpdate_def send_def localStep_def putLocal_def entries_put_def listenerStep_def late_renv_def result_def
        old_after_put_def Let_def)
  with overtaken_put_is_dropped[of late_renv "small_region small_map" 1 "Obj 8" None "Some (small_tag 3)" small_map_v
      GF_NOERR None "small_region small_map_v"]
  show ?thesis
    using map_inv_small(3) small_rejected by (simp add: late_renv_def storable_def)
qed

text \<open>
  C33. A destroy or an invalidate that a notification brings with a version that the map's entry wins over
  leaves the map as it is, but the listener is told all the same that the entry was
  destroyed or invalidated.
\<close>

theorem rejected_notification_reaches_listener:
  assumes "cachingEnabled env" "getProcessedMarker env R" "\<not> inTransaction env" "\<not> m_destroyPending R"
    and "listener env = Some l" "map_inv (rg_hash env) (rg_entries R)" "rejected env tag key (rg_entries R)"
    and "action = DestroyAction \<and> method = AfterDestroy \<or> action = InvalidateAction \<and> method = AfterInvalidate"
  shows "updateNoThrow env action (Some key) None None (-1) (NOTIFICATION OR LOCAL) tag None R =
    Inr (if l (EntryCall method key None None) then GF_NOERR else GF_CACHE_LISTENER_EXCEPTION, None,
         R\<lparr>calls := calls R @ [EntryCall method key None None]\<rparr>)"
proof -
  have "localStep env action key None None (NOTIFICATION OR LOCAL) (-1) tag None GF_ENOENT False R = Inr (True, GF_NOERR, None, None, R)"
    using assms rejected_invalidate[OF assms(7,6)] rejected_remove[OF assms(7,6)]
    by (auto simp: localStep_def removeLocal_def invalidateLocal_def result_def old_after_remove_def Let_def)
  then show ?thesis
    using assms
    by (auto simp: updateNoThrow_def checkArgs_def writerStep_def propagate_def listenerStep_def
        invokeCacheListenerForEntryEvent_def log_call_def Let_def)
qed

theorem rejected_notification_reaches_listener_witness:
  "updateNoThrow small_renv InvalidateAction (Some 1) None None (-1) (NOTIFICATION OR LOCAL) (Some (small_tag 3)) None
     (small_region small_map_v) =
   Inr (GF_NOERR, None, (small_region small_map_v)\<lparr>calls := [EntryCall AfterInvalidate 1 None None]\<rparr>)"
  using rejected_notification_reaches_listener[of small_renv "small_region small_map_v" "\<lambda>_. True" "Some (small_tag 3)" 1
      InvalidateAction AfterInvalidate] map_inv_small(3) small_rejected(1)
  by simp

text \<open>
  C13. In a region without concurrency checks the tracking of entries protects a put from a
  slow get: when a put of the same key completes while a get waits for the value a server
  had before, the local copy keeps the value of the put.
\<close>

theorem newer_put_survives_get:
  assumes "cachingEnabled env" "\<not> ccEnabled env" "\<not> inTransaction env" "writer env = None" "\<not> m_destroyPending R"
    and "tracking_map (rg_entries R)" "slot_of (rg_hash env) key (rg_entries R) = None"
    and "addTrackerForEntry_map (rg_hash env) key True False False (rg_entries R) = Inr (c, x, M1)"
    and "putNoThrow (env\<lparr>remote := local_remote\<rparr>) (Some key) (Some (Obj w)) None (-1) NORMAL None None (set_entries M1 R) =
      Inr (err1, old1, R1)"
    and "remote env None key None None M1 = (GF_NOERR, Some (Obj v), None, rg_entries R1)"
    and "getNoThrow env (Some key) None R = Inr (err, value', R')"
  shows "lookup_map (rg_hash env) (rg_entries R') key = Some (Obj w)"
proof -
  obtain i where i: "tracking_map M1" "slot_of (rg_hash env) key M1 = Some (MapEntryT i)" "e_value i = Some DestroyedToken"
    "e_trackers i = 1" "e_updates i = 0"
    using track_absent[OF assms(6,7,8)] by auto
  let ?i = "i\<lparr>e_trackers := e_trackers i + 1, e_updates := e_updates i + 1, e_value := Some (Obj w)\<rparr>"
  have p: "tracking_map (rg_entries R1) \<and> slot_of (rg_hash env) key (rg_entries R1) = Some (MapEntryT (release ?i))"
    using put_undisturbed[OF _ _ _ _ _ _ _ _ _ _ _ assms(9), of i] assms(1-5) i by (simp add: max_defs getValueI_def)
  have "loadMissing env key None None 0 False (set_entries M1 R) = Inr (err, value', R')"
    using getNoThrow_miss[OF assms(1-3,5-8)] assms(11) by simp
  from loadMissing_tracked[OF assms(1,2) _ conjunct1[OF p] conjunct2[OF p] _ _ this, of v] assms(10) i(4,5)
  show ?thesis by (simp add: release_eq)
qed

theorem newer_put_survives_get_witness:
  "\<exists>R'. getNoThrow (trenv (tmap 1 (tentry 1 1 (Obj 8)))) (Some 1) None (small_region tmap0) = Inr (GF_NOERR, Some (Obj 7), R') \<and>
     lookup_map of_nat (rg_entries R') 1 = Some (Obj 8)"
proof -
  let ?env = "trenv (tmap 1 (tentry 1 1 (Obj 8)))"
  obtain R' where g: "getNoThrow ?env (Some 1) None (small_region tmap0) = Inr (GF_NOERR, Some (Obj 7), R')"
    using trenv_get(1) by blast
  have "lookup_map (rg_hash ?env) (rg_entries R') 1 = Some (Obj 8)"
    by (rule newer_put_survives_get[OF _ _ _ _ _ _ _ _ _ _ g, of 0 None "tmap 0 (tentry 1 0 DestroyedToken)" 8 GF_NOERR None
          "small_region (tmap 1 (tentry 1 1 (Obj 8)))" 7])
      (use tmap_tracking tmap_track(1) trenv_put in \<open>simp_all add: trenv_def\<close>)
  with g show ?thesis by (auto simp: trenv_def)
qed

text \<open>
  C32. A putAll defeats the same protection, since it gives the tracker of every key back twice:
  when a putAll of the key completes while a get waits for the value a server had before,
  the old value replaces that of the putAll in the local copy.
\<close>

theorem newer_putAll_lost_to_get:
  assumes "cachingEnabled env" "\<not> ccEnabled env" "\<not> inTransaction env" "writer env = None" "\<not> singleHop env"
    "\<not> m_destroyPending R"
    and "tracking_map (rg_entries R)" "slot_of (rg_hash env) key (rg_entries R) = None"
    and "addTrackerForEntry_map (rg_hash env) key True False False (rg_entries R) = Inr (c, x, M1)"
    and "remotePutAll env = (\<lambda>m M. (GF_NOERR, None, M))"
    and "putAllNoThrow env [(key, Some (Obj w))] (set_entries M1 R) = Inr (err1, R1)"
    and "remote env None key None None M1 = (GF_NOERR, Some (Obj v), None, rg_entries R1)"
    and "getNoThrow env (Some key) None R = Inr (err, value', R')"
  shows "lookup_map (rg_hash env) (rg_entries R1) key = Some (Obj w) \<and>
    lookup_map (rg_hash env) (rg_entries R') key = Some (Obj v)"
proof -
  obtain i where i: "tracking_map M1" "slot_of (rg_hash env) key M1 = Some (MapEntryT i)" "e_value i = Some DestroyedToken"
    "e_trackers i = 1" "e_updates i = 0"
    using track_absent[OF assms(7,8,9)] by auto
  let ?i = "i\<lparr>e_trackers := e_trackers i + 1, e_updates := e_updates i + 1, e_value := Some (Obj w)\<rparr>"
  have p: "tracking_map (rg_entries R1) \<and> slot_of (rg_hash env) key (rg_entries R1) = Some (MapEntryT (release (release ?i)))"
    using putAll_undisturbed[OF assms(1-5,10) _ _ _ _ _ _ assms(11), of i] assms(6) i by (simp add: max_defs getValueI_def)
  have "loadMissing env key None None 0 False (set_entries M1 R) = Inr (err, value', R')"
    using getNoThrow_miss[OF assms(1-3,6-9)] assms(13) by simp
  from loadMissing_tracked[OF assms(1,2) _ conjunct1[OF p] conjunct2[OF p] _ _ this, of v] assms(12) i(4,5)
    tracking_lookup[OF conjunct1[OF p] conjunct2[OF p]]
  show ?thesis by (simp add: release_eq)
qed

theorem newer_putAll_lost_to_get_witness:
  "\<exists>R1 R'. putAllNoThrow (trenv (tmap 1 (tentry 0 0 (Obj 8)))) [(1, Some (Obj 8))]
       (small_region (tmap 0 (tentry 1 0 DestroyedToken))) = Inr (GF_NOERR, R1) \<and>
     getNoThrow (trenv (tmap 1 (tentry 0 0 (Obj 8)))) (Some 1) None (small_region tmap0) = Inr (GF_NOERR, Some (Obj 7), R') \<and>
     lookup_map of_nat (rg_entries R1) 1 = Some (Obj 8) \<and> lookup_map of_nat (rg_entries R') 1 = Some (Obj 7)"
proof -
  let ?env = "trenv (tmap 1 (tentry 0 0 (Obj 8)))" and ?R1 = "small_region (tmap 1 (tentry 0 0 (Obj 8)))"
  obtain R' where g: "getNoThrow ?env (Some 1) None (small_region tmap0) = Inr (GF_NOERR, Some (Obj 7), R')"
    using trenv_get(2) by blast
  have "lookup_map (rg_hash ?env) (rg_entries ?R1) 1 = Some (Obj 8) \<and> lookup_map (rg_hash ?env) (rg_entries R') 1 = Some (Obj 7)"
    by (rule newer_putAll_lost_to_get[OF _ _ _ _ _ _ _ _ _ _ _ _ g, of 0 None "tmap 0 (tentry 1 0 DestroyedToken)" 8 GF_NOERR
          ?R1 7])
      (use tmap_tracking tmap_track(1) trenv_putAll in \<open>simp_all add: trenv_def\<close>, simp_all add: small_renv_def)
  with g trenv_putAll[of "tmap 1 (tentry 0 0 (Obj 8))"] show ?thesis by (auto simp: trenv_def)
qed

text \<open>
  C28. When the server refuses a put or a destroy, the operation returns the server's error, no
  listener is called, and every key has the value it had when the server answered, with or
  without concurrency checks: the trackers of the operation are gone from what lookups see.
\<close>

theorem refused_update_keeps_copy:
  assumes "action = PutAction \<and> value \<noteq> None \<or> action = DestroyAction" "\<not> inTransaction env" "\<not> m_destroyPending R"
    "writer env = None"
    and "remote env = (\<lambda>a k v t M. (e, v, t, after M))" "e \<noteq> GF_NOERR"
    and "\<And>x. slot_of (rg_hash env) key (rg_entries R) = Some x \<Longrightarrow> entry_inv x"
    and "updateNoThrow env action (Some key) value None (-1) NORMAL tag None R = Inr (err, old', R')"
  shows "err = e \<and> calls R' = calls R \<and>
    (\<exists>M. lookup_map (rg_hash env) M = lookup_map (rg_hash env) (rg_entries R) \<and>
         lookup_map (rg_hash env) (rg_entries R') = lookup_map (rg_hash env) (after M))"
proof -
  have act: "action \<noteq> CreateAction" "action \<noteq> RemoveAction" "checkArgs action (Some key) value None = GF_NOERR"
    using assms(1) by (auto simp: checkArgs_def)
  with assms(2-4,8) have p: "propagate env action key value None (-1) NORMAL tag None R = Inr (err, old', R')"
    by (simp add: updateNoThrow_def writerStep_def)
  then obtain count old R1 where t: "trackStep env action key None (-1) R = Inr (count, old, R1)"
    by (auto simp: propagate_def andThen_Inr_conv)
  have R1: "lookup_map (rg_hash env) (rg_entries R1) = lookup_map (rg_hash env) (rg_entries R)" "calls R1 = calls R"
    using t track_lookup act(1)
    by (fastforce simp: trackStep_def s_addIfAbsent_def s_failIfPresent_def andThen_Inr_conv split: if_splits)+
  have n: "\<not> (needsTracker env (-1) \<and> count < 0 \<and> old \<noteq> None)"
    using t track_count[OF _ assms(7)] act(1)
    by (fastforce simp: needsTracker_def trackStep_def s_addIfAbsent_def s_failIfPresent_def andThen_Inr_conv)
  have rem: "remoteUpdate env action key value tag R1 = Inr (e, tag, e, set_entries (after (rg_entries R1)) R1)"
    using assms(5) act(2) by (simp add: remoteUpdate_def send_def)
  from p t n rem assms(6) obtain R3 where
    d: "dropTracker env key count (set_entries (after (rg_entries R1)) R1) = Inr R3" "R' = R3" "err = e"
    by (auto simp: propagate_def andThen_Inr_conv)
  have "lookup_map (rg_hash env) (rg_entries R3) = lookup_map (rg_hash env) (after (rg_entries R1))" "calls R3 = calls R1"
    using d(1) untrack_lookup by (fastforce simp: dropTracker_def andThen_Inr_conv split: if_splits)+
  with d R1 show ?thesis by auto
qed

theorem refused_update_keeps_copy_witness:
  "\<exists>old' R'. updateNoThrow (small_renv\<lparr>remote := (\<lambda>a k v t M. (GF_NOTCON, v, t, M))\<rparr>) PutAction (Some 1) (Some (Obj 8)) None (-1)
       NORMAL None None (small_region small_map1) = Inr (GF_NOTCON, old', R') \<and>
     lookup_map of_nat (rg_entries R') = lookup_map of_nat small_map1 \<and> calls R' = []"
proof -
  let ?env = "small_renv\<lparr>remote := (\<lambda>a k v t M. (GF_NOTCON, v, t, M))\<rparr>"
  have run: "updateNoThrow ?env PutAction (Some 1) (Some (Obj 8)) None (-1) NORMAL None None (small_region small_map1) =
      Inr (GF_NOTCON, None, small_region small_map1)"
    by (simp add: updateNoThrow_def checkArgs_def writerStep_def propagate_def trackStep_def needsTracker_def remoteUpdate_def
        send_def dropTracker_def)
  have sound: "entry_inv x" if "slot_of (rg_hash ?env) 1 (rg_entries (small_region small_map1)) = Some x" for x
    using that by (auto simp: slot_of_def segmentIdx_def small_map1_def small_map_def al_find_def small_entry_def)
  from refused_update_keeps_copy[of PutAction "Some (Obj 8)" ?env "small_region small_map1" GF_NOTCON "\<lambda>M. M", OF _ _ _ _ _ _ sound run]
  show ?thesis using run by auto
qed

text \<open>
  With concurrency checks a putAll presents every key to the cache writer as a create, with no old value,
  whether the map has the key or not, until the writer vetoes one.
\<close>

lemma putAll_shows_creates:
  assumes "ccEnabled env" "writer env = Some w" "putAllPrepare env m None ovm R = Inr (err, ovm', R')"
  shows "\<exists>n \<le> length m. calls R' = calls R @ map (\<lambda>(k, v). EntryCall BeforeCreate k None v) (take n m) \<and>
    (err = GF_NOERR \<longrightarrow> n = length m) \<and> rg_entries R' = rg_entries R"
  using assms(3)
proof (induction m arbitrary: R)
  case Nil
  then show ?case by simp
next
  case (Cons p m)
  obtain k v where p: "p = (k, v)" by (cases p)
  let ?R = "log_call (EntryCall BeforeCreate k None v) R"
  have call: "invokeCacheWriterForEntryEvent env k None v BEFORE_UPDATE R = (w (EntryCall BeforeCreate k None v), None, ?R)"
    using assms(2) by (simp add: invokeCacheWriterForEntryEvent_def)
  show ?case
  proof (cases "w (EntryCall BeforeCreate k None v)")
    case True
    with Cons.prems assms(1,2) call have "putAllPrepare env m None ovm ?R = Inr (err, ovm', R')" by (simp add: p)
    from Cons.IH[OF this] obtain n where n: "n \<le> length m" "calls R' = calls ?R @ map (\<lambda>(k, v). EntryCall BeforeCreate k None v) (take n m)"
      "err = GF_NOERR \<longrightarrow> n = length m" "rg_entries R' = rg_entries ?R" by blast
    then show ?thesis by (intro exI[of _ "Suc n"]) (simp add: p)
  next
    case False
    with Cons.prems assms(1,2) call have "R' = ?R" "err = GF_CACHEWRITER_ERROR" by (simp_all add: p)
    then show ?thesis by (intro exI[of _ 1]) (simp add: p)
  qed
qed

end
