(* ===== verification/Region_Tree.thy ===== *)
theory Region_Tree
  imports Region_Cache
begin

text \<open>
  Regions and their subregions (\<open>LocalRegion.cpp\<close>): finding a subregion by its path,
  creating one, listing them, and destroying or invalidating a region with all below it.
  A node has the region's environment, its state and its table of subregions.
\<close>

section \<open>The tree\<close>

datatype ('k, 'v) region_tree =
  RegionNode (rt_env: "('k, 'v) region_env") (rt_region: "('k, 'v) region")
    (rt_subs: "(string \<times> ('k, 'v) region_tree) list")

definition findSubRegion :: "string \<Rightarrow> ('k, 'v) region_tree \<Rightarrow> ('k, 'v) region_tree option" where
  "findSubRegion name t = al_find (rt_subs t) name"

function getSubregion :: "string \<Rightarrow> ('k, 'v) region_tree \<Rightarrow> gf_exn + ('k, 'v) region_tree option" where
  "getSubregion path t =
     (if m_destroyPending (rt_region t) then Inl RegionDestroyedException
      else if path = ''/'' \<or> path = [] then Inl IllegalArgumentException
      else
        let fullname = (if take 1 path = ''/'' then drop 1 path else path);
            stepname = takeWhile (\<lambda>c. c \<noteq> CHR ''/'') fullname
        in case findSubRegion stepname t of
             None \<Rightarrow> Inr None
           | Some region \<Rightarrow>
               if stepname = fullname then Inr (Some region)
               else getSubregion (drop (length stepname + 1) fullname) region)"
  by pat_completeness auto
termination by (relation "measure (\<lambda>(path, t). length path)") (auto simp: neq_Nil_conv)

declare getSubregion.simps [simp del]

text \<open>
  Creating a subregion. \<open>created\<close> is the region that the cache makes for the attributes
  given, if it makes one.
\<close>

definition createSubregion ::
  "string \<Rightarrow> ('k, 'v) region_tree option \<Rightarrow> ('k, 'v) region_tree \<Rightarrow> gf_exn + ('k, 'v) region_tree" where
  "createSubregion name created t =
     (if m_destroyPending (rt_region t) then Inl RegionDestroyedException
      else if CHR ''/'' \<in> set name then Inl IllegalArgumentException
      else if findSubRegion name t \<noteq> None then Inl RegionExistsException
      else
        (case created of
           None \<Rightarrow> Inl OutOfMemoryException
         | Some r \<Rightarrow> Inr (RegionNode (rt_env t) (rt_region t) (al_emplace name r (rt_subs t)))))"

fun subregions_internal :: "bool \<Rightarrow> ('k, 'v) region_tree \<Rightarrow> ('k, 'v) region_tree list"
  and subregions_list :: "bool \<Rightarrow> (string \<times> ('k, 'v) region_tree) list \<Rightarrow> ('k, 'v) region_tree list" where
  "subregions_internal recursive (RegionNode env R subs) = subregions_list recursive subs"
| "subregions_list recursive [] = []"
| "subregions_list recursive ((name, sub) # subs) =
     sub # (if recursive then subregions_internal True sub else []) @ subregions_list recursive subs"

definition subregions :: "bool \<Rightarrow> ('k, 'v) region_tree \<Rightarrow> gf_exn + ('k, 'v) region_tree list" where
  "subregions recursive t =
     (if m_destroyPending (rt_region t) then Inl RegionDestroyedException
      else Inr (subregions_internal recursive t))"

definition removeRegion :: "string \<Rightarrow> ('k, 'v) region_tree \<Rightarrow> ('k, 'v) region_tree" where
  "removeRegion name t = RegionNode (rt_env t) (rt_region t) (al_erase name (rt_subs t))"

section \<open>Destroying\<close>

text \<open>
  What happens before the subregions are destroyed: the writer's vote and the server, but
  for an expiration, which goes to the server at the end. \<open>Some\<close> is an error that ends
  the operation.
\<close>

definition beforeDestroy ::
  "('k, 'v) region_env \<Rightarrow> event_flags \<Rightarrow> ('k, 'v) region \<Rightarrow> gf_err option \<times> ('k, 'v) region" where
  "beforeDestroy env flags R =
     (if \<not> isNotification flags \<and> \<not> isEvictOrExpire flags then
        let (ok, R1) = invokeCacheWriterForRegionEvent env BEFORE_REGION_DESTROY R in
        if \<not> ok \<and> \<not> isCacheClose flags then (Some GF_CACHEWRITER_ERROR, R1)
        else if \<not> isLocal flags \<and> remoteDestroyRegion env \<noteq> GF_NOERR then (Some (remoteDestroyRegion env), R1)
        else (None, R1)
      else (None, R))"

definition release_region :: "('k, 'v) region \<Rightarrow> ('k, 'v) region" where
  "release_region R = R\<lparr>m_released := True\<rparr>"

text \<open>
  The result is the error code, whether the region was destroyed, which is when its parent
  drops it, and the region.
\<close>

fun destroyRegionNoThrow :: "event_flags \<Rightarrow> ('k, 'v) region_tree \<Rightarrow> gf_err \<times> bool \<times> ('k, 'v) region_tree"
  and destroySubRegions :: "event_flags \<Rightarrow> (string \<times> ('k, 'v) region_tree) list \<Rightarrow>
    gf_err \<times> (string \<times> ('k, 'v) region_tree) list" where
  "destroyRegionNoThrow flags (RegionNode env R subs) =
     (if m_destroyPending R then
        (if isCacheClose flags then GF_NOERR else GF_CACHE_REGION_DESTROYED_EXCEPTION, False, RegionNode env R subs)
      else
        let (early, R1) = beforeDestroy env flags (R\<lparr>m_destroyPending := True\<rparr>) in
        case early of
          Some err \<Rightarrow> (err, False, RegionNode env (R1\<lparr>m_destroyPending := False\<rparr>) subs)
        | None \<Rightarrow>
            let (err, subs1) = destroySubRegions flags subs in
            if err \<noteq> GF_NOERR then (err, False, RegionNode env (R1\<lparr>m_destroyPending := False\<rparr>) subs1)
            else if isEvictOrExpire flags \<and> \<not> isLocal flags \<and> remoteDestroyRegion env \<noteq> GF_NOERR
            then (remoteDestroyRegion env, False, RegionNode env (R1\<lparr>m_destroyPending := False\<rparr>) [])
            else
              let (err1, R2) = invokeCacheListenerForRegionEvent env flags AFTER_REGION_DESTROY R1
              in (err1, True, RegionNode env (release_region R2) []))"
| "destroySubRegions flags [] = (GF_NOERR, [])"
| "destroySubRegions flags ((name, sub) # subs) =
     (let (err, destroyed, sub1) = destroyRegionNoThrow (flags OR LOCAL) sub in
      if err \<noteq> GF_NOERR \<and> \<not> isCacheClose flags then (err, (name, sub1) # subs)
      else let (err1, subs1) = destroySubRegions flags subs in (err1, (name, sub1) # subs1))"

text \<open>A region that is destroyed by itself leaves its parent's table.\<close>

definition destroyChild ::
  "event_flags \<Rightarrow> string \<Rightarrow> ('k, 'v) region_tree \<Rightarrow> (gf_err \<times> ('k, 'v) region_tree) option" where
  "destroyChild flags name t =
     (case findSubRegion name t of
        None \<Rightarrow> None
      | Some sub \<Rightarrow>
          let (err, destroyed, sub1) = destroyRegionNoThrow flags sub
          in Some (err, if destroyed then removeRegion name t
                        else RegionNode (rt_env t) (rt_region t) (al_assign name sub1 (rt_subs t))))"

section \<open>Invalidating\<close>

fun invalidateKeys :: "('k, 'v) region_env \<Rightarrow> 'k list \<Rightarrow> ('k, 'v) entries_map \<Rightarrow> gf_exn + ('k, 'v) entries_map" where
  "invalidateKeys env [] M = Inr M"
| "invalidateKeys env (key # keys) M =
     andThen (invalidate_map (rg_hash env) (rg_seg env) key None M) (\<lambda>(r, M1). invalidateKeys env keys M1)"

fun invalidateRegionNoThrow :: "event_flags \<Rightarrow> ('k, 'v) region_tree \<Rightarrow> gf_exn + (gf_err \<times> ('k, 'v) region_tree)"
  and invalidateOnSubRegions :: "event_flags \<Rightarrow> (string \<times> ('k, 'v) region_tree) list \<Rightarrow>
    gf_exn + (gf_err \<times> (string \<times> ('k, 'v) region_tree) list)" where
  "invalidateRegionNoThrow flags (RegionNode env R subs) =
     (if m_destroyPending R then Inr (GF_CACHE_REGION_DESTROYED_EXCEPTION, RegionNode env R subs)
      else
        andThen
          (if cachingEnabled env
           then andThen (invalidateKeys env (getKeys_map (rg_entries R)) (rg_entries R)) (\<lambda>M. Inr (set_entries M R))
           else Inr R)
          (\<lambda>R1.
             if \<not> isLocal flags \<and> remoteInvalidateRegion env \<noteq> GF_NOERR
             then Inr (remoteInvalidateRegion env, RegionNode env R1 subs)
             else
               andThen (invalidateOnSubRegions flags subs) (\<lambda>(err, subs1).
                 if err \<noteq> GF_NOERR then Inr (err, RegionNode env R1 subs1)
                 else
                   let (err1, R2) = invokeCacheListenerForRegionEvent env flags AFTER_REGION_INVALIDATE R1
                   in Inr (err1, RegionNode env R2 subs1))))"
| "invalidateOnSubRegions flags [] = Inr (GF_NOERR, [])"
| "invalidateOnSubRegions flags ((name, sub) # subs) =
     andThen (invalidateRegionNoThrow flags sub) (\<lambda>(err, sub1).
       if err \<noteq> GF_NOERR then Inr (err, (name, sub1) # subs)
       else andThen (invalidateOnSubRegions flags subs) (\<lambda>(err1, subs1). Inr (err1, (name, sub1) # subs1)))"

section \<open>Paths\<close>

text \<open>A path as the list of its names, and the region it leads to.\<close>

fun join_path :: "string list \<Rightarrow> string" where
  "join_path [] = []"
| "join_path [n] = n"
| "join_path (n # ns) = n @ ''/'' @ join_path ns"

fun follow :: "string list \<Rightarrow> ('k, 'v) region_tree \<Rightarrow> gf_exn + ('k, 'v) region_tree option" where
  "follow [] t = Inr (Some t)"
| "follow (n # ns) t =
     (if m_destroyPending (rt_region t) then Inl RegionDestroyedException
      else (case findSubRegion n t of None \<Rightarrow> Inr None | Some r \<Rightarrow> follow ns r))"

definition path_name :: "string \<Rightarrow> bool" where
  "path_name n \<longleftrightarrow> n \<noteq> [] \<and> CHR ''/'' \<notin> set n"

lemma takeWhile_name: "path_name n \<Longrightarrow> takeWhile (\<lambda>c. c \<noteq> CHR ''/'') (n @ rest) =
    n @ takeWhile (\<lambda>c. c \<noteq> CHR ''/'') rest"
  unfolding path_name_def by (rule takeWhile_append2) auto

lemma join_path_Cons: "join_path (n # ns) = n @ (if ns = [] then [] else CHR ''/'' # join_path ns)"
  by (cases ns) simp_all

lemma getSubregion_name:
  assumes n: "path_name n" and rest: "rest = [] \<or> hd rest = CHR ''/''"
  shows "getSubregion (n @ rest) t =
    (if m_destroyPending (rt_region t) then Inl RegionDestroyedException
     else (case findSubRegion n t of None \<Rightarrow> Inr None
           | Some r \<Rightarrow> if rest = [] then Inr (Some r) else getSubregion (tl rest) r))"
proof -
  obtain c cs where c: "n = c # cs" "c \<noteq> CHR ''/''" using n by (cases n) (auto simp: path_name_def)
  have tw: "takeWhile (\<lambda>c. c \<noteq> CHR ''/'') (n @ rest) = n"
    using takeWhile_name[OF n, of rest] rest by (cases rest) auto
  have "drop (length n + 1) (n @ rest) = tl rest" by (cases rest) simp_all
  with c tw show ?thesis
    by (subst getSubregion.simps) (auto simp: Let_def split: option.splits)
qed

section \<open>Destroyed subregions\<close>

definition has_dead_sub :: "('k, 'v) region_tree \<Rightarrow> bool" where
  "has_dead_sub t \<longleftrightarrow> (\<exists>(n, s) \<in> set (rt_subs t). m_destroyPending (rt_region s))"

lemma flags_or_LOCAL:
  "isCacheClose (flags OR LOCAL) = isCacheClose flags" "isLocal (flags OR LOCAL)"
  "isNotification (flags OR LOCAL) = isNotification flags" "isEvictOrExpire (flags OR LOCAL) = isEvictOrExpire flags"
proof -
  have d: "(flags OR 2) AND m = (flags AND m) OR (2 AND m)" for m :: u16
    by (simp add: word_ao_dist)
  show "isCacheClose (flags OR LOCAL) = isCacheClose flags" "isNotification (flags OR LOCAL) = isNotification flags"
    "isEvictOrExpire (flags OR LOCAL) = isEvictOrExpire flags"
    by (simp_all add: flag_tests LOCAL_def d)
  have "(flags OR 2) AND 2 = 2" by (simp add: word_ao_absorbs)
  then show "isLocal (flags OR LOCAL)" by (simp add: flag_tests LOCAL_def)
qed

lemma destroySubRegions_dead:
  assumes "\<not> isCacheClose flags" "destroySubRegions flags subs = (err, subs')"
    and "\<exists>(n, s) \<in> set subs. m_destroyPending (rt_region s)"
  shows "err \<noteq> GF_NOERR \<and> (\<exists>(n, s) \<in> set subs'. m_destroyPending (rt_region s))"
  using assms(2,3)
proof (induction subs arbitrary: err subs')
  case (Cons p subs)
  obtain n s where p: "p = (n, s)" by (cases p)
  obtain err1 d s1 where s1: "destroyRegionNoThrow (flags OR LOCAL) s = (err1, d, s1)"
    by (cases "destroyRegionNoThrow (flags OR LOCAL) s")
  show ?case
  proof (cases "m_destroyPending (rt_region s)")
    case True
    then have "err1 = GF_CACHE_REGION_DESTROYED_EXCEPTION" "s1 = s"
      using s1 assms(1) by (cases s; simp add: flags_or_LOCAL)+
    with Cons.prems(1) s1 assms(1) True show ?thesis by (auto simp: p)
  next
    case False
    then have dead: "\<exists>(n, s) \<in> set subs. m_destroyPending (rt_region s)" using Cons.prems(2) by (auto simp: p)
    show ?thesis
    proof (cases "err1 = GF_NOERR")
      case True
      obtain err2 subs2 where r: "destroySubRegions flags subs = (err2, subs2)" by (cases "destroySubRegions flags subs")
      from Cons.IH[OF r dead] Cons.prems(1) s1 True r show ?thesis by (auto simp: p)
    next
      case False
      with Cons.prems(1) s1 assms(1) dead show ?thesis by (auto simp: p)
    qed
  qed
qed simp

lemma beforeDestroy_err: "beforeDestroy env flags R = (Some err, R1) \<Longrightarrow> err \<noteq> GF_NOERR"
  by (auto simp: beforeDestroy_def Let_def split: if_splits prod.splits)

section \<open>An example\<close>

text \<open>A region with two subregions, the second of which has a writer that vetoes everything.\<close>

definition leaf :: "bool \<Rightarrow> (nat, nat) region_tree" where
  "leaf veto = RegionNode (if veto then small_renv\<lparr>writer := Some (\<lambda>_. False)\<rparr> else small_renv) (small_region small_map) []"

definition family :: "(nat, nat) region_tree" where
  "family = RegionNode small_renv (small_region small_map) [(''a'', leaf False), (''b'', leaf True)]"

lemma flags_region [simp]:
  "\<not> isEvictOrExpire LOCAL" "\<not> isCacheClose LOCAL" "LOCAL OR LOCAL = LOCAL"
  "isCacheClose (LOCAL OR CACHE_CLOSE)" "isLocal (LOCAL OR CACHE_CLOSE)"
  by (simp_all add: flag_tests flag_defs)

lemma family_destroy:
  "\<exists>t. destroyRegionNoThrow LOCAL family = (GF_CACHEWRITER_ERROR, False, t) \<and> has_dead_sub t \<and> \<not> m_destroyPending (rt_region t)"
  by (simp add: family_def leaf_def beforeDestroy_def invokeCacheWriterForRegionEvent_def
      invokeCacheListenerForRegionEvent_def release_region_def has_dead_sub_def small_region_def log_call_def)

section \<open>Properties\<close>





text \<open>
  C34. A destroyed subregion that its parent still lists, as the veto of a sibling's writer
  leaves it, blocks its parent for good: every later attempt to destroy the parent, other than
  closing the cache, fails and leaves the parent with such a subregion.
\<close>

theorem dead_subregion_blocks_destroy:
  assumes "has_dead_sub t" "\<not> m_destroyPending (rt_region t)" "\<not> isCacheClose flags"
    and "destroyRegionNoThrow flags t = (err, destroyed, t')"
  shows "err \<noteq> GF_NOERR \<and> \<not> destroyed \<and> has_dead_sub t' \<and> \<not> m_destroyPending (rt_region t')"
proof -
  obtain env R subs where t: "t = RegionNode env R subs" by (cases t)
  obtain early R1 where b: "beforeDestroy env flags (R\<lparr>m_destroyPending := True\<rparr>) = (early, R1)"
    by (cases "beforeDestroy env flags (R\<lparr>m_destroyPending := True\<rparr>)")
  obtain err1 subs1 where d: "destroySubRegions flags subs = (err1, subs1)" by (cases "destroySubRegions flags subs")
  have dead: "\<exists>(n, s) \<in> set subs. m_destroyPending (rt_region s)" using assms(1) by (simp add: t has_dead_sub_def)
  show ?thesis
  proof (cases early)
    case (Some e)
    with b have "e \<noteq> GF_NOERR" using beforeDestroy_err by blast
    moreover from Some assms(2,4) b have "err = e" "\<not> destroyed" "t' = RegionNode env (R1\<lparr>m_destroyPending := False\<rparr>) subs"
      by (simp_all add: t)
    ultimately show ?thesis using dead by (simp add: has_dead_sub_def)
  next
    case None
    note dead1 = destroySubRegions_dead[OF assms(3) d dead]
    with None assms(2,4) b d have "err = err1" "\<not> destroyed" "t' = RegionNode env (R1\<lparr>m_destroyPending := False\<rparr>) subs1"
      by (simp_all add: t)
    with dead1 show ?thesis by (simp add: has_dead_sub_def)
  qed
qed

theorem dead_subregion_blocks_destroy_witness:
  "\<exists>t err t'. destroyRegionNoThrow LOCAL family = (GF_CACHEWRITER_ERROR, False, t) \<and>
     destroyRegionNoThrow LOCAL t = (err, False, t') \<and> err \<noteq> GF_NOERR \<and> has_dead_sub t'"
proof -
  obtain t where t: "destroyRegionNoThrow LOCAL family = (GF_CACHEWRITER_ERROR, False, t)" "has_dead_sub t"
    "\<not> m_destroyPending (rt_region t)" using family_destroy by blast
  obtain err d t' where d: "destroyRegionNoThrow LOCAL t = (err, d, t')" by (cases "destroyRegionNoThrow LOCAL t")
  have "\<not> isCacheClose LOCAL" by simp
  from dead_subregion_blocks_destroy[OF t(2,3) this d] d t(1) show ?thesis by auto
qed

end
