(* ===== verification/Region_Api.thy ===== *)
theory Region_Api
  imports Region_Tree
begin

text \<open>
  The operations that an application calls on a region (\<open>LocalRegion.cpp\<close>). They run the
  operations of \<open>Local_Region\<close> and \<open>Region_Tree\<close> with the flags of a normal or of a local
  call, and throw an exception for an error code. An error code on the left stands for that
  exception; the exceptions that are thrown directly are those of \<open>gf_exn\<close>.
\<close>

definition outcome :: "gf_err \<Rightarrow> 'a \<Rightarrow> gf_err + 'a" where
  "outcome err x = (if err = GF_NOERR then Inr x else Inl err)"

type_synonym ('k, 'v, 'a) api = "gf_exn + ((gf_err + 'a) \<times> ('k, 'v) region)"

text \<open>An operation without a result.\<close>

definition throwing :: "gf_exn + (gf_err \<times> 'v ptr \<times> ('k, 'v) region) \<Rightarrow> ('k, 'v, unit) api" where
  "throwing res = andThen res (\<lambda>(err, _, R). Inr (outcome err (), R))"

section \<open>One entry\<close>

definition getEntry :: "('k, 'v) region_env \<Rightarrow> 'k option \<Rightarrow> ('k, 'v) region \<Rightarrow> gf_exn + (gf_err + ('k \<times> 'v cacheable) option)" where
  "getEntry env keyp R =
     (if inTransaction env then Inr (Inl GF_NOTSUP)
      else
        (case keyp of
           None \<Rightarrow> Inl IllegalArgumentException
         | Some key \<Rightarrow> andThen (region_getEntry env key R) (\<lambda>v. Inr (Inr (map_option (\<lambda>x. (key, x)) v)))))"

definition get_region :: "('k, 'v) region_env \<Rightarrow> 'k option \<Rightarrow> ('k, 'v) region \<Rightarrow> ('k, 'v, 'v ptr) api" where
  "get_region env key R = andThen (getNoThrow env key None R) (\<lambda>(err, v, R1). Inr (outcome err v, R1))"

definition put_region :: "('k, 'v) region_env \<Rightarrow> 'k option \<Rightarrow> 'v ptr \<Rightarrow> ('k, 'v) region \<Rightarrow> ('k, 'v, unit) api" where
  "put_region env key value R = throwing (putNoThrow env key value None (-1) NORMAL None None R)"

definition localPut :: "('k, 'v) region_env \<Rightarrow> 'k option \<Rightarrow> 'v ptr \<Rightarrow> ('k, 'v) region \<Rightarrow> ('k, 'v, unit) api" where
  "localPut env key value R = throwing (putNoThrow env key value None (-1) LOCAL None None R)"

definition create_region :: "('k, 'v) region_env \<Rightarrow> 'k option \<Rightarrow> 'v ptr \<Rightarrow> ('k, 'v) region \<Rightarrow> ('k, 'v, unit) api" where
  "create_region env key value R = throwing (createNoThrow env value key (-1) NORMAL None R)"

definition localCreate :: "('k, 'v) region_env \<Rightarrow> 'k option \<Rightarrow> 'v ptr \<Rightarrow> ('k, 'v) region \<Rightarrow> ('k, 'v, unit) api" where
  "localCreate env key value R = throwing (createNoThrow env value key (-1) LOCAL None R)"

definition invalidate_region :: "('k, 'v) region_env \<Rightarrow> 'k option \<Rightarrow> ('k, 'v) region \<Rightarrow> ('k, 'v, unit) api" where
  "invalidate_region env key R = throwing (invalidateNoThrow env key (-1) NORMAL None R)"

definition localInvalidate :: "('k, 'v) region_env \<Rightarrow> 'k option \<Rightarrow> ('k, 'v) region \<Rightarrow> ('k, 'v, unit) api" where
  "localInvalidate env key R = throwing (invalidateNoThrow env key (-1) LOCAL None R)"

definition destroy_region :: "('k, 'v) region_env \<Rightarrow> 'k option \<Rightarrow> ('k, 'v) region \<Rightarrow> ('k, 'v, unit) api" where
  "destroy_region env key R = throwing (destroyNoThrow env key (-1) NORMAL None R)"

definition localDestroy :: "('k, 'v) region_env \<Rightarrow> 'k option \<Rightarrow> ('k, 'v) region \<Rightarrow> ('k, 'v, unit) api" where
  "localDestroy env key R = throwing (destroyNoThrow env key (-1) LOCAL None R)"

text \<open>The removals, which answer whether they removed the key.\<close>

definition removal :: "gf_exn + (gf_err \<times> 'v ptr \<times> ('k, 'v) region) \<Rightarrow> ('k, 'v, bool) api" where
  "removal res = andThen res (\<lambda>(err, _, R).
     Inr (if err = GF_NOERR then Inr True
          else if err \<noteq> GF_ENOENT \<and> err \<noteq> GF_CACHE_ENTRY_NOT_FOUND then Inl err else Inr False, R))"

definition remove_region :: "('k, 'v) region_env \<Rightarrow> 'k option \<Rightarrow> 'v ptr \<Rightarrow> ('k, 'v) region \<Rightarrow> ('k, 'v, bool) api" where
  "remove_region env key value R = removal (removeNoThrow env value key (-1) NORMAL None R)"

definition removeEx :: "('k, 'v) region_env \<Rightarrow> 'k option \<Rightarrow> ('k, 'v) region \<Rightarrow> ('k, 'v, bool) api" where
  "removeEx env key R = removal (removeNoThrowEx env key (-1) NORMAL None R)"

definition localRemove :: "('k, 'v) region_env \<Rightarrow> 'k option \<Rightarrow> 'v ptr \<Rightarrow> ('k, 'v) region \<Rightarrow> ('k, 'v, bool) api" where
  "localRemove env key value R = removal (removeNoThrow env value key (-1) LOCAL None R)"

definition localRemoveEx :: "('k, 'v) region_env \<Rightarrow> 'k option \<Rightarrow> ('k, 'v) region \<Rightarrow> ('k, 'v, bool) api" where
  "localRemoveEx env key R = removal (removeNoThrowEx env key (-1) LOCAL None R)"

section \<open>Many entries\<close>

definition putAll_region ::
  "('k, 'v) region_env \<Rightarrow> ('k \<times> 'v ptr) list \<Rightarrow> int \<Rightarrow> ('k, 'v) region \<Rightarrow> ('k, 'v, unit) api" where
  "putAll_region env m timeout R =
     (if 2 ^ 31 - 1 < timeout \<or> timeout < 0 then Inl IllegalArgumentException
      else andThen (putAllNoThrow env m R) (\<lambda>(err, R1). Inr (outcome err (), R1)))"

definition removeAll_region :: "('k, 'v) region_env \<Rightarrow> 'k list \<Rightarrow> ('k, 'v) region \<Rightarrow> ('k, 'v, unit) api" where
  "removeAll_region env ks R =
     (if length ks = 0 then Inl IllegalArgumentException
      else andThen (removeAllNoThrow env ks R) (\<lambda>(err, R1). Inr (outcome err (), R1)))"

definition getAll_internal ::
  "('k, 'v) region_env \<Rightarrow> 'k list \<Rightarrow> bool \<Rightarrow> ('k, 'v) region \<Rightarrow> ('k, 'v, ('k \<times> 'v ptr) list) api" where
  "getAll_internal env ks addToLocalCache R =
     (if ks = [] then Inl IllegalArgumentException
      else andThen (getAllNoThrow env ks (Some []) addToLocalCache R) (\<lambda>(err, values, R1).
             Inr (outcome err (case values of None \<Rightarrow> [] | Some vs \<Rightarrow> vs), R1)))"

definition getAll_region ::
  "('k, 'v) region_env \<Rightarrow> 'k list \<Rightarrow> ('k, 'v) region \<Rightarrow> ('k, 'v, ('k \<times> 'v ptr) list) api" where
  "getAll_region env ks R = getAll_internal env ks True R"

definition keys_internal :: "('k, 'v) region_env \<Rightarrow> ('k, 'v) region \<Rightarrow> 'k list" where
  "keys_internal env R = (if cachingEnabled env then getKeys_map (rg_entries R) else [])"

definition keys_region :: "('k, 'v) region_env \<Rightarrow> ('k, 'v) region \<Rightarrow> gf_exn + 'k list" where
  "keys_region env R = (if m_destroyPending R then Inl RegionDestroyedException else Inr (keys_internal env R))"

definition serverKeys_local :: "gf_exn + 'k list" where
  "serverKeys_local = Inl UnsupportedOperationException"

definition values_region :: "('k, 'v) region_env \<Rightarrow> ('k, 'v) region \<Rightarrow> gf_exn + ('v ptr list \<times> ('k, 'v) region)" where
  "values_region env R =
     (if m_destroyPending R then Inl RegionDestroyedException
      else if cachingEnabled env then
        let (vs, M) = getValues_map (rg_seg env) (rg_entries R) in Inr (vs, set_entries M R)
      else Inr ([], R))"

definition containsValueForKey :: "('k, 'v) region_env \<Rightarrow> gf_exn + bool \<Rightarrow> 'k option \<Rightarrow> ('k, 'v) region \<Rightarrow> gf_exn + bool" where
  "containsValueForKey env remote_answer keyp R =
     (case keyp of
        None \<Rightarrow> Inl IllegalArgumentException
      | Some key \<Rightarrow> if inTransaction env then remote_answer else containsValueForKey_remote env key R)"

definition localClear :: "('k, 'v) region_env \<Rightarrow> ('k, 'v) region \<Rightarrow> (gf_err + unit) \<times> ('k, 'v) region" where
  "localClear env R = (let (err, R1) = localClearNoThrow env LOCAL R in (outcome err (), R1))"

text \<open>
  The entries of a region and those below it. A region without a local copy has no entry map,
  and a destroyed one has it deleted: the call through the pointer is a \<open>MemoryFault\<close>.
\<close>

definition own_entries :: "('k, 'v) region_env \<Rightarrow> ('k, 'v) region \<Rightarrow> gf_exn + ('k \<times> 'v ptr) list" where
  "own_entries env R =
     (if \<not> cachingEnabled env \<or> m_released R then Inl MemoryFault else Inr (getEntries_map (rg_entries R)))"

fun entries_internal :: "bool \<Rightarrow> ('k, 'v) region_tree \<Rightarrow> gf_exn + ('k \<times> 'v ptr) list"
  and entries_below :: "(string \<times> ('k, 'v) region_tree) list \<Rightarrow> gf_exn + ('k \<times> 'v ptr) list" where
  "entries_internal recursive (RegionNode env R subs) =
     andThen (own_entries env R) (\<lambda>es.
       if recursive then andThen (entries_below subs) (\<lambda>below. Inr (es @ below)) else Inr es)"
| "entries_below [] = Inr []"
| "entries_below ((name, t) # subs) =
     andThen (entries_internal True t) (\<lambda>es. andThen (entries_below subs) (\<lambda>below. Inr (es @ below)))"

definition entries_region :: "bool \<Rightarrow> ('k, 'v) region_tree \<Rightarrow> gf_exn + ('k \<times> 'v ptr) list" where
  "entries_region recursive t =
     (if m_destroyPending (rt_region t) then Inl RegionDestroyedException
      else if cachingEnabled (rt_env t) then entries_internal recursive t else Inr [])"

section \<open>The region\<close>

definition invalidateRegion :: "('k, 'v) region_tree \<Rightarrow> gf_exn + ((gf_err + unit) \<times> ('k, 'v) region_tree)" where
  "invalidateRegion t = andThen (invalidateRegionNoThrow NORMAL t) (\<lambda>(err, t1). Inr (outcome err (), t1))"

definition localInvalidateRegion :: "('k, 'v) region_tree \<Rightarrow> gf_exn + ((gf_err + unit) \<times> ('k, 'v) region_tree)" where
  "localInvalidateRegion t = andThen (invalidateRegionNoThrow LOCAL t) (\<lambda>(err, t1). Inr (outcome err (), t1))"

definition destroyRegion :: "('k, 'v) region_tree \<Rightarrow> (gf_err + unit) \<times> bool \<times> ('k, 'v) region_tree" where
  "destroyRegion t = (let (err, destroyed, t1) = destroyRegionNoThrow NORMAL t in (outcome err (), destroyed, t1))"

definition localDestroyRegion :: "('k, 'v) region_tree \<Rightarrow> (gf_err + unit) \<times> bool \<times> ('k, 'v) region_tree" where
  "localDestroyRegion t = (let (err, destroyed, t1) = destroyRegionNoThrow LOCAL t in (outcome err (), destroyed, t1))"

section \<open>Creating a key that exists\<close>

lemma create_outcome:
  assumes inv: "map_inv hashcode M" and v: "storable v"
    and run: "create_map hashcode env key v uc dt None M = Inr (r, M')"
  shows "r_err r = (if lookup_map hashcode M key = None then GF_NOERR else GF_CACHE_ENTRY_EXISTS)"
proof -
  let ?s = "m_segments M ! segmentIdx hashcode key M"
  note at = segmentFor_inv[OF inv, of key]
  from run at obtain s' where p: "create_seg env (sint (m_numDestroyTrackers M)) key v uc dt None ?s = Inr (r, s')"
    by (auto simp: create_map_def on_segment_def andThen_Inr_conv)
  then obtain s1 where s1: "check_rehash ?s = Inr s1" by (auto simp: create_seg_def andThen_Inr_conv)
  note inv1 = conc_inv_check_rehash[OF s1 at(3)]
  note conc = conc_inv_D[OF inv1]
  have look: "lookup_map hashcode M key = slot_lookup (al_find (m_map s1) key)"
    using check_rehash_Inr[OF s1] by (simp add: lookup_map_inv[OF inv] lookup_seg_slot)
  from inv1 show ?thesis
  proof (cases rule: conc_inv_cases[where k = key])
    case absent
    with p s1 conc look show ?thesis
      by (auto simp: create_seg_def putNoEntry_def result_def slot_lookup_def Let_def split: prod.splits)
  next
    case (live i)
    then have "getValueI i \<noteq> None" "getValueI i \<noteq> Some TombstoneToken"
      using getValueI_stored[of i] by (auto simp: storable_def stored_def)
    with p s1 live look show ?thesis by (auto simp: create_seg_def result_def slot_lookup_def Let_def)
  next
    case (dead i t)
    then have "getValueI i = Some TombstoneToken" by (simp add: getValueI_tomb)
    moreover have "m_concurrencyChecksEnabled (remove_entry key s1)"
      using conc_inv_D[OF conc_inv_remove_entry[OF inv1]] .
    ultimately show ?thesis using p s1 dead conc look
      by (auto simp: create_seg_def Let_def next_stamp_conc putNoEntry_def result_def slot_lookup_def split: prod.splits)
  qed
qed

section \<open>Properties\<close>

text \<open>
  C27. A local create is exclusive: unless the cache writer vetoes it, it fails with an error and
  changes nothing when the region has the key, and otherwise it stores the value, with at
  most a failing listener to report.
\<close>

theorem localCreate_exclusive:
  assumes inv: "map_inv (rg_hash env) (rg_entries R)" and env: "cachingEnabled env" "\<not> inTransaction env"
    and R: "\<not> m_destroyPending R"
    and run: "localCreate env (Some key) (Some (Obj v)) R = Inr (res, R')"
  shows "let old = lookup_map (rg_hash env) (rg_entries R); new = lookup_map (rg_hash env) (rg_entries R') in
    if res = Inl GF_CACHEWRITER_ERROR then new = old
    else if old key \<noteq> None then res = Inl GF_CACHE_ENTRY_EXISTS \<and> new = old
    else (res = Inr () \<or> res = Inl GF_CACHE_LISTENER_EXCEPTION) \<and> new = old(key \<mapsto> Obj v)"
proof -
  let ?v = "Some (Obj v)"
  have st: "storable ?v" by (simp add: storable_def)
  from run env R obtain ok old1 R1 where
    w: "writerStep env CreateAction key ?v None LOCAL R = Inr (ok, old1, R1)"
    by (auto simp: localCreate_def throwing_def createNoThrow_def updateNoThrow_def checkArgs_def andThen_Inr_conv
        split: if_splits)
  have R1: "rg_entries R1 = rg_entries R" using writerStep_entries[OF w] by simp
  show ?thesis
  proof (cases ok)
    case False
    with run env R w have "res = Inl GF_CACHEWRITER_ERROR" "R' = R1"
      by (auto simp: localCreate_def throwing_def createNoThrow_def updateNoThrow_def checkArgs_def outcome_def)
    with R1 show ?thesis by (simp add: Let_def)
  next
    case True
    with run env R w obtain err old' where p: "propagate env CreateAction key ?v old1 (-1) LOCAL None None R1 = Inr (err, old', R')"
      and res: "res = outcome err ()"
      by (auto simp: localCreate_def throwing_def createNoThrow_def updateNoThrow_def checkArgs_def andThen_Inr_conv)
    from p env obtain r M where
      c: "create_map (rg_hash env) (rg_seg env) key ?v (-1) 0 None (rg_entries R1) = Inr (r, M)"
      by (auto simp: propagate_def localStep_def putLocal_def andThen_Inr_conv Let_def)
    note out = create_outcome[OF inv[folded R1] st c] and ref = create_map_refines(3)[OF inv[folded R1] st c]
    show ?thesis
    proof (cases "lookup_map (rg_hash env) (rg_entries R) key = None")
      case True
      with out R1 have ok: "r_err r = GF_NOERR" by simp
      with p env c obtain old2 value2 where
        "invokeCacheListenerForEntryEvent env key old2 value2 LOCAL AFTER_CREATE False (set_entries M R1) = (err, old', R')"
        by (auto simp: propagate_def localStep_def putLocal_def listenerStep_def Let_def)
      with listener_error[OF this] listener_entries[OF this] ref ok True R1 res show ?thesis
        by (auto simp: outcome_def Let_def)
    next
      case False
      with out R1 have ex: "r_err r = GF_CACHE_ENTRY_EXISTS" by simp
      with p env c have "err = GF_CACHE_ENTRY_EXISTS" "R' = set_entries M R1"
        by (auto simp: propagate_def localStep_def putLocal_def listenerStep_def Let_def)
      with ref ex False R1 res show ?thesis by (simp add: outcome_def Let_def)
    qed
  qed
qed

theorem localCreate_exclusive_witness:
  "\<exists>R'. localCreate small_renv (Some 1) (Some (Obj 9)) (small_region small_map1) = Inr (Inl GF_CACHE_ENTRY_EXISTS, R') \<and>
     lookup_map of_nat (rg_entries R') = lookup_map of_nat small_map1"
proof -
  have c: "\<exists>r M. create_map of_nat small_env 1 (Some (Obj 9)) (-1) 0 None small_map1 = Inr (r, M) \<and> r_err r = GF_CACHE_ENTRY_EXISTS"
    by (simp add: create_map_def on_segment_def segmentFor_def segmentIdx_def small_map1_def small_map_def create_seg_def
        check_rehash_def getPrime_def g_primeTable_def small_segment_def small_entry_def al_find_def getValueI_def result_def Let_def)
  then obtain R' where run: "localCreate small_renv (Some 1) (Some (Obj 9)) (small_region small_map1) = Inr (Inl GF_CACHE_ENTRY_EXISTS, R')"
    by (auto simp: localCreate_def throwing_def createNoThrow_def updateNoThrow_def checkArgs_def writerStep_def propagate_def
        localStep_def putLocal_def listenerStep_def outcome_def Let_def)
  with localCreate_exclusive[OF _ _ _ _ run] map_inv_small(2) show ?thesis by (auto simp: Let_def split: if_splits)
qed

text \<open>
  C37. Listing the entries of a region with all below it dereferences a null pointer when a region below
  it has no local copy: only the region that is asked is tested for one.
\<close>

theorem recursive_entries_fault:
  assumes "(name, t) \<in> set subs" "\<not> cachingEnabled (rt_env t)"
    and "\<not> m_destroyPending R" "\<not> m_released R" "cachingEnabled env"
  shows "entries_region True (RegionNode env R subs) = Inl MemoryFault \<and>
    (\<exists>es. entries_region False (RegionNode env R subs) = Inr es)"
proof -
  have only: "entries_internal b u = Inl e \<Longrightarrow> e = MemoryFault" "entries_below ss = Inl e \<Longrightarrow> e = MemoryFault"
    for b :: bool and u :: "('a, 'b) region_tree" and ss :: "(string \<times> ('a, 'b) region_tree) list" and e
    by (induction b u and ss rule: entries_internal_entries_below.induct)
      (auto simp: own_entries_def andThen_Inl_conv split: if_splits)
  have "entries_below subs = Inl MemoryFault"
    using assms(1)
  proof (induction subs)
    case (Cons p subs)
    obtain n u where p: "p = (n, u)" by (cases p)
    show ?case
    proof (cases "u = t")
      case True
      have "entries_internal True t = Inl MemoryFault" using assms(2) by (cases t) (simp add: own_entries_def)
      with True p show ?thesis by simp
    next
      case False
      with Cons p have "entries_below subs = Inl MemoryFault" by auto
      with p only(1)[of True u] show ?thesis by (cases "entries_internal True u") auto
    qed
  qed simp
  with assms(3-5) show ?thesis by (simp add: entries_region_def own_entries_def)
qed

theorem recursive_entries_fault_witness:
  "entries_region True (RegionNode small_renv (small_region small_map)
     [(''p'', RegionNode (small_renv\<lparr>cachingEnabled := False\<rparr>) (small_region small_map) [])]) = Inl MemoryFault"
  using recursive_entries_fault[of "''p''" "RegionNode (small_renv\<lparr>cachingEnabled := False\<rparr>) (small_region small_map) []"
      "[(''p'', RegionNode (small_renv\<lparr>cachingEnabled := False\<rparr>) (small_region small_map) [])]"
      "small_region small_map" small_renv]
  by (simp add: small_region_def)

end
