(* ===== verification/Thin_Client.thy ===== *)
theory Thin_Client
  imports Region_Api
begin

text \<open>
  A region with servers (\<open>ThinClientRegion.cpp\<close>): the
  requests behind the virtual operations of \<open>Local_Region\<close> and what their replies mean.

  The distribution manager that carries a request to a server and back is a parameter. It
  returns an error code of its own, the reply, and the entry map as other threads leave it
  meanwhile.
\<close>

section \<open>Requests and replies\<close>

datatype message_type =
    REPLY | RESPONSE | EXCEPTION | REQUEST_DATA_ERROR | PUT_DATA_ERROR | PUT_DELTA_ERROR | DESTROY_DATA_ERROR
  | INVALIDATE_ERROR | DESTROY_REGION_DATA_ERROR | CLEAR_REGION_DATA_ERROR | SIZE_ERROR | OTHER_MESSAGE

datatype ('k, 'v) request =
    GetRequest 'k
  | PutRequest 'k "'v ptr" bool bool
  | DestroyRequest 'k "'v ptr" bool
  | InvalidateRequest 'k
  | ContainsKeyRequest 'k bool
  | ClearRequest
  | SizeRequest
  | DestroyRegionRequest

record 'v reply =
  rp_type :: message_type
  rp_value :: "'v ptr"
  rp_tag :: "version_tag option"
  rp_exception :: string
  rp_entryNotFound :: u32
  rp_bool :: bool
  rp_size :: "u32 option"

text \<open>
  The flags of a put are whether it carries a delta and whether it follows a delta that the
  server could not apply. \<open>requestEventValue\<close> is the request for the value of an event.
  \<open>deltas\<close> is whether deltas may be sent: the client does not conflate events and the servers
  take deltas. \<open>hasDelta\<close> is the application's.
\<close>

record ('k, 'v) thin_env =
  sendSyncRequest :: "('k, 'v) request \<Rightarrow> ('k, 'v) entries_map \<Rightarrow> gf_err \<times> 'v reply \<times> ('k, 'v) entries_map"
  requestEventValue :: "gf_err \<times> 'v reply"
  deltas :: bool
  hasDelta :: "'v ptr \<Rightarrow> bool"

text \<open>\<open>std::string::find\<close> used as a test.\<close>

definition contains :: "string \<Rightarrow> string \<Rightarrow> bool" where
  "contains pat s = list_ex (\<lambda>i. take (length pat) (drop i s) = pat) [0..<length s + 1]"

definition handleServerException :: "string \<Rightarrow> gf_err" where
  "handleServerException msg =
     (if contains ''org.apache.geode.security.NotAuthorizedException'' msg then GF_NOT_AUTHORIZED_EXCEPTION
      else if contains ''org.apache.geode.cache.CacheWriterException'' msg then GF_CACHE_WRITER_EXCEPTION
      else if contains ''org.apache.geode.security.AuthenticationFailedException'' msg
      then GF_AUTHENTICATION_FAILED_EXCEPTION
      else if contains ''org.apache.geode.internal.cache.execute.InternalFunctionInvocationTargetException'' msg
      then GF_INTERNAL_FUNCTION_INVOCATION_TARGET_EXCEPTION
      else if contains ''org.apache.geode.cache.execute.FunctionException'' msg then GF_FUNCTION_EXCEPTION
      else if contains ''org.apache.geode.cache.CommitConflictException'' msg then GF_COMMIT_CONFLICT_EXCEPTION
      else if contains ''org.apache.geode.cache.TransactionDataNodeHasDepartedException'' msg
      then GF_TRANSACTION_DATA_NODE_HAS_DEPARTED_EXCEPTION
      else if contains ''org.apache.geode.cache.TransactionDataRebalancedException'' msg
      then GF_TRANSACTION_DATA_REBALANCED_EXCEPTION
      else if contains ''org.apache.geode.security.AuthenticationRequiredException'' msg
      then GF_AUTHENTICATION_REQUIRED_EXCEPTION
      else if contains ''org.apache.geode.cache.LowMemoryException'' msg then GF_LOW_MEMORY_EXCEPTION
      else if contains ''org.apache.geode.cache.query.QueryExecutionLowMemoryException'' msg
      then GF_QUERY_EXECUTION_LOW_MEMORY_EXCEPTION
      else GF_CACHESERVER_EXCEPTION)"

type_synonym ('k, 'v) remote_result = "gf_err \<times> 'v ptr \<times> version_tag option \<times> ('k, 'v) entries_map"

section \<open>The remote operations\<close>

definition getNoThrow_remote ::
  "('k, 'v) thin_env \<Rightarrow> 'k \<Rightarrow> 'v ptr \<Rightarrow> version_tag option \<Rightarrow> ('k, 'v) entries_map \<Rightarrow> ('k, 'v) remote_result" where
  "getNoThrow_remote tenv key value tag M =
     (let (err, reply, M1) = sendSyncRequest tenv (GetRequest key) M in
      if err \<noteq> GF_NOERR then (err, value, tag, M1)
      else
        (case rp_type reply of
           RESPONSE \<Rightarrow> (GF_NOERR, rp_value reply, rp_tag reply, M1)
         | EXCEPTION \<Rightarrow> (handleServerException (rp_exception reply), value, tag, M1)
         | REQUEST_DATA_ERROR \<Rightarrow> (GF_CACHESERVER_EXCEPTION, value, tag, M1)
         | _ \<Rightarrow> (GF_MSG, value, tag, M1)))"

definition invalidateNoThrow_remote ::
  "('k, 'v) thin_env \<Rightarrow> 'k \<Rightarrow> 'v ptr \<Rightarrow> version_tag option \<Rightarrow> ('k, 'v) entries_map \<Rightarrow> ('k, 'v) remote_result" where
  "invalidateNoThrow_remote tenv key value tag M =
     (let (err, reply, M1) = sendSyncRequest tenv (InvalidateRequest key) M in
      if err \<noteq> GF_NOERR then (err, value, tag, M1)
      else
        (case rp_type reply of
           REPLY \<Rightarrow> (GF_NOERR, value, rp_tag reply, M1)
         | EXCEPTION \<Rightarrow> (handleServerException (rp_exception reply), value, tag, M1)
         | INVALIDATE_ERROR \<Rightarrow> (GF_CACHESERVER_EXCEPTION, value, tag, M1)
         | _ \<Rightarrow> (GF_MSG, value, tag, M1)))"

definition putNoThrow_remote ::
  "('k, 'v) thin_env \<Rightarrow> 'k \<Rightarrow> 'v ptr \<Rightarrow> version_tag option \<Rightarrow> bool \<Rightarrow> ('k, 'v) entries_map \<Rightarrow> ('k, 'v) remote_result" where
  "putNoThrow_remote tenv key value tag checkDelta M =
     (let delta = (checkDelta \<and> value \<noteq> None \<and> deltas tenv \<and> hasDelta tenv value);
          (err0, reply0, M0) = sendSyncRequest tenv (PutRequest key value delta False) M;
          (err, reply, M1) = (if delta \<and> rp_type reply0 = PUT_DELTA_ERROR
                              then sendSyncRequest tenv (PutRequest key value False True) M0 else (err0, reply0, M0))
      in if err \<noteq> GF_NOERR then (err, value, tag, M1)
         else
           (case rp_type reply of
              REPLY \<Rightarrow> (GF_NOERR, value, rp_tag reply, M1)
            | EXCEPTION \<Rightarrow> (handleServerException (rp_exception reply), value, tag, M1)
            | PUT_DATA_ERROR \<Rightarrow> (GF_CACHESERVER_EXCEPTION, value, tag, M1)
            | _ \<Rightarrow> (GF_MSG, value, tag, M1)))"

definition createNoThrow_remote ::
  "('k, 'v) thin_env \<Rightarrow> 'k \<Rightarrow> 'v ptr \<Rightarrow> version_tag option \<Rightarrow> ('k, 'v) entries_map \<Rightarrow> ('k, 'v) remote_result" where
  "createNoThrow_remote tenv key value tag M = putNoThrow_remote tenv key value tag False M"

text \<open>What the three kinds of destroy share: the reply, with the error for a key the server does not have.\<close>

definition destroyReply ::
  "gf_err \<Rightarrow> 'v ptr \<Rightarrow> version_tag option \<Rightarrow> gf_err \<times> 'v reply \<times> ('k, 'v) entries_map \<Rightarrow> ('k, 'v) remote_result" where
  "destroyReply notFound value tag = (\<lambda>(err, reply, M1).
     if err \<noteq> GF_NOERR then (err, value, tag, M1)
     else
       (case rp_type reply of
          REPLY \<Rightarrow> (if rp_entryNotFound reply = 1 then notFound else GF_NOERR, value, rp_tag reply, M1)
        | EXCEPTION \<Rightarrow> (handleServerException (rp_exception reply), value, tag, M1)
        | DESTROY_DATA_ERROR \<Rightarrow> (GF_CACHE_ENTRY_DESTROYED_EXCEPTION, value, tag, M1)
        | _ \<Rightarrow> (GF_MSG, value, tag, M1)))"

definition destroyNoThrow_remote ::
  "('k, 'v) thin_env \<Rightarrow> 'k \<Rightarrow> 'v ptr \<Rightarrow> version_tag option \<Rightarrow> ('k, 'v) entries_map \<Rightarrow> ('k, 'v) remote_result" where
  "destroyNoThrow_remote tenv key value tag M =
     destroyReply GF_CACHE_ENTRY_NOT_FOUND value tag (sendSyncRequest tenv (DestroyRequest key None False) M)"

definition removeNoThrow_remote ::
  "('k, 'v) thin_env \<Rightarrow> 'k \<Rightarrow> 'v ptr \<Rightarrow> version_tag option \<Rightarrow> ('k, 'v) entries_map \<Rightarrow> ('k, 'v) remote_result" where
  "removeNoThrow_remote tenv key value tag M =
     destroyReply GF_ENOENT value tag (sendSyncRequest tenv (DestroyRequest key value (value = None)) M)"

definition removeNoThrowEX_remote ::
  "('k, 'v) thin_env \<Rightarrow> 'k \<Rightarrow> 'v ptr \<Rightarrow> version_tag option \<Rightarrow> ('k, 'v) entries_map \<Rightarrow> ('k, 'v) remote_result" where
  "removeNoThrowEX_remote tenv key value tag M =
     destroyReply GF_ENOENT value tag (sendSyncRequest tenv (DestroyRequest key None False) M)"

text \<open>The virtual operations of a region, as the region calls them.\<close>

fun thin_remote ::
  "('k, 'v) thin_env \<Rightarrow> entry_action option \<Rightarrow> 'k \<Rightarrow> 'v ptr \<Rightarrow> version_tag option \<Rightarrow> ('k, 'v) entries_map \<Rightarrow>
   ('k, 'v) remote_result" where
  "thin_remote tenv None key value tag M = getNoThrow_remote tenv key value tag M"
| "thin_remote tenv (Some PutAction) key value tag M = putNoThrow_remote tenv key value tag True M"
| "thin_remote tenv (Some CreateAction) key value tag M = createNoThrow_remote tenv key value tag M"
| "thin_remote tenv (Some DestroyAction) key value tag M = destroyNoThrow_remote tenv key value tag M"
| "thin_remote tenv (Some RemoveAction) key value tag M = removeNoThrow_remote tenv key value tag M"
| "thin_remote tenv (Some RemoveActionEx) key value tag M = removeNoThrowEX_remote tenv key value tag M"
| "thin_remote tenv (Some InvalidateAction) key value tag M = invalidateNoThrow_remote tenv key value tag M"

definition destroyRegionNoThrow_remote :: "('k, 'v) thin_env \<Rightarrow> ('k, 'v) entries_map \<Rightarrow> gf_err" where
  "destroyRegionNoThrow_remote tenv M =
     (let (err, reply, _) = sendSyncRequest tenv DestroyRegionRequest M in
      if err \<noteq> GF_NOERR then err
      else
        (case rp_type reply of
           REPLY \<Rightarrow> GF_NOERR
         | EXCEPTION \<Rightarrow> handleServerException (rp_exception reply)
         | DESTROY_REGION_DATA_ERROR \<Rightarrow> GF_CACHE_REGION_DESTROYED_EXCEPTION
         | _ \<Rightarrow> GF_MSG))"

text \<open>
  The operations that answer the application directly: an error code is the exception thrown
  for it. A request that fails makes \<open>containsKeyOnServer\<close> return the error code, which
  converts to true, and \<open>containsValueForKey\<close> return false. The size is that of an integer
  object, whose absence is not checked.
\<close>

definition boolReply :: "'v reply \<Rightarrow> gf_err + bool" where
  "boolReply reply =
     (case rp_type reply of
        RESPONSE \<Rightarrow> Inr (rp_bool reply)
      | EXCEPTION \<Rightarrow> Inl (handleServerException (rp_exception reply))
      | REQUEST_DATA_ERROR \<Rightarrow> Inl GF_CACHESERVER_EXCEPTION
      | _ \<Rightarrow> Inl GF_MSG)"

definition containsKeyOnServer :: "('k, 'v) thin_env \<Rightarrow> 'k \<Rightarrow> ('k, 'v) entries_map \<Rightarrow> gf_err + bool" where
  "containsKeyOnServer tenv key M =
     (let (err, reply, _) = sendSyncRequest tenv (ContainsKeyRequest key True) M in
      if err \<noteq> GF_NOERR then Inr True else boolReply reply)"

definition containsValueForKey_server :: "('k, 'v) thin_env \<Rightarrow> 'k \<Rightarrow> ('k, 'v) entries_map \<Rightarrow> gf_err + bool" where
  "containsValueForKey_server tenv key M =
     (let (err, reply, _) = sendSyncRequest tenv (ContainsKeyRequest key False) M in
      if err \<noteq> GF_NOERR then Inr False else boolReply reply)"

definition size_server :: "('k, 'v) thin_env \<Rightarrow> ('k, 'v) entries_map \<Rightarrow> gf_exn + (gf_err + u32)" where
  "size_server tenv M =
     (let (err, reply, _) = sendSyncRequest tenv SizeRequest M in
      if err \<noteq> GF_NOERR then Inr (Inl err)
      else
        (case rp_type reply of
           RESPONSE \<Rightarrow> (case rp_size reply of None \<Rightarrow> Inl MemoryFault | Some n \<Rightarrow> Inr (Inr n))
         | EXCEPTION \<Rightarrow> Inr (Inl (handleServerException (rp_exception reply)))
         | SIZE_ERROR \<Rightarrow> Inr (Inl GF_CACHESERVER_EXCEPTION)
         | _ \<Rightarrow> Inr (Inl GF_NOTOBJ)))"

definition thin_fullObject :: "('k, 'v) thin_env \<Rightarrow> 'v ptr \<Rightarrow> gf_err \<times> 'v ptr \<times> version_tag option" where
  "thin_fullObject tenv fullObj =
     (let (err, reply) = requestEventValue tenv
      in (err, if err = GF_NOERR then rp_value reply else fullObj, rp_tag reply))"

text \<open>Clearing a region: the local copy first, then the servers, then the listener.\<close>

definition clear_thin ::
  "('k, 'v) region_env \<Rightarrow> ('k, 'v) thin_env \<Rightarrow> ('k, 'v) region \<Rightarrow> gf_err \<times> ('k, 'v) region" where
  "clear_thin env tenv R =
     (let (err, R1) = localClearNoThrow env NORMAL R in
      if err \<noteq> GF_NOERR then (err, R1)
      else
        let (err1, reply, M) = sendSyncRequest tenv ClearRequest (rg_entries R1); R2 = set_entries M R1 in
        if err1 \<noteq> GF_NOERR then (err1, R2)
        else
          (case rp_type reply of
             REPLY \<Rightarrow> invokeCacheListenerForRegionEvent env NORMAL AFTER_REGION_CLEAR R2
           | EXCEPTION \<Rightarrow> (handleServerException (rp_exception reply), R2)
           | CLEAR_REGION_DATA_ERROR \<Rightarrow> (GF_CACHESERVER_EXCEPTION, R2)
           | _ \<Rightarrow> (GF_MSG, R2)))"

section \<open>The changes of a transaction\<close>

definition txDestroy ::
  "('k, 'v) region_env \<Rightarrow> 'k option \<Rightarrow> version_tag option \<Rightarrow> ('k, 'v) region \<Rightarrow>
   gf_exn + (gf_err \<times> 'v ptr \<times> ('k, 'v) region)" where
  "txDestroy env key tag R = destroyNoThrowTX env key (-1) NORMAL tag R"

definition txInvalidate ::
  "('k, 'v) region_env \<Rightarrow> 'k option \<Rightarrow> version_tag option \<Rightarrow> ('k, 'v) region \<Rightarrow>
   gf_exn + (gf_err \<times> 'v ptr \<times> ('k, 'v) region)" where
  "txInvalidate env key tag R = invalidateNoThrowTX env key (-1) NORMAL tag R"

definition txPut ::
  "('k, 'v) region_env \<Rightarrow> 'k option \<Rightarrow> 'v ptr \<Rightarrow> version_tag option \<Rightarrow> ('k, 'v) region \<Rightarrow>
   gf_exn + (gf_err \<times> 'v ptr \<times> ('k, 'v) region)" where
  "txPut env key value tag R = putNoThrowTX env key value None (-1) NORMAL tag None R"

section \<open>The contract with the server\<close>

text \<open>
  What is asked of the network: other threads keep the map consistent and touch only keys
  of a given set, and the value of a reply is one that a map can store, or none.
\<close>

definition sound_network :: "('k \<Rightarrow> u32) \<Rightarrow> 'k set \<Rightarrow> ('k, 'v) thin_env \<Rightarrow> bool" where
  "sound_network hashcode K tenv \<longleftrightarrow>
     (\<forall>request M err reply M'. map_inv hashcode M \<longrightarrow> sendSyncRequest tenv request M = (err, reply, M') \<longrightarrow>
        kept hashcode K M M') \<and>
     (\<forall>request M. let v = rp_value (fst (snd (sendSyncRequest tenv request M)))
        in v = None \<or> storable v \<or> v = Some TombstoneToken)"

lemma sound_network_kept:
  "sound_network hashcode K tenv \<Longrightarrow> map_inv hashcode M \<Longrightarrow> sendSyncRequest tenv request M = (err, reply, M') \<Longrightarrow>
   kept hashcode K M M'"
  by (auto simp: sound_network_def)

lemma put_remote_kept:
  assumes net: "sound_network hashcode K tenv" and inv: "map_inv hashcode M"
    and run: "putNoThrow_remote tenv key value tag checkDelta M = (err, value', tag', M')"
  shows "kept hashcode K M M' \<and> value' = value"
proof -
  let ?delta = "checkDelta \<and> value \<noteq> None \<and> deltas tenv \<and> hasDelta tenv value"
  obtain e0 r0 M0 where s0: "sendSyncRequest tenv (PutRequest key value ?delta False) M = (e0, r0, M0)"
    by (cases "sendSyncRequest tenv (PutRequest key value ?delta False) M")
  obtain e1 r1 M1 where s1: "sendSyncRequest tenv (PutRequest key value False True) M0 = (e1, r1, M1)"
    by (cases "sendSyncRequest tenv (PutRequest key value False True) M0")
  note k0 = sound_network_kept[OF net inv s0]
  note k1 = kept_trans[OF k0 sound_network_kept[OF net kept_inv[OF k0] s1]]
  show ?thesis
    using run s0 s1 k0 k1
    by (cases "?delta \<and> rp_type r0 = PUT_DELTA_ERROR")
      (auto simp: putNoThrow_remote_def Let_def split: if_splits message_type.splits)
qed

lemma destroyReply_kept:
  "destroyReply notFound value tag (e, reply, M1) = (err, value', tag', M') \<Longrightarrow> M' = M1 \<and> value' = value"
  by (auto simp: destroyReply_def split: if_splits message_type.splits)

text \<open>A region whose operations go to a sound network keeps the laws of \<open>server_link\<close>.\<close>

lemma thin_remote_link:
  assumes net: "sound_network hashcode K tenv"
  shows "server_link hashcode K (thin_remote tenv)"
proof
  fix M :: "('a, 'b) entries_map" and a k v t err v' t' M'
  assume inv: "map_inv hashcode M" and run: "thin_remote tenv a k v t M = (err, v', t', M')"
  show "kept hashcode K M M'"
  proof (cases "a = Some PutAction \<or> a = Some CreateAction")
    case True
    then show ?thesis using run put_remote_kept[OF net inv] by (auto simp: createNoThrow_remote_def)
  next
    case False
    then obtain request e reply where "sendSyncRequest tenv request M = (e, reply, M')"
      using run
      by (cases "(tenv, a, k, v, t, M)" rule: thin_remote.cases)
        (auto simp: getNoThrow_remote_def invalidateNoThrow_remote_def destroyNoThrow_remote_def removeNoThrow_remote_def
          removeNoThrowEX_remote_def destroyReply_def Let_def split: prod.splits if_splits message_type.splits)
    then show ?thesis by (rule sound_network_kept[OF net inv])
  qed
next
  fix M :: "('a, 'b) entries_map" and a k v t err v' t' M'
  assume run: "thin_remote tenv a k v t M = (err, v', t', M')" and v: "v \<in> {None, Some InvalidToken}"
  have "v' = v \<or> v' = rp_value (fst (snd (sendSyncRequest tenv (GetRequest k) M)))"
    using run
    by (cases "(tenv, a, k, v, t, M)" rule: thin_remote.cases)
      (auto simp: getNoThrow_remote_def invalidateNoThrow_remote_def destroyNoThrow_remote_def removeNoThrow_remote_def
        removeNoThrowEX_remote_def destroyReply_def createNoThrow_remote_def putNoThrow_remote_def Let_def
        split: prod.splits if_splits message_type.splits)
  then show "v' = None \<or> storable v' \<or> v' = Some TombstoneToken"
  proof
    assume "v' = v"
    then show ?thesis using v by (auto simp: storable_def stored_def)
  next
    assume "v' = rp_value (fst (snd (sendSyncRequest tenv (GetRequest k) M)))"
    then show ?thesis using net by (simp only: sound_network_def Let_def)
  qed
qed

end
