(* ===== verification/Subscription.thy ===== *)
theory Subscription
  imports Thin_Client Event_Id_Map
begin

text \<open>
  The events that servers push to a client: the loop that receives them
  (\<open>TcrEndpoint.cpp\<close>), the cache that finds the region they are for (\<open>CacheImpl.cpp\<close>), and
  the handler that applies them (\<open>ThinClientRegion.cpp\<close>, \<open>ThinClientHARegion.cpp\<close>). It puts
  the filter for duplicates of \<open>Event_Id_Map\<close> in front of the regions of \<open>Region_Tree\<close>.

  The model has one redundancy manager, which the endpoint and the regions share, as in a
  client with one pool. Continuous queries have a state of their own, which is not part of it.
\<close>

section \<open>The handler of a region\<close>

datatype ('k, 'v) notification =
    LOCAL_INVALIDATE 'k "version_tag option"
  | LOCAL_DESTROY 'k "version_tag option"
  | CLEAR_REGION
  | LOCAL_DESTROY_REGION
  | LOCAL_CREATE 'k "'v ptr" "version_tag option" "data_input option"
  | LOCAL_UPDATE 'k "'v ptr" "version_tag option" "data_input option"
  | TOMBSTONE_OPERATION "(member option \<times> u64) list option" "'k list"
  | CLIENT_MARKER
  | AllEndpointsDisconnected
  | OTHER_NOTIFICATION

definition setProcessedMarker :: "('k, 'v) region_env \<Rightarrow> bool \<Rightarrow> ('k, 'v) region \<Rightarrow> ('k, 'v) region" where
  "setProcessedMarker env mark R = (if haRegion env then R\<lparr>m_processedMarker := mark\<rparr> else R)"

text \<open>The marker: only the subclass for high availability acts on it.\<close>

definition handleMarker :: "('k, 'v) region_env \<Rightarrow> ('k, 'v) region \<Rightarrow> ('k, 'v) region" where
  "handleMarker env R =
     (if \<not> haRegion env \<or> m_destroyPending R then R
      else
        (if listener env \<noteq> None \<and> \<not> m_processedMarker R then log_call (RegionCall AfterRegionLive) R else R)
          \<lparr>m_processedMarker := True\<rparr>)"

definition invokeAfterAllEndPointDisconnected :: "('k, 'v) region_env \<Rightarrow> ('k, 'v) region \<Rightarrow> ('k, 'v) region" where
  "invokeAfterAllEndPointDisconnected env R =
     (if listener env \<noteq> None then log_call (RegionCall AfterRegionDisconnected) R else R)"

text \<open>The result is the error code, whether the region leaves its parent's table, and the region.\<close>

definition on_region ::
  "('k, 'v) region_env \<Rightarrow> (string \<times> ('k, 'v) region_tree) list \<Rightarrow> gf_exn + (gf_err \<times> 'a \<times> ('k, 'v) region) \<Rightarrow>
   gf_exn + (gf_err \<times> bool \<times> ('k, 'v) region_tree)" where
  "on_region env subs res = andThen res (\<lambda>(err, _, R). Inr (err, False, RegionNode env R subs))"

fun notify :: "('k, 'v) notification \<Rightarrow> ('k, 'v) region_tree \<Rightarrow> gf_exn + (gf_err \<times> bool \<times> ('k, 'v) region_tree)" where
  "notify (LOCAL_INVALIDATE key tag) (RegionNode env R subs) =
     andThen (on_region env subs (invalidateNoThrow env (Some key) (-1) (NOTIFICATION OR LOCAL) tag R))
       (\<lambda>(_, gone, t). Inr (GF_NOERR, gone, t))"
| "notify (LOCAL_DESTROY key tag) (RegionNode env R subs) =
     on_region env subs (destroyNoThrow env (Some key) (-1) (NOTIFICATION OR LOCAL) tag R)"
| "notify CLEAR_REGION (RegionNode env R subs) =
     (let (err, R1) = localClearNoThrow env (NOTIFICATION OR LOCAL) R in Inr (err, False, RegionNode env R1 subs))"
| "notify LOCAL_DESTROY_REGION t = Inr (destroyRegionNoThrow (NOTIFICATION OR LOCAL) t)"
| "notify (LOCAL_CREATE key value tag delta) (RegionNode env R subs) =
     on_region env subs (putNoThrow env (Some key) value None (-1) (NOTIFICATION OR LOCAL) tag None R)"
| "notify (LOCAL_UPDATE key value tag delta) (RegionNode env R subs) =
     on_region env subs
       (putNoThrow env (Some key) value None (-1) (NOTIFICATION OR NOTIFICATION_UPDATE OR LOCAL) tag delta R)"
| "notify (TOMBSTONE_OPERATION versions keys) (RegionNode env R subs) =
     (let (members, R1) = tombstoneOperationNoThrow env versions keys R
      in Inr (GF_NOERR, False, RegionNode (env\<lparr>rg_seg := (rg_seg env)\<lparr>env_members := members\<rparr>\<rparr>) R1 subs))"
| "notify AllEndpointsDisconnected (RegionNode env R subs) =
     Inr (GF_NOERR, False,
       RegionNode env (invokeAfterAllEndPointDisconnected env (setProcessedMarker env False R)) subs)"
| "notify CLIENT_MARKER t = Inr (GF_MSG, False, t)"
| "notify OTHER_NOTIFICATION t = Inr (GF_MSG, False, t)"

fun hasDelta_msg :: "('k, 'v) notification \<Rightarrow> bool" where
  "hasDelta_msg (LOCAL_UPDATE key value tag delta) = (delta \<noteq> None)"
| "hasDelta_msg (LOCAL_CREATE key value tag delta) = (delta \<noteq> None)"
| "hasDelta_msg _ = False"

text \<open>A durable client, and a delta, have their event recorded as processed at the end.\<close>

definition clientNotificationHandler ::
  "int \<Rightarrow> event_id \<Rightarrow> ('k, 'v) notification \<Rightarrow> ('k, 'v) region_tree \<Rightarrow> event_id_map \<Rightarrow>
   gf_exn + (gf_err \<times> bool \<times> ('k, 'v) region_tree \<times> event_id_map)" where
  "clientNotificationHandler now ev msg t m =
     andThen (notify msg t) (\<lambda>(err, gone, t1).
       if \<not> m_destroyPending (rt_region t1) \<and> (isDurableClient (rt_env t1) \<or> hasDelta_msg msg) \<and>
          msg \<noteq> AllEndpointsDisconnected
       then andThen (checkDupAndAdd now ev m) (\<lambda>(_, m1). Inr (err, gone, t1, m1))
       else Inr (err, gone, t1, m))"

definition receiveNotification ::
  "int \<Rightarrow> event_id \<Rightarrow> ('k, 'v) notification \<Rightarrow> ('k, 'v) region_tree \<Rightarrow> event_id_map \<Rightarrow>
   gf_exn + (bool \<times> ('k, 'v) region_tree \<times> event_id_map)" where
  "receiveNotification now ev msg t m =
     (if m_destroyPending (rt_region t) then Inr (False, t, m)
      else if msg = CLIENT_MARKER
      then Inr (False, RegionNode (rt_env t) (handleMarker (rt_env t) (rt_region t)) (rt_subs t), m)
      else andThen (clientNotificationHandler now ev msg t m) (\<lambda>(_, gone, t1, m1). Inr (gone, t1, m1)))"

section \<open>The regions of a cache\<close>

record ('k, 'v) cache =
  m_regions :: "(string \<times> ('k, 'v) region_tree) list"
  m_closed :: bool
  c_destroyPending :: bool
  redundancyManager :: ack_state
  m_globalProcessedMarker :: bool
  m_dupCount :: u32

abbreviation event_map :: "('k, 'v) cache \<Rightarrow> event_id_map" where
  "event_map c \<equiv> m_eventidmap (redundancyManager c)"

definition set_event_map :: "event_id_map \<Rightarrow> ('k, 'v) cache \<Rightarrow> ('k, 'v) cache" where
  "set_event_map m c = c\<lparr>redundancyManager := (redundancyManager c)\<lparr>m_eventidmap := m\<rparr>\<rparr>"

lemma set_event_map_sel [simp]:
  "m_regions (set_event_map m c) = m_regions c" "m_closed (set_event_map m c) = m_closed c"
  "c_destroyPending (set_event_map m c) = c_destroyPending c" "event_map (set_event_map m c) = m"
  "m_dupCount (set_event_map m c) = m_dupCount c"
  by (simp_all add: set_event_map_def)

lemma set_event_map_same [simp]: "set_event_map (event_map c) c = c"
  by (simp add: set_event_map_def)

definition getRegion :: "string \<Rightarrow> ('k, 'v) cache \<Rightarrow> gf_exn + ('k, 'v) region_tree option" where
  "getRegion path c =
     (if m_closed c then Inl CacheClosedException
      else if c_destroyPending c then Inr None
      else if path = ''/'' \<or> length path < 1 then Inl IllegalArgumentException
      else
        let fullname = (if take 1 path = ''/'' then drop 1 path else path);
            stepname = takeWhile (\<lambda>ch. ch \<noteq> CHR ''/'') fullname
        in case al_find (m_regions c) stepname of
             None \<Rightarrow> Inr None
           | Some region \<Rightarrow>
               if stepname \<noteq> fullname then getSubregion (drop (length stepname + 1) fullname) region
               else Inr (Some region))"

text \<open>
  The regions are objects that the tables point to. \<open>path_steps\<close> are the names that a path
  is looked up by, and \<open>store_region\<close> is the table after the region at the end of the
  names has changed, or has left its parent's table.
\<close>

function path_steps :: "string \<Rightarrow> string list" where
  "path_steps path =
     (let fullname = (if take 1 path = ''/'' then drop 1 path else path);
          stepname = takeWhile (\<lambda>ch. ch \<noteq> CHR ''/'') fullname
      in if stepname = fullname then [stepname]
         else stepname # path_steps (drop (length stepname + 1) fullname))"
  by pat_completeness auto
termination by (relation "measure length") (auto intro!: diff_less dest: in_set_dropD length_pos_if_in_set)

declare path_steps.simps [simp del]

fun store_region ::
  "string list \<Rightarrow> ('k, 'v) region_tree option \<Rightarrow> (string \<times> ('k, 'v) region_tree) list \<Rightarrow>
   (string \<times> ('k, 'v) region_tree) list" where
  "store_region [] r subs = subs"
| "store_region [name] r subs = (case r of None \<Rightarrow> al_erase name subs | Some t \<Rightarrow> al_assign name t subs)"
| "store_region (name # names) r subs =
     (case al_find subs name of
        None \<Rightarrow> subs
      | Some t \<Rightarrow> al_assign name (RegionNode (rt_env t) (rt_region t) (store_region names r (rt_subs t))) subs)"

fun mark_tree :: "('k, 'v) region_tree \<Rightarrow> ('k, 'v) region_tree"
  and mark_subs :: "(string \<times> ('k, 'v) region_tree) list \<Rightarrow> (string \<times> ('k, 'v) region_tree) list" where
  "mark_tree (RegionNode env R subs) = RegionNode env (handleMarker env R) (mark_subs subs)"
| "mark_subs [] = []"
| "mark_subs ((name, t) # subs) = (name, mark_tree t) # mark_subs subs"

definition processMarker :: "('k, 'v) cache \<Rightarrow> ('k, 'v) cache" where
  "processMarker c =
     (if c_destroyPending c then c
      else c\<lparr>m_regions := map (\<lambda>(name, t).
        (name, if \<not> m_destroyPending (rt_region t) \<and> haRegion (rt_env t) then mark_tree t else t)) (m_regions c)\<rparr>)"

section \<open>Receiving\<close>

record ('k, 'v) message =
  msg_type :: "('k, 'v) notification"
  msg_region :: string
  msg_event :: event_id
  msg_hasCqPart :: bool
  msg_shouldIgnore :: bool

text \<open>
  One round of the loop. \<open>attached\<close> is whether the region's distribution manager knows the
  endpoint. The loop logs an exception and goes on to the next message; what the round has recorded of the event
  stays. The entry map raises its exceptions before it changes.
\<close>

definition dispatch ::
  "int \<Rightarrow> ('k, 'v) message \<Rightarrow> ('k, 'v) cache \<Rightarrow> gf_exn + ('k, 'v) cache" where
  "dispatch now msg c =
     (if msg_type msg = CLIENT_MARKER then Inr ((processMarker c)\<lparr>m_globalProcessedMarker := True\<rparr>)
      else if msg_hasCqPart msg then Inr c
      else
        andThen (getRegion (msg_region msg) c) (\<lambda>region.
          case region of
            None \<Rightarrow> Inr c
          | Some t \<Rightarrow>
              andThen (receiveNotification now (msg_event msg) (msg_type msg) t (event_map c)) (\<lambda>(gone, t1, m1).
                Inr (set_event_map m1 (c\<lparr>m_regions :=
                  store_region (path_steps (msg_region msg)) (if gone then None else Some t1) (m_regions c)\<rparr>)))))"

definition logged :: "('k, 'v) cache \<Rightarrow> gf_exn + ('k, 'v) cache \<Rightarrow> gf_exn + ('k, 'v) cache" where
  "logged c res = (case res of Inl e \<Rightarrow> if e = MemoryFault then Inl e else Inr c | Inr c' \<Rightarrow> Inr c')"

definition receive_message ::
  "(('k, 'v) region_tree \<Rightarrow> bool) \<Rightarrow> int \<Rightarrow> ('k, 'v) message \<Rightarrow> ('k, 'v) cache \<Rightarrow> gf_exn + ('k, 'v) cache" where
  "receive_message attached now msg c =
     (if msg_shouldIgnore msg then Inr c
      else
        logged c (andThen
          (if \<not> msg_hasCqPart msg \<and> msg_type msg \<noteq> CLIENT_MARKER
           then andThen (getRegion (msg_region msg) c) (\<lambda>region.
                  Inr (case region of None \<Rightarrow> False | Some t \<Rightarrow> \<not> attached t))
           else Inr False)
          (\<lambda>drop_event.
             if drop_event then Inr c
             else
               andThen (checkDupAndAdd now (msg_event msg) (event_map c)) (\<lambda>(new, m).
                 if \<not> new then Inr (set_event_map m (c\<lparr>m_dupCount := m_dupCount c + 1\<rparr>))
                 else logged (set_event_map m c) (dispatch now msg (set_event_map m c))))))"

text \<open>The loop, and between its rounds the periodic task of the redundancy manager, which expires events.\<close>

datatype ('k, 'v) client_step = Message "('k, 'v) message" | PeriodicAck "(event_id list \<Rightarrow> bool) option"

fun receive_loop ::
  "(('k, 'v) region_tree \<Rightarrow> bool) \<Rightarrow> byte list \<Rightarrow> (int \<times> ('k, 'v) client_step) list \<Rightarrow> ('k, 'v) cache \<Rightarrow> gf_exn + ('k, 'v) cache" where
  "receive_loop attached junk [] c = Inr c"
| "receive_loop attached junk ((now, Message msg) # steps) c =
     andThen (receive_message attached now msg c) (\<lambda>c1. receive_loop attached junk steps c1)"
| "receive_loop attached junk ((now, PeriodicAck request) # steps) c =
     andThen (doPeriodicAck junk request now (redundancyManager c)) (\<lambda>st.
       receive_loop attached junk steps (c\<lparr>redundancyManager := st\<rparr>))"

section \<open>Looking up and storing\<close>

text \<open>The region that a list of names leads to.\<close>

fun find_at :: "string list \<Rightarrow> (string \<times> ('k, 'v) region_tree) list \<Rightarrow> ('k, 'v) region_tree option" where
  "find_at [] subs = None"
| "find_at [name] subs = al_find subs name"
| "find_at (name # names) subs = (case al_find subs name of None \<Rightarrow> None | Some t \<Rightarrow> find_at names (rt_subs t))"

lemma find_at_Cons:
  assumes "ns \<noteq> []"
  shows "find_at (n # ns) subs = (case al_find subs n of None \<Rightarrow> None | Some t \<Rightarrow> find_at ns (rt_subs t))"
proof -
  obtain m ms where ns: "ns = m # ms" using assms by (cases ns) auto
  show ?thesis unfolding ns by simp
qed

lemma path_steps_nonempty [simp]: "path_steps path \<noteq> []"
  by (subst path_steps.simps) (simp add: Let_def)

text \<open>One step of a lookup, for the two functions that make it.\<close>

lemma find_step:
  assumes full: "full = (if take 1 path = ''/'' then drop 1 path else path)"
    and step: "step = takeWhile (\<lambda>c. c \<noteq> CHR ''/'') full" and found: "al_find subs step = Some s"
    and rest: "if step = full then r = s else find_at (path_steps (drop (length step + 1) full)) (rt_subs s) = Some r"
  shows "find_at (path_steps path) subs = Some r"
proof -
  have "path_steps path = (if step = full then [step] else step # path_steps (drop (length step + 1) full))"
    by (subst path_steps.simps) (simp only: full[symmetric] step[symmetric] Let_def)
  with found rest show ?thesis by (simp add: find_at_Cons split: if_splits)
qed

lemma getSubregion_find:
  "getSubregion path t = Inr (Some r) \<Longrightarrow> find_at (path_steps path) (rt_subs t) = Some r"
proof (induction path t rule: getSubregion.induct)
  case (1 path t)
  define full where "full = (if take 1 path = ''/'' then drop 1 path else path)"
  define step where "step = takeWhile (\<lambda>c. c \<noteq> CHR ''/'') full"
  from "1.prems" have ok: "\<not> m_destroyPending (rt_region t)" "\<not> (path = ''/'' \<or> path = [])"
    by (auto simp: getSubregion.simps[of path t] split: if_splits)
  have unf: "getSubregion path t = (case findSubRegion step t of None \<Rightarrow> Inr None
      | Some region \<Rightarrow> if step = full then Inr (Some region) else getSubregion (drop (length step + 1) full) region)"
    using ok by (subst getSubregion.simps) (simp only: full_def[symmetric] step_def[symmetric] Let_def if_False)
  with "1.prems" obtain s where s: "findSubRegion step t = Some s" by (auto split: option.splits)
  have "find_at (path_steps (drop (length step + 1) full)) (rt_subs s) = Some r" if "step \<noteq> full"
    using "1.IH"[OF ok full_def step_def s that] "1.prems" that s by (simp add: unf)
  with "1.prems" s show ?case
    by (intro find_step[OF full_def step_def]) (auto simp: unf findSubRegion_def)
qed

lemma getRegion_find:
  assumes "getRegion path c = Inr (Some t)"
  shows "find_at (path_steps path) (m_regions c) = Some t"
proof -
  define full where "full = (if take 1 path = ''/'' then drop 1 path else path)"
  define step where "step = takeWhile (\<lambda>c. c \<noteq> CHR ''/'') full"
  from assms have ok: "\<not> m_closed c" "\<not> c_destroyPending c" "\<not> (path = ''/'' \<or> length path < 1)"
    by (auto simp: getRegion_def split: if_splits)
  have unf: "getRegion path c = (case al_find (m_regions c) step of None \<Rightarrow> Inr None
      | Some region \<Rightarrow> if step \<noteq> full then getSubregion (drop (length step + 1) full) region else Inr (Some region))"
    using ok unfolding getRegion_def by (simp only: full_def[symmetric] step_def[symmetric] Let_def if_False)
  with assms obtain s where s: "al_find (m_regions c) step = Some s" by (auto split: option.splits)
  with assms show ?thesis
    by (intro find_step[OF full_def step_def s]) (auto simp: unf dest: getSubregion_find)
qed

text \<open>A region that is stored where it was found is found there, and no region elsewhere changes.\<close>

lemma find_store:
  "find_at ns subs \<noteq> None \<Longrightarrow> find_at ns (store_region ns (Some r) subs) = Some r"
proof (induction ns "Some r" subs rule: store_region.induct)
  case (3 name n ns subs)
  then obtain t where "al_find subs name = Some t" by (auto split: option.splits)
  with 3 show ?case by (simp add: al_simps)
qed (simp_all add: al_simps)

text \<open>A notification that leaves its region in place is found there after its dispatch.\<close>

lemma dispatch_delivers:
  assumes "msg_type msg \<noteq> CLIENT_MARKER" "\<not> msg_hasCqPart msg" "getRegion (msg_region msg) c = Inr (Some t)"
    and "receiveNotification now (msg_event msg) (msg_type msg) t (event_map c) = Inr (False, t', m')"
  shows "\<exists>c'. dispatch now msg c = Inr c' \<and> find_at (path_steps (msg_region msg)) (m_regions c') = Some t' \<and> event_map c' = m'"
  using assms getRegion_find[OF assms(3)] by (simp add: dispatch_def find_store)

section \<open>Duplicates\<close>

text \<open>What a step at a given time keeps of the recorded events: those whose tracking time is not over.\<close>

definition keeps_record :: "int \<Rightarrow> event_id_map \<Rightarrow> event_id_map \<Rightarrow> bool" where
  "keeps_record now m m' \<longleftrightarrow> m_expiry m' = m_expiry m \<and> (eim_distinct (eim_map m) \<longrightarrow> eim_distinct (eim_map m')) \<and>
     (\<forall>limit e. remembers limit e m \<and> named_event e \<and> now \<le> limit \<and> limit \<le> now + m_expiry m \<longrightarrow> remembers limit e m')"

lemma keeps_record_refl [simp]: "keeps_record now m m"
  by (simp add: keeps_record_def)

lemma keeps_record_trans: "keeps_record now m m1 \<Longrightarrow> keeps_record now m1 m2 \<Longrightarrow> keeps_record now m m2"
  by (simp add: keeps_record_def)

lemma checkDupAndAdd_keeps:
  "checkDupAndAdd now ev m = Inr (new, m') \<Longrightarrow> event_id_ok ev \<Longrightarrow> keeps_record now m m'"
  using checkDupAndAdd_effect by (auto simp: keeps_record_def)

lemma doPeriodicAck_keeps:
  assumes "doPeriodicAck junk request now st = Inr st'"
  shows "keeps_record now (m_eventidmap st) (m_eventidmap st')"
  using ages_doPeriodicAck[OF assms] remembers_ages[OF _ ages_doPeriodicAck[OF assms]]
  by (auto simp: keeps_record_def ages_def)

lemma receiveNotification_keeps:
  assumes "receiveNotification now ev msg t m = Inr (gone, t', m')" "event_id_ok ev"
  shows "keeps_record now m m'"
proof (cases "m' = m")
  case False
  with assms(1) obtain new where "checkDupAndAdd now ev m = Inr (new, m')"
    by (auto simp: receiveNotification_def clientNotificationHandler_def andThen_Inr_conv split: if_splits)
  then show ?thesis using checkDupAndAdd_keeps assms(2) by blast
qed simp

lemma dispatch_keeps:
  assumes "dispatch now msg c = Inr c'" "event_id_ok (msg_event msg)"
  shows "keeps_record now (event_map c) (event_map c')"
proof -
  consider (same) "event_map c' = event_map c"
    | (region) gone t t' where
      "receiveNotification now (msg_event msg) (msg_type msg) t (event_map c) = Inr (gone, t', event_map c')"
    using assms(1)
    by (auto simp: dispatch_def andThen_Inr_conv processMarker_def split: if_splits option.splits)
  then show ?thesis
    by cases (use receiveNotification_keeps[OF _ assms(2)] in auto)
qed

lemma logged_Inr: "logged c res = Inr c' \<longleftrightarrow> res = Inr c' \<or> (\<exists>e. res = Inl e \<and> e \<noteq> MemoryFault \<and> c' = c)"
  by (auto simp: logged_def split: sum.splits)

lemma logged_logged [simp]: "logged a (logged b res) = logged b res"
  by (simp add: logged_def split: sum.split)

lemma logged_dispatch_keeps:
  assumes "logged (set_event_map m c) (dispatch now msg (set_event_map m c)) = Inr c'" "event_id_ok (msg_event msg)"
  shows "keeps_record now m (event_map c')"
  using assms dispatch_keeps[OF _ assms(2), of now "set_event_map m c" c'] by (auto simp: logged_Inr)

text \<open>A round that gets as far as the filter.\<close>

lemma receive_message_filtered:
  assumes "receive_message attached now msg c = Inr c'"
  obtains (untouched) "c' = c"
  | (filtered) new m where "checkDupAndAdd now (msg_event msg) (event_map c) = Inr (new, m)"
      "if new then logged (set_event_map m c) (dispatch now msg (set_event_map m c)) = Inr c' else event_map c' = m"
  using assms
  by (auto simp: receive_message_def logged_Inr andThen_Inr_conv split: if_splits)

lemma receive_message_keeps:
  assumes "receive_message attached now msg c = Inr c'" "event_id_ok (msg_event msg)"
  shows "keeps_record now (event_map c) (event_map c')"
  using assms(1)
proof (cases rule: receive_message_filtered)
  case (filtered new m)
  note k = checkDupAndAdd_keeps[OF filtered(1) assms(2)]
  show ?thesis
  proof (cases new)
    case True
    with filtered(2) have "keeps_record now m (event_map c')"
      using logged_dispatch_keeps[OF _ assms(2)] by simp
    with k show ?thesis by (rule keeps_record_trans)
  qed (use filtered(2) k in simp)
qed simp

definition messages_ok :: "(int \<times> ('k, 'v) client_step) list \<Rightarrow> bool" where
  "messages_ok steps \<longleftrightarrow> (\<forall>(t, s) \<in> set steps. case s of Message msg \<Rightarrow> event_id_ok (msg_event msg) | PeriodicAck _ \<Rightarrow> True)"

lemma receive_loop_step:
  assumes "receive_loop attached junk ((now, s) # steps) c = Inr c'" "messages_ok ((now, s) # steps)"
  obtains c1 where "keeps_record now (event_map c) (event_map c1)" "receive_loop attached junk steps c1 = Inr c'" "messages_ok steps"
proof (cases s)
  case (Message msg)
  with assms show ?thesis
    using that receive_message_keeps by (fastforce simp: andThen_Inr_conv messages_ok_def)
next
  case (PeriodicAck request)
  with assms(1) obtain st where st: "doPeriodicAck junk request now (redundancyManager c) = Inr st"
    "receive_loop attached junk steps (c\<lparr>redundancyManager := st\<rparr>) = Inr c'" by (auto simp: andThen_Inr_conv)
  show ?thesis
    by (rule that[OF _ st(2)]) (use doPeriodicAck_keeps[OF st(1)] assms(2) in \<open>simp_all add: messages_ok_def\<close>)
qed

lemma receive_loop_keeps:
  assumes "receive_loop attached junk steps c = Inr c'" "messages_ok steps"
  shows "m_expiry (event_map c') = m_expiry (event_map c)"
    and "eim_distinct (eim_map (event_map c)) \<Longrightarrow> eim_distinct (eim_map (event_map c'))"
    and "remembers limit e (event_map c) \<Longrightarrow> named_event e \<Longrightarrow>
      \<forall>(t, s) \<in> set steps. t \<le> limit \<and> limit \<le> t + m_expiry (event_map c) \<Longrightarrow> remembers limit e (event_map c')"
proof -
  have "m_expiry (event_map c') = m_expiry (event_map c) \<and>
    (eim_distinct (eim_map (event_map c)) \<longrightarrow> eim_distinct (eim_map (event_map c'))) \<and>
    (remembers limit e (event_map c) \<longrightarrow> named_event e \<longrightarrow>
      (\<forall>(t, s) \<in> set steps. t \<le> limit \<and> limit \<le> t + m_expiry (event_map c)) \<longrightarrow> remembers limit e (event_map c'))"
    using assms
  proof (induction steps arbitrary: c)
    case (Cons p steps)
    obtain now s where p: "p = (now, s)" by (cases p)
    from receive_loop_step[OF Cons.prems[unfolded p]] obtain c1 where
      c1: "keeps_record now (event_map c) (event_map c1)" "receive_loop attached junk steps c1 = Inr c'" "messages_ok steps" .
    from Cons.IH[OF c1(2,3)] c1(1) show ?case unfolding keeps_record_def p by auto
  qed simp
  then show "m_expiry (event_map c') = m_expiry (event_map c)"
    "eim_distinct (eim_map (event_map c)) \<Longrightarrow> eim_distinct (eim_map (event_map c'))"
    "remembers limit e (event_map c) \<Longrightarrow> named_event e \<Longrightarrow>
      \<forall>(t, s) \<in> set steps. t \<le> limit \<and> limit \<le> t + m_expiry (event_map c) \<Longrightarrow> remembers limit e (event_map c')"
    by blast+
qed

lemma getSubregion_no_fault: "getSubregion path t \<noteq> Inl MemoryFault"
proof (induction path t rule: getSubregion.induct)
  case (1 path t)
  define full where "full = (if take 1 path = ''/'' then drop 1 path else path)"
  define step where "step = takeWhile (\<lambda>c. c \<noteq> CHR ''/'') full"
  show ?case
  proof (cases "m_destroyPending (rt_region t) \<or> path = ''/'' \<or> path = []")
    case True
    then show ?thesis by (subst getSubregion.simps) auto
  next
    case False
    then have ok: "\<not> m_destroyPending (rt_region t)" "\<not> (path = ''/'' \<or> path = [])" by simp_all
    have "getSubregion path t = (case findSubRegion step t of None \<Rightarrow> Inr None
        | Some region \<Rightarrow> if step = full then Inr (Some region) else getSubregion (drop (length step + 1) full) region)"
      using ok by (subst getSubregion.simps) (simp only: full_def[symmetric] step_def[symmetric] Let_def if_False)
    then show ?thesis using "1.IH"[OF ok full_def step_def] by (simp split: option.split)
  qed
qed

lemma getRegion_no_fault: "getRegion path c \<noteq> Inl MemoryFault"
  by (simp add: getRegion_def getSubregion_no_fault Let_def split: option.split)

section \<open>The marker\<close>

lemma handleMarker_idem [simp]: "handleMarker env (handleMarker env R) = handleMarker env R"
  by (simp add: handleMarker_def)

lemma handleMarker_pending [simp]: "m_destroyPending (handleMarker env R) = m_destroyPending R"
  by (simp add: handleMarker_def)

lemma mark_tree_sel [simp]:
  "rt_env (mark_tree t) = rt_env t" "rt_region (mark_tree t) = handleMarker (rt_env t) (rt_region t)"
  by (cases t; simp)+

lemma mark_tree_idem:
  fixes t :: "('k, 'v) region_tree" and subs :: "(string \<times> ('k, 'v) region_tree) list"
  shows "mark_tree (mark_tree t) = mark_tree t" "mark_subs (mark_subs subs) = mark_subs subs"
  by (induction t and subs rule: mark_tree_mark_subs.induct) simp_all

lemma mark_subregions:
  fixes t :: "('k, 'v) region_tree" and subs :: "(string \<times> ('k, 'v) region_tree) list"
  shows "s \<in> set (subregions_internal True (mark_tree t)) \<Longrightarrow> \<exists>u. s = mark_tree u"
  "s \<in> set (subregions_list True (mark_subs subs)) \<Longrightarrow> \<exists>u. s = mark_tree u"
  by (induction t and subs rule: mark_tree_mark_subs.induct) (auto split: if_splits)

section \<open>Updates with versions\<close>

text \<open>The flags of the notifications.\<close>

lemma notification_flags [simp]:
  "isNotification (NOTIFICATION OR NOTIFICATION_UPDATE OR LOCAL)"
  "\<not> isNoCallbacks (NOTIFICATION OR NOTIFICATION_UPDATE OR LOCAL)"
  "\<not> invokeCacheWriter (NOTIFICATION OR NOTIFICATION_UPDATE OR LOCAL)"
  by (simp_all add: flag_tests flag_defs)

text \<open>
  A put of an update into the entry map, when it ends without an error or with a conflict:
  the region has the map that the put leaves.
\<close>

lemma notify_update:
  assumes "cachingEnabled env" "getProcessedMarker env R" "\<not> inTransaction env" "\<not> m_destroyPending R"
    and put: "put_map (rg_hash env) (rg_seg env) key (Some (Obj v)) (-1) 0 tag None (rg_entries R) = Inr (r, M)"
    and err: "r_err r = GF_NOERR \<or> r_err r = GF_CACHE_CONCURRENT_MODIFICATION_EXCEPTION"
  shows "\<exists>err R'. notify (LOCAL_UPDATE key (Some (Obj v)) tag None) (RegionNode env R subs) =
    Inr (err, False, RegionNode env R' subs) \<and> rg_entries R' = M \<and> m_destroyPending R' = m_destroyPending R \<and>
    m_processedMarker R' = m_processedMarker R"
proof -
  let ?flags = "NOTIFICATION OR NOTIFICATION_UPDATE OR LOCAL"
  define go where "go = (r_err r = GF_NOERR)"
  define old where "old = old_after_put (slot_value (rg_hash env) key (rg_entries R)) r None"
  have l: "localStep env PutAction key (Some (Obj v)) None ?flags (-1) tag None GF_ENOENT False R =
      Inr (go, GF_NOERR, old, r_newValue r, set_entries M R)"
    using assms(1,2) err put by (auto simp: localStep_def putLocal_def entries_put_def go_def old_def Let_def)
  obtain e o' R' where f: "listenerStep env PutAction key ?flags (go, GF_NOERR, old, r_newValue r, set_entries M R) = (e, o', R')"
    by (metis prod_cases3)
  then have "rg_entries R' = M \<and> m_destroyPending R' = m_destroyPending R \<and> m_processedMarker R' = m_processedMarker R"
    by (auto simp: listenerStep_def invokeCacheListenerForEntryEvent_def log_call_def set_entries_def Let_def
        split: if_splits option.splits)
  moreover have "notify (LOCAL_UPDATE key (Some (Obj v)) tag None) (RegionNode env R subs) = Inr (e, False, RegionNode env R' subs)"
    using assms(3,4) l f
    by (simp add: on_region_def putNoThrow_def updateNoThrow_def checkArgs_def writerStep_def propagate_def)
  ultimately show ?thesis by blast
qed

lemma notify_update_put:
  assumes "cachingEnabled env" "getProcessedMarker env R" "\<not> inTransaction env" "\<not> m_destroyPending R"
    and "notify (LOCAL_UPDATE key (Some (Obj v)) tag None) (RegionNode env R subs) = Inr res"
  obtains r M where "put_map (rg_hash env) (rg_seg env) key (Some (Obj v)) (-1) 0 tag None (rg_entries R) = Inr (r, M)"
proof (cases "put_map (rg_hash env) (rg_seg env) key (Some (Obj v)) (-1) 0 tag None (rg_entries R)")
  case (Inl x)
  then have "localStep env PutAction key (Some (Obj v)) None (NOTIFICATION OR NOTIFICATION_UPDATE OR LOCAL) (-1) tag None
      GF_ENOENT False R = Inl x"
    using assms(1,2) by (simp add: localStep_def putLocal_def entries_put_def Let_def)
  with assms show ?thesis
    by (simp add: on_region_def putNoThrow_def updateNoThrow_def checkArgs_def writerStep_def propagate_def)
next
  case (Inr b)
  then show ?thesis using that by (cases b) simp
qed

text \<open>What a put with a tag does to the slot of its key.\<close>

lemma put_versioned:
  assumes inv: "map_inv hashcode M" and run: "put_map hashcode env key (Some (Obj v)) uc dt (Some t) None M = Inr (r, M')"
  shows "slot_of hashcode key M = None \<Longrightarrow>
      r_err r = GF_NOERR \<and> (\<exists>i. slot_of hashcode key M' = Some (MapEntryT i) \<and> e_value i = Some (Obj v) \<and>
        e_stamp i = setVersions t new_VersionStamp)"
    and "slot_of hashcode key M = Some (MapEntryT i) \<Longrightarrow> e_value i = Some (Obj w) \<Longrightarrow>
      checkForConflict (env_members env) t False (e_stamp i) = Inr e \<Longrightarrow> r_err r = e"
proof -
  let ?s = "m_segments M ! segmentIdx hashcode key M"
  note at = segmentFor_inv[OF inv, of key]
  from run at obtain s' where p: "put_seg env (sint (m_numDestroyTrackers M)) key (Some (Obj v)) uc dt (Some t) None ?s = Inr (r, s')"
    and M': "slot_of hashcode key M' = al_find (m_map s') key"
    by (auto simp: put_map_def on_segment_def andThen_Inr_conv slot_of_def add_size_def segmentIdx_def split: if_splits)
  then obtain s1 where s1: "check_rehash ?s = Inr s1" by (auto simp: put_seg_def andThen_Inr_conv)
  note conc = conc_inv_D[OF conc_inv_check_rehash[OF s1 at(3)]]
  have slot: "al_find (m_map s1) key = slot_of hashcode key M"
    using check_rehash_Inr[OF s1] by (simp add: slot_of_def)
  show "r_err r = GF_NOERR \<and> (\<exists>i. slot_of hashcode key M' = Some (MapEntryT i) \<and> e_value i = Some (Obj v) \<and>
      e_stamp i = setVersions t new_VersionStamp)" if "slot_of hashcode key M = None"
  proof -
    obtain err me s2 where pn: "putNoEntry (sint (m_numDestroyTrackers M)) key (Some (Obj v)) uc dt (Some t) None s1 = (err, me, s2)"
      by (metis prod_cases3)
    from p s1 slot that pn have "r_err r = err" "s' = s2" by (auto simp: put_seg_def result_def)
    with putNoEntry_conc[OF conc _ pn] slot that M' show ?thesis by (metis (no_types, lifting) option.simps(5))
  qed
  show "r_err r = e" if "slot_of hashcode key M = Some (MapEntryT i)" "e_value i = Some (Obj w)"
    "checkForConflict (env_members env) t False (e_stamp i) = Inr e"
    using p s1 slot that conc
    by (cases "e = GF_NOERR")
      (auto simp: put_seg_def Let_def next_stamp_conc putForTrackedEntry_conc[OF conc refl] result_def getValueI_def
        split: if_splits)
qed

text \<open>A region that takes the updates of a server.\<close>

definition takes_updates :: "('k, 'v) region_env \<Rightarrow> ('k, 'v) region \<Rightarrow> bool" where
  "takes_updates env R \<longleftrightarrow> cachingEnabled env \<and> getProcessedMarker env R \<and> \<not> inTransaction env \<and> \<not> m_destroyPending R \<and>
     map_inv (rg_hash env) (rg_entries R)"

text \<open>Two updates in a row of a key that the region does not have: the second may lose.\<close>

lemma two_updates:
  assumes up: "takes_updates env R" and absent: "slot_of (rg_hash env) key (rg_entries R) = None"
    and a: "checkForConflict (env_members (rg_seg env)) t2 False (setVersions t1 new_VersionStamp) = Inr a"
      "a = GF_NOERR \<or> a = GF_CACHE_CONCURRENT_MODIFICATION_EXCEPTION"
    and run1: "notify (LOCAL_UPDATE key (Some (Obj v1)) (Some t1) None) (RegionNode env R subs) = Inr (e1, g1, n1)"
    and run2: "notify (LOCAL_UPDATE key (Some (Obj v2)) (Some t2) None) n1 = Inr (e2, g2, n2)"
  shows "lookup_map (rg_hash env) (rg_entries (rt_region n2)) =
    (lookup_map (rg_hash env) (rg_entries R))(key \<mapsto> Obj (if a = GF_NOERR then v2 else v1))"
proof -
  note up' = up[unfolded takes_updates_def]
  obtain r1 M1 where p1: "put_map (rg_hash env) (rg_seg env) key (Some (Obj v1)) (-1) 0 (Some t1) None (rg_entries R) = Inr (r1, M1)"
    using notify_update_put[OF _ _ _ _ run1] up' by blast
  have inv: "map_inv (rg_hash env) (rg_entries R)" using up' by simp
  note first = put_versioned(1)[OF inv p1 absent]
  then obtain i where i: "slot_of (rg_hash env) key M1 = Some (MapEntryT i)" "e_value i = Some (Obj v1)"
    "e_stamp i = setVersions t1 new_VersionStamp" and ok1: "r_err r1 = GF_NOERR" by blast
  have st: "storable (Some (Obj v))" for v :: 'b by (simp add: storable_def)
  note m1 = put_map_refines[OF inv st p1]
  obtain err R1 where n1: "notify (LOCAL_UPDATE key (Some (Obj v1)) (Some t1) None) (RegionNode env R subs) =
      Inr (err, False, RegionNode env R1 subs)" "rg_entries R1 = M1" "m_destroyPending R1 = m_destroyPending R"
    "m_processedMarker R1 = m_processedMarker R"
    using notify_update[OF _ _ _ _ p1, of subs] ok1 up' by blast
  with run1 have n1': "n1 = RegionNode env R1 subs" by simp
  have up1: "cachingEnabled env" "getProcessedMarker env R1" "\<not> inTransaction env" "\<not> m_destroyPending R1"
    using up' n1 by (simp_all add: getProcessedMarker_def)
  obtain r2 M2 where p2: "put_map (rg_hash env) (rg_seg env) key (Some (Obj v2)) (-1) 0 (Some t2) None (rg_entries R1) = Inr (r2, M2)"
    using notify_update_put[OF up1 run2[unfolded n1']] by blast
  have "r_err r2 = a" using put_versioned(2)[OF m1(1) p2[unfolded n1(2)] i(1,2)] a(1) i(3) by simp
  moreover obtain err2 R2 where "notify (LOCAL_UPDATE key (Some (Obj v2)) (Some t2) None) n1 = Inr (err2, False, RegionNode env R2 subs)"
    "rg_entries R2 = M2"
    using notify_update[OF up1 p2, of subs] \<open>r_err r2 = a\<close> a(2) n1' by blast
  ultimately show ?thesis
    using run2 m1(3) put_map_refines(3)[OF m1(1) st p2[unfolded n1(2)]] ok1 by auto
qed

text \<open>An update by a notification that a region holds back.\<close>

lemma held_update:
  assumes held: "\<not> getProcessedMarker env R" and "\<not> inTransaction env" "\<not> m_destroyPending R" "listener env = Some l"
    and up: "updateNoThrow env action (Some key) val None (-1) flags tag d R = Inr (err, old, R')"
    and call: "action \<in> {InvalidateAction, DestroyAction, PutAction}" "action = PutAction \<longrightarrow> val \<noteq> None"
      "flags \<in> {NOTIFICATION OR LOCAL, NOTIFICATION OR NOTIFICATION_UPDATE OR LOCAL}"
  shows "rg_entries R' = rg_entries R \<and> (\<exists>method old new. calls R' = calls R @ [EntryCall method key old new])"
proof -
  from call(3) have fl: "isNotification flags" "\<not> isNoCallbacks flags" "\<not> invokeCacheWriter flags" by auto
  have "checkArgs action (Some key) val d = GF_NOERR" using call(2) by (auto simp: checkArgs_def)
  with up fl assms(2,3) obtain res where l: "localStep env action key val None flags (-1) tag d GF_ENOENT False R = Inr res"
    "listenerStep env action key flags res = (err, old, R')"
    by (auto simp: updateNoThrow_def writerStep_def propagate_def andThen_Inr_conv)
  from l(1) held fl obtain old1 where "res = (True, GF_NOERR, old1, val, R)"
    by (auto simp: localStep_def dropTracker_def andThen_Inr_conv)
  with l(2) fl assms(4) call(1) show ?thesis
    by (auto simp: listenerStep_def invokeCacheListenerForEntryEvent_def log_call_def Let_def)
qed

section \<open>Examples\<close>

text \<open>
  A region for high availability of a durable client, over the small map and with the two
  members, and a cache with it.
\<close>

definition durable_env :: "(nat, nat) region_env" where
  "durable_env = small_renv\<lparr>rg_seg := small_env\<lparr>env_members := two_members\<rparr>, haRegion := True, isDurableClient := True,
     plainLocalRegion := False\<rparr>"

definition live_region :: "(nat, nat) entries_map \<Rightarrow> (nat, nat) region" where
  "live_region M = (small_region M)\<lparr>m_processedMarker := True\<rparr>"

definition tag_map :: "nat \<Rightarrow> version_tag \<Rightarrow> (nat, nat) entries_map" where
  "tag_map v t = small_map\<lparr>m_segments := [small_segment, small_segment\<lparr>m_map :=
     [(1, MapEntryT (small_entry\<lparr>e_value := Some (Obj v), e_stamp := setVersions t new_VersionStamp\<rparr>))], seg_next := 1\<rparr>],
     m_size := 1\<rparr>"

lemma durable_env_sel [simp]:
  "rg_hash durable_env = of_nat" "cachingEnabled durable_env" "\<not> inTransaction durable_env" "haRegion durable_env"
  "isDurableClient durable_env" "env_members (rg_seg durable_env) = two_members" "listener durable_env = Some (\<lambda>_. True)"
  by (simp_all add: durable_env_def)

lemma live_region_sel [simp]:
  "rg_entries (live_region M) = M" "\<not> m_destroyPending (live_region M)" "m_processedMarker (live_region M)"
  by (simp_all add: live_region_def)

lemma tag_put:
  "\<exists>r. put_map of_nat env 1 (Some (Obj v)) (-1) 0 (Some t) None small_map = Inr (r, tag_map v t) \<and> r_err r = GF_NOERR"
  by (simp add: put_map_def on_segment_def segmentFor_def segmentIdx_def small_map_def put_seg_def check_rehash_def
      getPrime_def g_primeTable_def small_segment_def putNoEntry_def newMapEntry_def setValueI_def small_entry_def
      tag_map_def result_def add_size_def al_emplace_def Let_def)

lemma tag_put_again:
  assumes "checkForConflict (env_members env) t2 False (setVersions t1 new_VersionStamp) = Inr a"
    "a = GF_NOERR \<or> a = GF_CACHE_CONCURRENT_MODIFICATION_EXCEPTION"
  shows "\<exists>r M. put_map of_nat env 1 (Some (Obj v2)) (-1) 0 (Some t2) None (tag_map v1 t1) = Inr (r, M) \<and> r_err r = a"
  using assms
  by (auto simp: put_map_def on_segment_def segmentFor_def segmentIdx_def tag_map_def small_map_def put_seg_def
      check_rehash_def getPrime_def g_primeTable_def small_segment_def small_entry_def al_find_def next_stamp_def
      processVersionTag_def putForTrackedEntry_def getValueI_def setValueI_def result_def Let_def)

definition tag_a :: version_tag where
  "tag_a = new_VersionTag 1 0 9 1 0"

definition tag_b :: version_tag where
  "tag_b = new_VersionTag 0xffffff 0 8 2 0"

lemma tags_known:
  "stampable tag_a" "stampable tag_b" "getDSMember (m_internalMemId tag_a) two_members = Some member_a"
  "getDSMember (m_internalMemId tag_b) two_members = Some member_b" "length (hostAddr member_a) = length (hostAddr member_b)"
  "vt_entryVersion tag_a \<noteq> vt_entryVersion tag_b"
proof -
  have keys: "getHashKey member_a \<noteq> getHashKey member_b"
    by (simp add: getHashKey_def member_a_def member_b_def to_string.simps)
  then have ml: "m_members1 two_members = [(1, member_a), (2, member_b)]"
    by (simp add: two_members_def add_member_def new_MemberList_def Let_def al_simps)
  show "getDSMember (m_internalMemId tag_a) two_members = Some member_a"
    "getDSMember (m_internalMemId tag_b) two_members = Some member_b"
    by (simp_all add: getDSMember_def ml tag_a_def tag_b_def new_VersionTag_def al_simps)
qed (simp_all add: stampable_def tag_a_def tag_b_def new_VersionTag_def member_a_def member_b_def)

lemma durable_takes_updates: "map_inv of_nat M \<Longrightarrow> takes_updates durable_env (live_region M)"
  by (simp add: takes_updates_def getProcessedMarker_def)

text \<open>The two updates of the small map complete.\<close>

lemma tag_updates_run:
  assumes "checkForConflict two_members t2 False (setVersions t1 new_VersionStamp) = Inr a"
    "a = GF_NOERR \<or> a = GF_CACHE_CONCURRENT_MODIFICATION_EXCEPTION"
  shows "\<exists>e1 n1 e2 n2.
    notify (LOCAL_UPDATE 1 (Some (Obj v1)) (Some t1) None) (RegionNode durable_env (live_region small_map) []) = Inr (e1, False, n1) \<and>
    notify (LOCAL_UPDATE 1 (Some (Obj v2)) (Some t2) None) n1 = Inr (e2, False, n2)"
proof -
  note up = durable_takes_updates[OF map_inv_small(1), unfolded takes_updates_def]
  obtain r where p1: "put_map of_nat (rg_seg durable_env) 1 (Some (Obj v1)) (-1) 0 (Some t1) None small_map = Inr (r, tag_map v1 t1)"
    "r_err r = GF_NOERR"
    using tag_put by blast
  then obtain e1 R1 where n1: "notify (LOCAL_UPDATE 1 (Some (Obj v1)) (Some t1) None) (RegionNode durable_env (live_region small_map) []) =
      Inr (e1, False, RegionNode durable_env R1 [])" "rg_entries R1 = tag_map v1 t1" "\<not> m_destroyPending R1" "m_processedMarker R1"
    using notify_update[of durable_env "live_region small_map" 1 v1 "Some t1" r "tag_map v1 t1" "[]"] up by auto
  obtain r2 M2 where p2: "put_map of_nat (rg_seg durable_env) 1 (Some (Obj v2)) (-1) 0 (Some t2) None (tag_map v1 t1) = Inr (r2, M2)"
    "r_err r2 = a"
    using tag_put_again[of "rg_seg durable_env" t2 t1 a v2 v1] assms by auto
  then have "\<exists>e2 n2. notify (LOCAL_UPDATE 1 (Some (Obj v2)) (Some t2) None) (RegionNode durable_env R1 []) = Inr (e2, False, n2)"
    using notify_update[of durable_env R1 1 v2 "Some t2" r2 M2 "[]"] n1 assms(2) by (auto simp: getProcessedMarker_def)
  with n1(1) show ?thesis by blast
qed

definition event_msg :: "(nat, nat) notification \<Rightarrow> (nat, nat) message" where
  "event_msg n = \<lparr>msg_type = n, msg_region = ''/r'', msg_event = event_a, msg_hasCqPart = False, msg_shouldIgnore = False\<rparr>"

definition small_cache :: "(nat, nat) region \<Rightarrow> (nat, nat) cache" where
  "small_cache R = \<lparr>m_regions = [(''r'', RegionNode durable_env R [])], m_closed = False, c_destroyPending = False,
     redundancyManager = \<lparr>m_HAenabled = False, m_nextAck = 0, next_ack_inc = 1, m_eventidmap = \<lparr>m_expiry = 60, eim_map = []\<rparr>\<rparr>,
     m_globalProcessedMarker = False, m_dupCount = 0\<rparr>"

section \<open>Properties\<close>

text \<open>
  C2. Subscriptions converge: a region that receives two updates of a key it does not have, made by
  known members in different versions, or in equal ones when the members compare as different, ends
  with the same contents whichever of them arrives first.
\<close>

theorem notifications_converge:
  assumes up: "takes_updates env R" and absent: "slot_of (rg_hash env) key (rg_entries R) = None"
    and t: "stampable t1" "stampable t2"
    and m: "getDSMember (m_internalMemId t1) (env_members (rg_seg env)) = Some m1"
      "getDSMember (m_internalMemId t2) (env_members (rg_seg env)) = Some m2"
    and len: "length (hostAddr m1) = length (hostAddr m2)"
    and distinct: "vt_entryVersion t1 = vt_entryVersion t2 \<longrightarrow>
      m_internalMemId t1 \<noteq> m_internalMemId t2 \<and> compareTo False m1 m2 \<noteq> Inr 0"
    and run: "notify (LOCAL_UPDATE key (Some (Obj v1)) (Some t1) None) (RegionNode env R subs) = Inr (e1, g1, n1)"
      "notify (LOCAL_UPDATE key (Some (Obj v2)) (Some t2) None) n1 = Inr (e2, g2, n12)"
      "notify (LOCAL_UPDATE key (Some (Obj v2)) (Some t2) None) (RegionNode env R subs) = Inr (e3, g3, n2)"
      "notify (LOCAL_UPDATE key (Some (Obj v1)) (Some t1) None) n2 = Inr (e4, g4, n21)"
  shows "lookup_map (rg_hash env) (rg_entries (rt_region n12)) = lookup_map (rg_hash env) (rg_entries (rt_region n21))"
proof -
  obtain a b where c: "checkForConflict (env_members (rg_seg env)) t2 False (setVersions t1 new_VersionStamp) = Inr a"
    "checkForConflict (env_members (rg_seg env)) t1 False (setVersions t2 new_VersionStamp) = Inr b"
    and ab: "a = GF_NOERR \<and> b = GF_CACHE_CONCURRENT_MODIFICATION_EXCEPTION \<or>
      a = GF_CACHE_CONCURRENT_MODIFICATION_EXCEPTION \<and> b = GF_NOERR"
    by (rule one_tag_wins[OF t m len distinct])
  from ab have "a = GF_NOERR \<or> a = GF_CACHE_CONCURRENT_MODIFICATION_EXCEPTION"
    "b = GF_NOERR \<or> b = GF_CACHE_CONCURRENT_MODIFICATION_EXCEPTION" by auto
  from two_updates[OF up absent c(1) this(1) run(1,2)] two_updates[OF up absent c(2) this(2) run(3,4)] ab
  show ?thesis by auto
qed

theorem notifications_converge_witness:
  "\<exists>e1 n1 e2 n12 e3 n2 e4 n21.
    notify (LOCAL_UPDATE 1 (Some (Obj 7)) (Some tag_a) None) (RegionNode durable_env (live_region small_map) []) = Inr (e1, False, n1) \<and>
    notify (LOCAL_UPDATE 1 (Some (Obj 8)) (Some tag_b) None) n1 = Inr (e2, False, n12) \<and>
    notify (LOCAL_UPDATE 1 (Some (Obj 8)) (Some tag_b) None) (RegionNode durable_env (live_region small_map) []) = Inr (e3, False, n2) \<and>
    notify (LOCAL_UPDATE 1 (Some (Obj 7)) (Some tag_a) None) n2 = Inr (e4, False, n21) \<and>
    lookup_map of_nat (rg_entries (rt_region n12)) = lookup_map of_nat (rg_entries (rt_region n21))"
proof -
  obtain a b where c: "checkForConflict two_members tag_b False (setVersions tag_a new_VersionStamp) = Inr a"
    "checkForConflict two_members tag_a False (setVersions tag_b new_VersionStamp) = Inr b"
    "a = GF_NOERR \<or> a = GF_CACHE_CONCURRENT_MODIFICATION_EXCEPTION" "b = GF_NOERR \<or> b = GF_CACHE_CONCURRENT_MODIFICATION_EXCEPTION"
    using one_tag_wins[OF tags_known(1,2,3,4,5)] tags_known(6) by (metis (no_types, lifting))
  obtain e1 n1 e2 n12 where
    r1: "notify (LOCAL_UPDATE 1 (Some (Obj 7)) (Some tag_a) None) (RegionNode durable_env (live_region small_map) []) = Inr (e1, False, n1)"
      "notify (LOCAL_UPDATE 1 (Some (Obj 8)) (Some tag_b) None) n1 = Inr (e2, False, n12)"
    using tag_updates_run[OF c(1,3)] by blast
  obtain e3 n2 e4 n21 where
    r2: "notify (LOCAL_UPDATE 1 (Some (Obj 8)) (Some tag_b) None) (RegionNode durable_env (live_region small_map) []) = Inr (e3, False, n2)"
      "notify (LOCAL_UPDATE 1 (Some (Obj 7)) (Some tag_a) None) n2 = Inr (e4, False, n21)"
    using tag_updates_run[OF c(2,4)] by blast
  have "slot_of of_nat 1 small_map = None"
    by (simp add: slot_of_def segmentIdx_def small_map_def small_segment_def)
  then have "lookup_map (rg_hash durable_env) (rg_entries (rt_region n12)) = lookup_map (rg_hash durable_env) (rg_entries (rt_region n21))"
    by (intro notifications_converge[OF durable_takes_updates[OF map_inv_small(1)] _ tags_known(1,2) _ _ tags_known(5) _ r1 r2])
      (simp_all add: tags_known)
  with r1 r2 show ?thesis by (metis durable_env_sel(1))
qed



text \<open>
  C19. Before the marker that ends the replay of a durable client's queue, notifications reach the
  listener of a region but not its entries: an event about an entry leaves the entry map as it is and makes
  one call of the listener, about the event's key.
\<close>

theorem replayed_events_skip_cache:
  assumes "haRegion env" "isDurableClient env" "\<not> m_processedMarker R" "\<not> inTransaction env" "\<not> m_destroyPending R"
    and "listener env = Some l"
    and "msg = LOCAL_INVALIDATE key tag \<or> msg = LOCAL_DESTROY key tag \<or> msg = LOCAL_CREATE key (Some v) tag delta \<or>
      msg = LOCAL_UPDATE key (Some v) tag delta"
    and "notify msg (RegionNode env R subs) = Inr (err, gone, t)"
  shows "\<exists>method old new R'. t = RegionNode env R' subs \<and> \<not> gone \<and> rg_entries R' = rg_entries R \<and>
    calls R' = calls R @ [EntryCall method key old new]"
proof -
  have held: "\<not> getProcessedMarker env R" using assms(1-3) by (simp add: getProcessedMarker_def)
  note up = held_update[OF held assms(4,5,6)]
  from assms(7) show ?thesis
    by (elim disjE; use assms(8) in \<open>clarsimp simp: on_region_def andThen_Inr_conv invalidateNoThrow_def destroyNoThrow_def
        putNoThrow_def\<close>) (drule up; auto)+
qed

theorem replayed_events_skip_cache_witness:
  "\<exists>err t method old new. notify (LOCAL_UPDATE 1 (Some (Obj 7)) None None) (RegionNode durable_env (small_region small_map) []) =
     Inr (err, False, t) \<and> rg_entries (rt_region t) = small_map \<and> calls (rt_region t) = [EntryCall method 1 old new]"
proof -
  have held: "\<not> getProcessedMarker durable_env (small_region small_map)"
    by (simp add: getProcessedMarker_def small_region_def)
  have old: "getCallbackOldValue durable_env PutAction 1 None (small_region small_map) = Inr (lookup_map of_nat small_map 1)"
    using entries_getEntry_lookup[of durable_env "small_region small_map" 1] map_inv_small(1)
    by (simp add: getCallbackOldValue_def)
  have "\<exists>err t. notify (LOCAL_UPDATE 1 (Some (Obj 7)) None None) (RegionNode durable_env (small_region small_map) []) = Inr (err, False, t)"
    using held old
    by (simp add: on_region_def putNoThrow_def updateNoThrow_def checkArgs_def writerStep_def propagate_def localStep_def
        dropTracker_def case_prod_beta)
  then obtain err t where run: "notify (LOCAL_UPDATE 1 (Some (Obj 7)) None None) (RegionNode durable_env (small_region small_map) []) =
      Inr (err, False, t)" by blast
  have "\<exists>method old new R'. t = RegionNode durable_env R' [] \<and> \<not> False \<and> rg_entries R' = rg_entries (small_region small_map) \<and>
      calls R' = calls (small_region small_map) @ [EntryCall method 1 old new]"
    by (rule replayed_events_skip_cache[OF _ _ _ _ _ _ _ run]) (auto simp: small_region_def)
  with run show ?thesis by auto
qed

text \<open>
  C20. The marker ends the replay everywhere: after it every live region for high availability, and
  every one below such a root region, takes notifications, and a second marker changes nothing.
\<close>

theorem marker_makes_live:
  "processMarker (processMarker c) = processMarker c \<and>
   (\<forall>(name, t) \<in> set (m_regions (processMarker c)). \<not> c_destroyPending c \<longrightarrow> haRegion (rt_env t) \<longrightarrow>
      \<not> m_destroyPending (rt_region t) \<longrightarrow>
      (\<forall>s \<in> set (t # subregions_internal True t). m_destroyPending (rt_region s) \<or> getProcessedMarker (rt_env s) (rt_region s)))"
proof
  show "processMarker (processMarker c) = processMarker c"
    by (auto simp: processMarker_def mark_tree_idem intro!: cache.equality)
  have live: "m_destroyPending (rt_region (mark_tree u)) \<or> getProcessedMarker (rt_env (mark_tree u)) (rt_region (mark_tree u))"
    for u :: "('a, 'b) region_tree"
    by (simp add: handleMarker_def getProcessedMarker_def)
  show "\<forall>(name, t) \<in> set (m_regions (processMarker c)). \<not> c_destroyPending c \<longrightarrow> haRegion (rt_env t) \<longrightarrow>
      \<not> m_destroyPending (rt_region t) \<longrightarrow>
      (\<forall>s \<in> set (t # subregions_internal True t). m_destroyPending (rt_region s) \<or> getProcessedMarker (rt_env s) (rt_region s))"
  proof (clarify)
    fix name t s
    assume t: "(name, t) \<in> set (m_regions (processMarker c))" "\<not> c_destroyPending c" "haRegion (rt_env t)"
      "\<not> m_destroyPending (rt_region t)" and s: "s \<in> set (t # subregions_internal True t)"
      and n: "\<not> getProcessedMarker (rt_env s) (rt_region s)"
    from t obtain u where "t = mark_tree u" by (auto simp: processMarker_def split: if_splits)
    with s mark_subregions(1) obtain w where "s = mark_tree w" by auto
    with live n show "m_destroyPending (rt_region s)" by blast
  qed
qed

theorem marker_makes_live_witness:
  "getProcessedMarker durable_env (rt_region (snd (hd (m_regions (processMarker (small_cache (small_region small_map)))))))"
  using marker_makes_live[of "small_cache (small_region small_map)"]
  by (simp add: processMarker_def small_cache_def)

end
