(* ===== verification/Spec2Isabelle.thy ===== *)
theory Spec2Isabelle
  imports Serializer LRU_Eviction Event_Id_Map Metadata_Service Tx_Manager Region_Api Subscription
begin

text \<open>
  A verification library for the C++ client of Apache Geode (\<open>src/cppcache\<close>).

  \<^bold>\<open>The program.\<close> The client keeps regions, maps from keys to values that mirror data of a
  cluster of servers. An operation of a region changes the local entry map and sends a
  message to a server; the reply may carry a version tag, which decides between this change
  and changes that arrive as notifications. Values travel as bytes, written by
  \<open>DataOutput\<close> and read by \<open>DataInput\<close>. Notifications arrive on redundant
  connections and are filtered by the identity of their event. Requests for partitioned
  regions go to the server that holds the bucket of the key, as far as the metadata of the
  region tell. Transactions bind a thread to one server, and a timer runs delayed work.

  \<^bold>\<open>The model.\<close> Functions are translated line by line into HOL functions; a fallible function
  returns \<open>gf_exn + 'a\<close>, an exception on the left, composed with \<open>andThen\<close>.
  \<open>MemoryFault\<close> stands for what C++ leaves undefined (a load outside of an allocation, a
  null or dangling pointer), so that it appears as a value and can be proved absent or
  present. Error codes are the datatype \<open>gf_err\<close>. Machine integers are words of their
  width. Mutable objects are records, changed by state passing; an \<open>unordered_map\<close> is an
  association list in its iteration order; shared objects are named by numbers. Code under a
  lock is one step. Random numbers, clocks, replies of servers, the timer of the Boost
  library, the application's callbacks, its persistence manager and the hash code of a key
  are arguments.

  \<^bold>\<open>The theories\<close>, from the bottom up:

  \<^item> \<open>Geode_Prelude\<close>: words, exceptions and error codes, sequencing, big-endian bytes,
    association lists with their simplification rules (\<open>al_simps\<close>).
  \<^item> \<open>Java_Modified_Utf8\<close> (\<open>util/JavaModifiedUtf8.cpp\<close>): the string code of the
    wire format. Decoding inverts encoding, and every load stays in the bytes it is given.
  \<^item> \<open>Data_Output\<close> and \<open>Data_Input\<close> (\<open>DataOutput.hpp/cpp\<close>,
    \<open>DataInput.hpp/cpp\<close>): the growing buffer with its pool and the cursor with its bounds
    check. Writers make room before they write, readers do not leave the buffer, and the ones
    that do are named.
  \<^item> \<open>Serializer\<close> (\<open>Serializer.hpp\<close>): vectors, maps and sets over codecs of their
    elements. The locales \<open>codec\<close> and \<open>map_codec\<close> state what a writer and a reader
    owe each other; they are interpreted for the integer and string codecs, and the round
    trips of the containers follow.
  \<^item> \<open>Version_Stamp\<close> (\<open>VersionStamp.cpp\<close>, \<open>VersionTag.cpp\<close>,
    \<open>MemberListForVersionStamp.cpp\<close>, \<open>ClientProxyMembershipID.cpp\<close>): version tags,
    the conflict check and the order of members that breaks ties. Two conflicting changes end
    in the same value whatever order they arrive in.
  \<^item> \<open>Map_Entry\<close>, \<open>Map_Segment\<close>, \<open>Entries_Map\<close> (\<open>MapEntryT.hpp\<close>,
    \<open>TrackedMapEntry.cpp\<close>, \<open>MapSegment.cpp\<close>, \<open>TombstoneList.cpp\<close>,
    \<open>ConcurrentEntriesMap.cpp\<close>): the local entry map. A segment refines a partial map
    (\<open>lookup_seg\<close>, \<open>op_effect\<close>); the locale \<open>accounted_op\<close> is the contract
    under which the entry counter of the map stays right, interpreted for create, put,
    invalidate and remove. \<open>map_step\<close> is the step relation of a shared map, and its
    invariant (\<open>map_inv\<close>, \<open>sized\<close>) holds in all reachable states.
  \<^item> \<open>LRU_Queue\<close>, \<open>LRU_Map\<close>, \<open>LRU_Eviction\<close> (\<open>LRUQueue.cpp\<close>,
    \<open>LRUEntriesMap.cpp\<close>, \<open>LRUAction.cpp\<close>): the map with a limit. The locale
    \<open>recency\<close> says what a queue ordered by last use promises; the linked list of the code
    keeps it. The map stays within its limit and evicts what was not used for longest.
  \<^item> \<open>Event_Id_Map\<close> (\<open>EventId.cpp\<close>, \<open>EventIdMap.cpp\<close>,
    \<open>EventSource.cpp\<close>, \<open>ThinClientRedundancyManager.cpp\<close>): identities of events,
    the duplicate filter and the periodic acknowledgement.
  \<^item> \<open>Client_Metadata\<close> and \<open>Metadata_Service\<close> (\<open>ClientMetadata.cpp\<close>,
    \<open>ClientMetadataService.cpp\<close>): where the buckets of a partitioned region are, and the
    distribution of keys and buckets over servers.
  \<^item> \<open>Expiry_Tasks\<close> (\<open>ExpiryTask.cpp\<close>, \<open>ExpiryTaskManager.cpp\<close>) and
    \<open>Tx_Manager\<close> (\<open>CacheTransactionManagerImpl.cpp\<close>,
    \<open>InternalCacheTransactionManager2PCImpl.cpp\<close>, \<open>TXState.cpp\<close> and others): timed
    tasks and the life of transactions over many threads. \<open>em_run\<close> and \<open>tx_run\<close>
    are the step relations, and \<open>tx_inv\<close> says that an open transaction is in one place.
  \<^item> \<open>Local_Region\<close> (\<open>LocalRegion.cpp\<close>, \<open>RegionInternal.hpp\<close>): the operations of a
    region on its entries, from the flags and callbacks to the template \<open>updateNoThrow\<close> that
    put, create, destroy, remove and invalidate share, get with its loader, and the operations
    on many keys. \<open>region\<close> is the state, \<open>region_env\<close> holds attributes, callbacks
    and the connection; a call to a server returns the map that other threads leave.
  \<^item> \<open>Region_Cache\<close>: what those operations keep of the map whatever happens during the
    server call, and how versions and trackers decide between an operation and one that
    overtakes it. The locale \<open>server_link\<close> is what a region asks of its connection. It
    is interpreted for the local region, and \<open>Thin_Client\<close> proves it of the thin client.
  \<^item> \<open>Region_Tree\<close> and \<open>Region_Api\<close>: subregions by path, destroying and
    invalidating with all below, and the public operations with their exceptions.
  \<^item> \<open>Thin_Client\<close> (\<open>ThinClientRegion.cpp\<close>): the requests behind the operations and
    what the replies mean.
  \<^item> \<open>Subscription\<close> (\<open>TcrEndpoint.cpp\<close>, \<open>CacheImpl.cpp\<close>,
    \<open>ThinClientRegion.cpp\<close>, \<open>ThinClientHARegion.cpp\<close>): events from the receiving loop
    through the duplicate filter to the handler of the region they are for. This is where the
    version tags, the entry map, the regions and the event filter meet: the contents of a
    region do not depend on the order of two updates, an event is applied at most once, and
    a durable client holds events back until its marker.

  \<^bold>\<open>Termination and bounds.\<close> Loops over lists are structural recursion. The loops that are
  not are functions with a termination proof: the eviction loop shortens its queue in every
  round, the readers of strings and compressed integers consume input, the loops that assign
  buckets to servers use them up, and the lookup of a region shortens its path. The trees
  of regions are traversed by structural recursion. No definition uses fuel. Counters that
  wrap do so in the model; where a theorem needs room in a counter it says so.

  \<^bold>\<open>Properties\<close> are the theorems whose text starts with a number C\<open>n\<close>, in order of
  importance; a theorem with hypotheses is followed by an instance of it. The ones of kind
  error state a defect of the code and give its cause.

  \<^bold>\<open>Not modelled.\<close> Network input and output, thread pools and the handshake
  (\<open>TcrConnection.cpp\<close>, \<open>ThinClientPoolDM.cpp\<close>): their results are arguments. Of the
  regions, the registration of interest, the single hop forms of the requests for many keys,
  the change of attributes, access times and the expiration of entries, and the making of a
  region from its attributes. The continuous query part of an event. Most
  message layouts (\<open>TcrMessage.cpp\<close>), PDX, the serialization registry and the built-in
  value types, which are dispatch over run-time type information. Queries, functions and
  continuous queries, which are stubs of server side services. Statistics, logging, the
  parsing of configuration files, and the .NET wrapper.
\<close>

end
